(* ===== verification/Prelude.thy ===== *)
theory Prelude
  imports Main "HOL-Library.Word" "HOL-Library.Signed_Division"
begin

text \<open>
  Shared vocabulary of the development: the ways a C++ operation of the program can fail
  (\<open>cerr\<close>), results of fallible operations, checked \<open>int\<close> arithmetic, checked reads and writes
  of arrays, C strings and decimal digits, with the lemmas every component uses.

  The program is compiled by its makefile without \<open>-DNDEBUG\<close>, so its \<open>assert\<close>s are live. An
  operation whose behaviour the language leaves undefined (a null or freed pointer is followed,
  an array is accessed outside its bounds, a signed \<open>int\<close> overflows, an indeterminate value is
  read) is given an error value and ends the run: a theorem that an operation returns \<open>Inr\<close>
  says that none of this happens.
\<close>

section \<open>Outcomes\<close>

datatype cerr =
    Null_Deref             \<comment> \<open>a null pointer is followed\<close>
  | Out_Of_Bounds          \<comment> \<open>an array is read or written outside its bounds\<close>
  | Use_After_Free         \<comment> \<open>a freed object is accessed\<close>
  | Signed_Overflow        \<comment> \<open>a signed integer expression leaves its range\<close>
  | Float_Conversion       \<comment> \<open>a float too large for \<open>int\<close> is converted\<close>
  | Div_By_Zero
  | Assert_Failed
  | Killed_By_Signal       \<comment> \<open>a signal that nobody handles ends the process\<close>
  | Uninitialised_Read
  | Bad_Alloc              \<comment> \<open>\<open>new\<close> with a negative length throws\<close>
  | Bad_Function_Call      \<comment> \<open>an empty \<open>std::function\<close> is called, which throws\<close>
  | Missing_Return         \<comment> \<open>a non-void function flows off its end\<close>
  | Nonterminating         \<comment> \<open>a loop that never ends\<close>
  | Bad_Handle             \<comment> \<open>a mutex or thread call with an object in the wrong state\<close>
  | Process_Exit           \<comment> \<open>\<open>exit(0)\<close>\<close>

type_synonym 'a res = "cerr + 'a"

definition bind_res :: "'a res \<Rightarrow> ('a \<Rightarrow> 'b res) \<Rightarrow> 'b res" where
  "bind_res m f = (case m of Inl e \<Rightarrow> Inl e | Inr x \<Rightarrow> f x)"

lemma bind_res_simps [simp]:
  "bind_res (Inl e) f = Inl e"
  "bind_res (Inr x) f = f x"
  by (simp_all add: bind_res_def)

lemma bind_res_cong [fundef_cong]:
  "m = m' \<Longrightarrow> (\<And>x. m' = Inr x \<Longrightarrow> f x = f' x) \<Longrightarrow> bind_res m f = bind_res m' f'"
  by (auto simp: bind_res_def split: sum.splits)

lemma bind_res_eq_Inr:
  "(bind_res m f = Inr y) = (\<exists>x. m = Inr x \<and> f x = Inr y)"
  by (cases m) auto

lemma bind_res_assoc: "bind_res (bind_res m f) g = bind_res m (\<lambda>x. bind_res (f x) g)"
  by (cases m) auto

text \<open>The rules of checked arithmetic and checked array access.\<close>

named_theorems c_ops \<open>simplification of checked operations whose check succeeds\<close>

section \<open>Machine integers\<close>

definition INT_MAX :: int where "INT_MAX = 2147483647"
definition INT_MIN :: int where "INT_MIN = - 2147483648"

text \<open>The value of a signed 32-bit expression: itself, if it is in range.\<close>

definition c_int :: "int \<Rightarrow> int res" where
  "c_int x = (if INT_MIN \<le> x \<and> x \<le> INT_MAX then Inr x else Inl Signed_Overflow)"

text \<open>The C remainder truncates towards zero and traps on a zero divisor.\<close>

definition c_mod :: "int \<Rightarrow> int \<Rightarrow> int res" where
  "c_mod a b = (if b = 0 then Inl Div_By_Zero else Inr (a smod b))"

text \<open>The C quotient.\<close>

definition c_div :: "int \<Rightarrow> int \<Rightarrow> int res" where
  "c_div a b = (if b = 0 then Inl Div_By_Zero else c_int (a sdiv b))"

text \<open>Conversion of a \<open>size_t\<close> to \<open>int\<close>: the low 32 bits, read as two's complement.\<close>

definition int_of_size :: "nat \<Rightarrow> int" where
  "int_of_size n = sint (word_of_nat n :: 32 word)"

lemma c_int_in [c_ops]: "INT_MIN \<le> x \<Longrightarrow> x \<le> INT_MAX \<Longrightarrow> c_int x = Inr x"
  by (simp add: c_int_def)

lemma c_int_nonneg [c_ops]: "0 \<le> x \<Longrightarrow> x \<le> INT_MAX \<Longrightarrow> c_int x = Inr x"
  by (simp add: c_int_def INT_MIN_def)

lemma c_int_over: "INT_MAX < x \<Longrightarrow> c_int x = Inl Signed_Overflow"
  by (simp add: c_int_def)

lemma c_int_Inr: "(c_int x = Inr y) = (y = x \<and> INT_MIN \<le> x \<and> x \<le> INT_MAX)"
  by (auto simp: c_int_def)

lemma smod_nonneg: "0 \<le> a \<Longrightarrow> 0 < b \<Longrightarrow> a smod b = a mod (b::int)"
  by (cases "a = 0") (simp_all add: signed_modulo_int_def)

lemma c_mod_nonneg [c_ops]: "0 \<le> a \<Longrightarrow> 0 < b \<Longrightarrow> c_mod a b = Inr (a mod b)"
  by (simp add: c_mod_def smod_nonneg)

lemma int_of_size_small: "int n \<le> INT_MAX \<Longrightarrow> int_of_size n = int n"
proof -
  assume n: "int n \<le> INT_MAX"
  have "int_of_size n = signed_take_bit 31 (int n)"
    by (simp add: int_of_size_def signed_of_nat)
  also have "\<dots> = int n"
    by (rule signed_take_bit_int_eq_self) (use n in \<open>simp_all add: INT_MAX_def\<close>)
  finally show ?thesis .
qed

section \<open>Arrays\<close>

definition rd :: "'a list \<Rightarrow> int \<Rightarrow> 'a res" where
  "rd xs i = (if 0 \<le> i \<and> i < int (length xs) then Inr (xs ! nat i) else Inl Out_Of_Bounds)"

definition wr :: "'a list \<Rightarrow> int \<Rightarrow> 'a \<Rightarrow> 'a list res" where
  "wr xs i x = (if 0 \<le> i \<and> i < int (length xs) then Inr (xs[nat i := x]) else Inl Out_Of_Bounds)"

lemma rd_in [c_ops]: "0 \<le> i \<Longrightarrow> i < int (length xs) \<Longrightarrow> rd xs i = Inr (xs ! nat i)"
  by (simp add: rd_def)

lemma wr_in [c_ops]: "0 \<le> i \<Longrightarrow> i < int (length xs) \<Longrightarrow> wr xs i x = Inr (xs[nat i := x])"
  by (simp add: wr_def)

lemma rd_Inr: "(rd xs i = Inr x) = (0 \<le> i \<and> i < int (length xs) \<and> x = xs ! nat i)"
  by (auto simp: rd_def)

lemma wr_Inr: "(wr xs i x = Inr ys) = (0 \<le> i \<and> i < int (length xs) \<and> ys = xs[nat i := x])"
  by (auto simp: wr_def)

section \<open>Characters, C strings, decimal digits\<close>

abbreviation NUL :: char where "NUL \<equiv> CHR 0x00"

text \<open>The C string at the start of some memory: the bytes before the first NUL.\<close>

definition c_str :: "string \<Rightarrow> string" where
  "c_str s = takeWhile (\<lambda>c. c \<noteq> NUL) s"

lemma c_str_Nil [simp]: "c_str [] = []"
  by (simp add: c_str_def)

lemma c_str_no_NUL: "NUL \<notin> set s \<Longrightarrow> c_str s = s"
  by (induction s) (auto simp: c_str_def)

lemma c_str_snoc_NUL [simp]: "c_str (s @ [NUL]) = c_str s"
  by (induction s) (auto simp: c_str_def)

lemma NUL_notin_c_str [simp]: "NUL \<notin> set (c_str s)"
  by (auto simp: c_str_def dest: set_takeWhileD)

text \<open>\<open>strlen\<close> of a \<open>const char *\<close> into memory that ends after the given bytes.\<close>

definition strlen :: "string \<Rightarrow> nat res" where
  "strlen s = (if NUL \<in> set s then Inr (length (c_str s)) else Inl Out_Of_Bounds)"

text \<open>\<open>isdigit\<close> and \<open>isspace\<close> in the C locale.\<close>

definition isdigit :: "char \<Rightarrow> bool" where
  "isdigit c \<longleftrightarrow> 48 \<le> (of_char c :: nat) \<and> (of_char c :: nat) \<le> 57"

definition isspace :: "char \<Rightarrow> bool" where
  "isspace c \<longleftrightarrow> (of_char c :: nat) \<in> {32, 9, 10, 11, 12, 13}"

definition digit_val :: "char \<Rightarrow> int" where
  "digit_val c = int (of_char c) - 48"

lemma digit_val_range: "isdigit c \<Longrightarrow> 0 \<le> digit_val c \<and> digit_val c \<le> 9"
  by (auto simp: isdigit_def digit_val_def)

lemma isdigit_not_space: "isdigit c \<Longrightarrow> \<not> isspace c"
  by (auto simp: isdigit_def isspace_def)

lemma isdigit_not_special [simp]:
  "\<not> isdigit CHR '' ''" "\<not> isdigit NUL" "\<not> isdigit CHR ''-''" "\<not> isdigit CHR ''+''"
  by (simp_all add: isdigit_def)

text \<open>Value of a digit string, most significant digit first, from a start value.\<close>

fun dec_val :: "int \<Rightarrow> string \<Rightarrow> int" where
  "dec_val r [] = r"
| "dec_val r (c # cs) = dec_val (r * 10 + digit_val c) cs"

lemma dec_val_append [simp]: "dec_val r (xs @ ys) = dec_val (dec_val r xs) ys"
  by (induction xs arbitrary: r) auto

lemma dec_val_ge: "0 \<le> r \<Longrightarrow> \<forall>c \<in> set ds. isdigit c \<Longrightarrow> r \<le> dec_val r ds"
proof (induction ds arbitrary: r)
  case Nil
  then show ?case by simp
next
  case (Cons c cs)
  then have "0 \<le> digit_val c" by (simp add: digit_val_range)
  with Cons.prems(1) have le: "r \<le> r * 10 + digit_val c" and nn: "0 \<le> r * 10 + digit_val c"
    by simp_all
  from nn Cons.prems(2) have "r * 10 + digit_val c \<le> dec_val (r * 10 + digit_val c) cs"
    by (intro Cons.IH) simp_all
  with le show ?case by simp
qed

text \<open>Decimal notation of a number, as \<open>printf\<close> writes it for \<open>%d\<close>.\<close>

fun show_nat :: "nat \<Rightarrow> string" where
  "show_nat n = (if n < 10 then [char_of (48 + n)]
     else show_nat (n div 10) @ [char_of (48 + n mod 10)])"

declare show_nat.simps [simp del]

definition show_int :: "int \<Rightarrow> string" where
  "show_int i = (if i < 0 then CHR ''-'' # show_nat (nat (- i)) else show_nat (nat i))"

lemma of_char_of_digit [simp]: "d < 10 \<Longrightarrow> (of_char (char_of (48 + d :: nat)) :: nat) = 48 + d"
  by simp

lemma isdigit_char_of: "d < 10 \<Longrightarrow> isdigit (char_of (48 + d :: nat))"
  by (simp add: isdigit_def)

lemma digit_val_char_of: "d < 10 \<Longrightarrow> digit_val (char_of (48 + d :: nat)) = int d"
  by (simp add: digit_val_def)

lemma show_nat_digits: "\<forall>c \<in> set (show_nat n). isdigit c"
proof (induction n rule: show_nat.induct)
  case (1 n)
  then show ?case
    by (cases "n < 10") (auto simp: show_nat.simps [of n] isdigit_char_of)
qed

lemma show_nat_not_Nil [simp]: "show_nat n \<noteq> []"
  by (subst show_nat.simps) simp

lemma dec_val_show_nat: "dec_val 0 (show_nat n) = int n"
proof (induction n rule: show_nat.induct)
  case (1 n)
  show ?case
  proof (cases "n < 10")
    case True
    then show ?thesis by (simp add: show_nat.simps [of n] digit_val_char_of)
  next
    case False
    with 1 show ?thesis
      by (simp add: show_nat.simps [of n] digit_val_char_of zdiv_int zmod_int)
  qed
qed

section \<open>Lists\<close>

lemma drop_replicate_last: "0 \<le> n \<Longrightarrow> drop (nat n) (replicate (nat (n + 1)) x) = [x]"
  by (simp only: drop_replicate) (simp add: nat_add_distrib)

lemma takeWhile_all_append:
  "\<forall>x \<in> set xs. P x \<Longrightarrow> \<not> P y \<Longrightarrow> takeWhile P (xs @ y # ys) = xs"
  by (induction xs) auto

lemma dropWhile_all_append:
  "\<forall>x \<in> set xs. P x \<Longrightarrow> \<not> P y \<Longrightarrow> dropWhile P (xs @ y # ys) = y # ys"
  by (induction xs) auto

lemma take_upd_snoc: "i < length xs \<Longrightarrow> take (Suc i) (xs[i := x]) = take i xs @ [x]"
  by (simp add: take_Suc_conv_app_nth)

section \<open>Fair runs\<close>

lemma first_from:
  fixes n :: nat
  assumes "\<exists>j \<ge> n. P j"
  obtains m where "n \<le> m" "P m" "\<And>j. n \<le> j \<Longrightarrow> j < m \<Longrightarrow> \<not> P j"
proof -
  let ?Q = "\<lambda>j. n \<le> j \<and> P j"
  have "?Q (LEAST j. ?Q j)" by (rule LeastI_ex) (rule assms)
  moreover have "\<not> P j" if "n \<le> j" "j < (LEAST j. ?Q j)" for j using that not_less_Least [of j ?Q] by blast
  ultimately show ?thesis using that by blast
qed

text \<open>What waits in a run is done in the end, if a turn \<open>T\<close> comes as long as it waits, each turn lessens its rank, and no
  other step changes it.\<close>

lemma fair_progress:
  fixes rank :: "nat \<Rightarrow> 'r"
  assumes wf: "wf r" and turns: "\<And>n. W n \<Longrightarrow> \<exists>m \<ge> n. T m"
    and other: "\<And>m. W m \<Longrightarrow> \<not> T m \<Longrightarrow> D (Suc m) \<or> W (Suc m) \<and> rank (Suc m) = rank m"
    and turn: "\<And>m. W m \<Longrightarrow> T m \<Longrightarrow> D (Suc m) \<or> W (Suc m) \<and> (rank (Suc m), rank m) \<in> r"
  shows "W n \<Longrightarrow> \<exists>m > n. D m"
proof (induction "rank n" arbitrary: n rule: wf_induct_rule [OF wf])
  case 1
  obtain m where m: "n \<le> m" "T m" "\<And>j. n \<le> j \<Longrightarrow> j < m \<Longrightarrow> \<not> T j" using turns [OF 1(2)] first_from [of n T] by metis
  have "(\<exists>j > n. D j) \<or> W j \<and> rank j = rank n" if "n \<le> j" "j \<le> m" for j
    using that
  proof (induction j rule: dec_induct)
    case (step j)
    then have "\<not> T j" using m(3) by simp
    then show ?case using step other [of j] le_imp_less_Suc [of n j] by auto
  qed (use 1(2) in simp)
  from this [of m] m(1) consider "\<exists>j > n. D j" | "W m" "rank m = rank n" by blast
  then show ?case
  proof cases
    case 2
    from turn [OF this(1) m(2)] consider "D (Suc m)" | "W (Suc m)" "(rank (Suc m), rank n) \<in> r" using 2 by auto
    then show ?thesis
    proof cases
      case 2
      from 1(1) [OF this(2) this(1)] show ?thesis using m(1) by (meson Suc_lessD le_less_trans less_SucI)
    qed (use m(1) in \<open>auto intro: exI [of _ "Suc m"]\<close>)
  qed
qed

end
