(* ===== verification/Buffer.thy ===== *)
theory Buffer
  imports Prelude "HOL-Library.Log_Nat"
begin

text \<open>
  The growable ring buffer of \<open>src/buffer.h\<close>: class \<open>Buffer\<close>, one definition per member function.
  A buffer is a record of its data members; \<open>_data\<close> is the allocated array as a list of bytes.
  The constructor's \<open>growFactor\<close> is a positive float, so a dyadic rational: \<open>F32 m s\<close> stands for
  \<open>m / 2 ^ s\<close>, and \<open>newSize *= _growFactor\<close> rounds like single precision does.

  The abstract view is \<open>contents\<close>, the bytes in the order they were written: \<open>write\<close> appends as
  much as \<open>_maxSize\<close> leaves room for, \<open>read\<close> and \<open>skipHead\<close> take from the front. The second
  half of the theory states this as the interface \<open>byte_queue\<close> and interprets it on the code.
\<close>

section \<open>Single precision arithmetic of the growth factor\<close>

datatype f32 = F32 (mant: nat) (scale: nat)

definition float_1_5 :: f32 where "float_1_5 = F32 3 1"

text \<open>Round to 24 significant bits, ties to even.\<close>

definition round24 :: "nat \<Rightarrow> nat" where
  "round24 k =
     (if k < 2 ^ 24 then k
      else let e = floorlog 2 k - 24; q = k div 2 ^ e; r = k mod 2 ^ e
           in (if 2 * r < 2 ^ e \<or> (2 * r = 2 ^ e \<and> even q) then q else q + 1) * 2 ^ e)"

text \<open>The exact value of \<open>(float) n * f\<close>, truncated to an integer.\<close>

definition f32_mul_to_int :: "f32 \<Rightarrow> int \<Rightarrow> int" where
  "f32_mul_to_int f n = int (round24 (round24 (nat n) * mant f) div 2 ^ scale f)"

section \<open>The buffer and its operations\<close>

record buffer =
  bufData :: string
  currentSize :: int
  maxSize :: int
  bufBegin :: int
  bufEnd :: int
  bufCount :: int
  growFactor :: f32

text \<open>\<open>new char[n]\<close>; the bytes of a fresh array are indeterminate, and always written before they
  are read.\<close>

definition new_chars :: "int \<Rightarrow> string res" where
  "new_chars n = (if n < 0 then Inl Bad_Alloc else Inr (replicate (nat n) NUL))"

text \<open>\<open>new char[n]{0}\<close> has one initial value and needs room for it: \<open>n = 0\<close> is \<open>std::bad_array_new_length\<close> as well.\<close>

definition new_chars0 :: "int \<Rightarrow> string res" where
  "new_chars0 n = (if n < 1 then Inl Bad_Alloc else Inr (replicate (nat n) NUL))"

definition Buffer_new :: "int \<Rightarrow> int \<Rightarrow> f32 \<Rightarrow> buffer res" where
  "Buffer_new initSize mx gf =
     (if \<not> initSize \<le> mx then Inl Assert_Failed
      else bind_res (new_chars0 initSize) (\<lambda>d.
        Inr \<lparr>bufData = d, currentSize = initSize, maxSize = mx, bufBegin = 0, bufEnd = 0,
             bufCount = 0, growFactor = gf\<rparr>))"

definition buf_size :: "buffer \<Rightarrow> int" where "buf_size b = bufCount b"
definition buf_empty :: "buffer \<Rightarrow> bool" where "buf_empty b \<longleftrightarrow> bufCount b = 0"
definition isFull :: "buffer \<Rightarrow> bool" where "isFull b \<longleftrightarrow> bufCount b = currentSize b"
definition canGrow :: "buffer \<Rightarrow> bool" where "canGrow b \<longleftrightarrow> currentSize b < maxSize b"
definition needGrow :: "int \<Rightarrow> buffer \<Rightarrow> bool res" where
  "needGrow n b = bind_res (c_int (bufCount b + n)) (\<lambda>s. Inr (currentSize b < s))"
definition getSpace :: "buffer \<Rightarrow> int" where "getSpace b = currentSize b - bufCount b"
definition getMaxSpace :: "buffer \<Rightarrow> int" where "getMaxSpace b = maxSize b - bufCount b"
definition getSize :: "buffer \<Rightarrow> int" where "getSize b = bufCount b"

definition buf_clear :: "buffer \<Rightarrow> buffer" where
  "buf_clear b = b\<lparr>bufBegin := 0, bufEnd := 0, bufCount := 0\<rparr>"

text \<open>\<open>(index + 1) % _currentSize\<close>\<close>

definition next_index :: "buffer \<Rightarrow> int \<Rightarrow> int res" where
  "next_index b i = bind_res (c_int (i + 1)) (\<lambda>j. c_mod j (currentSize b))"

text \<open>The loop of \<open>read(char * dst, int n)\<close>, with \<open>k\<close> iterations left; \<open>dst\<close> is the memory the
  caller passes, up to its end.\<close>

fun read_loop :: "nat \<Rightarrow> int \<Rightarrow> string \<Rightarrow> buffer \<Rightarrow> (string \<times> buffer) res" where
  "read_loop 0 i dst b = Inr (dst, b)"
| "read_loop (Suc k) i dst b =
     bind_res (rd (bufData b) (bufBegin b)) (\<lambda>c.
     bind_res (wr dst i c) (\<lambda>dst'.
     bind_res (next_index b (bufBegin b)) (\<lambda>bg.
       read_loop k (i + 1) dst' (b\<lparr>bufBegin := bg, bufCount := bufCount b - 1\<rparr>))))"

definition buf_read :: "string \<Rightarrow> int \<Rightarrow> buffer \<Rightarrow> (int \<times> string \<times> buffer) res" where
  "buf_read dst n b =
     (let n' = (if n > bufCount b then bufCount b else n)
      in bind_res (read_loop (nat n') 0 dst b) (\<lambda>(dst', b'). Inr (n', dst', b')))"

text \<open>\<open>read(char * dst)\<close>\<close>

definition buf_read_all :: "string \<Rightarrow> buffer \<Rightarrow> (int \<times> string \<times> buffer) res" where
  "buf_read_all dst b = buf_read dst (bufCount b) b"

definition readAsString :: "buffer \<Rightarrow> (string \<times> buffer) res" where
  "readAsString b =
     (let cnt = bufCount b
      in bind_res (c_int (cnt + 1)) (\<lambda>len.
         bind_res (new_chars len) (\<lambda>mem.
         bind_res (buf_read_all mem b) (\<lambda>(_, mem', b').
         bind_res (wr mem' cnt NUL) (\<lambda>mem''. Inr (c_str mem'', b'))))))"

text \<open>\<open>readAsString(int length)\<close>\<close>

definition readAsString_n :: "int \<Rightarrow> buffer \<Rightarrow> (string \<times> buffer) res" where
  "readAsString_n len b =
     (let cnt = (if len > bufCount b then bufCount b else len)
      in bind_res (c_int (cnt + 1)) (\<lambda>sz.
         bind_res (new_chars sz) (\<lambda>mem.
         bind_res (buf_read mem cnt b) (\<lambda>(_, mem', b').
         bind_res (wr mem' cnt NUL) (\<lambda>mem''. Inr (c_str mem'', b'))))))"

definition skipHead :: "int \<Rightarrow> buffer \<Rightarrow> buffer res" where
  "skipHead n b =
     (if \<not> bufCount b \<ge> n then Inl Assert_Failed
      else bind_res (c_int (bufCount b - n)) (\<lambda>cnt.
           bind_res (c_int (bufBegin b + n)) (\<lambda>x.
           bind_res (c_mod x (currentSize b)) (\<lambda>bg.
             Inr (b\<lparr>bufCount := cnt, bufBegin := bg\<rparr>)))))"

definition skipTail :: "int \<Rightarrow> buffer \<Rightarrow> buffer res" where
  "skipTail n b =
     (if \<not> bufCount b \<ge> n then Inl Assert_Failed
      else bind_res (c_int (bufCount b - n)) (\<lambda>cnt.
           bind_res (c_int (bufEnd b - n)) (\<lambda>x.
           bind_res (c_mod x (currentSize b)) (\<lambda>en.
             Inr (b\<lparr>bufCount := cnt, bufEnd := en\<rparr>)))))"

text \<open>\<open>copy\<close> runs over a local copy of \<open>_begin\<close> and leaves the buffer as it is.\<close>

fun copy_loop :: "nat \<Rightarrow> int \<Rightarrow> int \<Rightarrow> string \<Rightarrow> buffer \<Rightarrow> string res" where
  "copy_loop 0 i bg dst b = Inr dst"
| "copy_loop (Suc k) i bg dst b =
     bind_res (rd (bufData b) bg) (\<lambda>c.
     bind_res (wr dst i c) (\<lambda>dst'.
     bind_res (next_index b bg) (\<lambda>bg'. copy_loop k (i + 1) bg' dst' b)))"

definition buf_copy :: "string \<Rightarrow> int \<Rightarrow> buffer \<Rightarrow> (int \<times> string) res" where
  "buf_copy dst n b =
     (let n' = (if n > bufCount b then bufCount b else n)
      in bind_res (copy_loop (nat n') 0 (bufBegin b) dst b) (\<lambda>dst'. Inr (n', dst')))"

definition buf_copy_all :: "string \<Rightarrow> buffer \<Rightarrow> (int \<times> string) res" where
  "buf_copy_all dst b = buf_copy dst (bufCount b) b"

text \<open>The loop of \<open>grow\<close> that looks for a capacity; it may not end.\<close>

partial_function (option) grow_loop :: "f32 \<Rightarrow> int \<Rightarrow> int \<Rightarrow> int res option" where
  "grow_loop f capacity newSize =
     (if newSize < capacity
      then (if f32_mul_to_int f newSize > INT_MAX then Some (Inl Float_Conversion)
            else grow_loop f capacity (f32_mul_to_int f newSize))
      else Some (Inr newSize))"

definition grow_size :: "buffer \<Rightarrow> int \<Rightarrow> int res" where
  "grow_size b capacity =
     (case grow_loop (growFactor b) capacity (currentSize b) of
        None \<Rightarrow> Inl Nonterminating
      | Some r \<Rightarrow> bind_res r (\<lambda>n. Inr (if n > maxSize b then maxSize b else n)))"

definition grow :: "int \<Rightarrow> buffer \<Rightarrow> buffer res" where
  "grow capacity b =
     bind_res (grow_size b capacity) (\<lambda>newSize.
     bind_res (new_chars0 newSize) (\<lambda>temp.
       let cnt = bufCount b
       in bind_res (buf_read temp cnt b) (\<lambda>(_, temp', b').
            Inr (b'\<lparr>bufCount := cnt, bufBegin := 0, bufEnd := cnt, currentSize := newSize,
                    bufData := temp'\<rparr>))))"

fun write_loop :: "nat \<Rightarrow> int \<Rightarrow> string \<Rightarrow> buffer \<Rightarrow> buffer res" where
  "write_loop 0 i src b = Inr b"
| "write_loop (Suc k) i src b =
     bind_res (rd src i) (\<lambda>c.
     bind_res (wr (bufData b) (bufEnd b) c) (\<lambda>d.
     bind_res (next_index b (bufEnd b)) (\<lambda>en.
       write_loop k (i + 1) src (b\<lparr>bufData := d, bufEnd := en, bufCount := bufCount b + 1\<rparr>))))"

definition buf_write :: "string \<Rightarrow> int \<Rightarrow> buffer \<Rightarrow> (int \<times> buffer) res" where
  "buf_write src n b =
     bind_res (needGrow n b) (\<lambda>need.
     bind_res (if need \<and> canGrow b
               then bind_res (c_int (bufCount b + n)) (\<lambda>c. grow c b) else Inr b) (\<lambda>b1.
       let room = getSpace b1; n' = (if n > room then room else n)
       in bind_res (write_loop (nat n') 0 src b1) (\<lambda>b2. Inr (n', b2))))"

text \<open>\<open>write(const std::string &)\<close>: \<open>data()\<close> is followed by a NUL.\<close>

definition buf_write_string :: "string \<Rightarrow> buffer \<Rightarrow> (int \<times> buffer) res" where
  "buf_write_string src b = buf_write (src @ [NUL]) (int_of_size (length src)) b"

text \<open>\<open>write(const char *)\<close>\<close>

definition buf_write_cstr :: "string \<Rightarrow> buffer \<Rightarrow> (int \<times> buffer) res" where
  "buf_write_cstr src b =
     bind_res (strlen src) (\<lambda>n. buf_write src (int_of_size n) b)"

definition putChar :: "char \<Rightarrow> buffer \<Rightarrow> buffer res" where
  "putChar c b =
     bind_res (wr (bufData b) (bufEnd b) c) (\<lambda>d.
     bind_res (next_index b (bufEnd b)) (\<lambda>en.
       Inr (b\<lparr>bufData := d, bufEnd := en, bufCount := bufCount b + 1\<rparr>)))"

text \<open>\<open>getChar\<close> updates the buffer and then flows off its end without a \<open>return\<close>.\<close>

definition getChar :: "buffer \<Rightarrow> (char \<times> buffer) res" where
  "getChar b =
     bind_res (rd (bufData b) (bufBegin b)) (\<lambda>_.
     bind_res (next_index b (bufBegin b)) (\<lambda>_. Inl Missing_Return))"

definition peekChar :: "int \<Rightarrow> buffer \<Rightarrow> char res" where
  "peekChar offset b =
     bind_res (c_int (bufBegin b + offset)) (\<lambda>x.
     bind_res (c_mod x (currentSize b)) (\<lambda>i. rd (bufData b) i))"

text \<open>The loop of \<open>peekIntWithLength\<close> and \<open>peekIntWithoutLength\<close>: \<open>k\<close> is \<open>_count - offset\<close>, \<open>r\<close>
  is \<open>*res\<close>, and \<open>cc\<close> is \<open>currentChar\<close>, indeterminate before the first iteration.\<close>

fun peek_loop :: "nat \<Rightarrow> int \<Rightarrow> int \<Rightarrow> char option \<Rightarrow> buffer \<Rightarrow> (int \<times> int \<times> char option) res" where
  "peek_loop 0 offset r cc b = Inr (r, offset, cc)"
| "peek_loop (Suc k) offset r cc b =
     bind_res (peekChar offset b) (\<lambda>c.
       if isdigit c
       then bind_res (c_int (r * 10)) (\<lambda>m.
            bind_res (c_int (m + digit_val c)) (\<lambda>r'. peek_loop k (offset + 1) r' (Some c) b))
       else Inr (r, offset, Some c))"

text \<open>The result triple is the return value, \<open>*res\<close> and \<open>*length\<close>.\<close>

definition peekIntWithLength :: "char \<Rightarrow> buffer \<Rightarrow> (int \<times> int \<times> int) res" where
  "peekIntWithLength delimiter b =
     bind_res (peek_loop (nat (bufCount b)) 0 0 None b) (\<lambda>(r, len, cc).
       case cc of None \<Rightarrow> Inl Uninitialised_Read
       | Some c \<Rightarrow> Inr (if c \<noteq> delimiter then 0 else 1, r, len))"

definition peekIntWithoutLength :: "char \<Rightarrow> buffer \<Rightarrow> (int \<times> int) res" where
  "peekIntWithoutLength delimiter b =
     bind_res (peek_loop (nat (bufCount b)) 0 0 None b) (\<lambda>(r, _, cc).
       case cc of None \<Rightarrow> Inl Uninitialised_Read
       | Some c \<Rightarrow> Inr (if c \<noteq> delimiter then 0 else 1, r))"

section \<open>Rounding\<close>

lemma round24_small: "k < 2 ^ 24 \<Longrightarrow> round24 k = k"
  by (simp add: round24_def)

lemma round_half_even_err:
  fixes k d :: nat
  assumes "0 < d"
  defines "v \<equiv> (if 2 * (k mod d) < d \<or> (2 * (k mod d) = d \<and> even (k div d))
                then k div d else k div d + 1) * d"
  shows "2 * v \<le> 2 * k + d" and "2 * k \<le> 2 * v + d"
proof -
  have k: "k = k div d * d + k mod d" and r: "k mod d < d" using assms(1) by simp_all
  have "v = k div d * d \<and> 2 * (k mod d) \<le> d \<or> v = k div d * d + d \<and> d \<le> 2 * (k mod d)"
    by (auto simp: v_def)
  with k r show "2 * v \<le> 2 * k + d" and "2 * k \<le> 2 * v + d" by linarith+
qed

lemma round24_err:
  "2 ^ 24 * round24 k \<le> 2 ^ 24 * k + k" "2 ^ 24 * k \<le> 2 ^ 24 * round24 k + k"
proof -
  have "2 ^ 24 * round24 k \<le> 2 ^ 24 * k + k \<and> 2 ^ 24 * k \<le> 2 ^ 24 * round24 k + k"
  proof (cases "k < 2 ^ 24")
    case True
    then show ?thesis by (simp add: round24_small)
  next
    case False
    define L where "L = floorlog 2 k"
    define d :: nat where "d = 2 ^ (L - 24)"
    from False have "2 ^ 24 \<le> k" by simp
    then have "Suc 24 \<le> L" unfolding L_def by (intro floorlog_ge_SucI) simp_all
    then have "L = 24 + (L - 24)" and "L = Suc (L - 1)" by simp_all
    then have "2 ^ 24 * d = 2 ^ L" and L1: "2 * 2 ^ (L - 1) = (2::nat) ^ L"
      unfolding d_def by (metis power_add, metis power_Suc)
    moreover have "2 ^ (L - 1) \<le> k"
      using False floorlog_bounds [of k 2] by (simp add: L_def)
    ultimately have dk: "2 ^ 24 * d \<le> 2 * k" by linarith
    have "round24 k = (if 2 * (k mod d) < d \<or> (2 * (k mod d) = d \<and> even (k div d))
        then k div d else k div d + 1) * d"
      using False by (simp add: round24_def Let_def d_def L_def)
    with round_half_even_err [of d k] have "2 * round24 k \<le> 2 * k + d" "2 * k \<le> 2 * round24 k + d"
      by (simp_all add: d_def)
    with dk show ?thesis by simp
  qed
  then show "2 ^ 24 * round24 k \<le> 2 ^ 24 * k + k" "2 ^ 24 * k \<le> 2 ^ 24 * round24 k + k"
    by simp_all
qed

text \<open>Multiplying by 1.5 makes progress from 2 on, and stays within 1.5 and a little.\<close>

lemma grow_step_bounds:
  assumes "2 \<le> n" "n \<le> 2 ^ 30"
  shows "n < f32_mul_to_int float_1_5 n" and "f32_mul_to_int float_1_5 n \<le> INT_MAX"
proof -
  define a where "a = nat n"
  define m where "m = round24 a"
  define p where "p = round24 (m * 3)"
  have f: "f32_mul_to_int float_1_5 n = int (p div 2)"
    by (simp add: f32_mul_to_int_def float_1_5_def p_def m_def a_def)
  have a: "2 \<le> a" "a \<le> 2 ^ 30" using assms by (simp_all add: a_def nat_le_iff)
  have m: "2 ^ 24 * m \<le> 2 ^ 24 * a + a" "2 ^ 24 * a \<le> 2 ^ 24 * m + a"
    unfolding m_def by (rule round24_err)+
  have p: "2 ^ 24 * p \<le> 2 ^ 24 * (m * 3) + m * 3" "2 ^ 24 * (m * 3) \<le> 2 ^ 24 * p + m * 3"
    unfolding p_def by (rule round24_err)+
  have "a + 1 \<le> p div 2"
  proof (cases "a < 2 ^ 22")
    case True
    then have "m = a" "p = a * 3" by (simp_all add: m_def p_def round24_small)
    with a show ?thesis by simp
  next
    case False
    with m p show ?thesis by simp
  qed
  moreover have "p div 2 \<le> 2147483647" using a m p by simp
  ultimately show "n < f32_mul_to_int float_1_5 n" "f32_mul_to_int float_1_5 n \<le> INT_MAX"
    using assms by (auto simp: f a_def INT_MAX_def)
qed

lemma grow_loop_terminates:
  "2 \<le> n \<Longrightarrow> capacity \<le> 2 ^ 30 \<Longrightarrow>
   \<exists>m. grow_loop float_1_5 capacity n = Some (Inr m) \<and> capacity \<le> m \<and> n \<le> m"
proof (induction "nat (capacity - n)" arbitrary: n rule: less_induct)
  case less
  show ?case
  proof (cases "n < capacity")
    case True
    let ?n = "f32_mul_to_int float_1_5 n"
    from True less.prems have b: "n < ?n" "?n \<le> INT_MAX" using grow_step_bounds [of n] by simp_all
    with True less.prems obtain m where
      "grow_loop float_1_5 capacity ?n = Some (Inr m)" "capacity \<le> m" "?n \<le> m"
      using less.hyps [of ?n] by auto
    with True b show ?thesis by (auto simp: grow_loop.simps [of _ _ n])
  next
    case False
    then show ?thesis by (simp add: grow_loop.simps)
  qed
qed

lemma grow_loop_stuck:
  assumes "0 \<le> n" "n \<le> 1" "n < capacity"
  shows "grow_loop float_1_5 capacity n = None"
proof (rule ccontr)
  assume "grow_loop float_1_5 capacity n \<noteq> None"
  then obtain r where r: "grow_loop float_1_5 capacity n = Some r" by auto
  have fix01: "f32_mul_to_int float_1_5 k = k" if "0 \<le> k" "k \<le> 1" for k
  proof -
    from that have "k = 0 \<or> k = 1" by arith
    then show ?thesis by (auto simp: f32_mul_to_int_def float_1_5_def round24_small)
  qed
  have "\<not> (f = float_1_5 \<and> 0 \<le> n' \<and> n' \<le> 1 \<and> n' < c)"
    if "grow_loop f c n' = Some r" for f c n' r
  proof (rule grow_loop.raw_induct [where P = "\<lambda>f c n' r. \<not> (f = float_1_5 \<and> 0 \<le> n' \<and> n' \<le> 1 \<and> n' < c)", OF _ that])
    fix g f c n' r
    assume IH: "\<And>f c n' r. g f c n' = Some r \<Longrightarrow> \<not> (f = float_1_5 \<and> 0 \<le> n' \<and> n' \<le> 1 \<and> n' < c)"
      and eq: "(if n' < c
          then (if f32_mul_to_int f n' > INT_MAX then Some (Inl Float_Conversion)
                else g f c (f32_mul_to_int f n')) else Some (Inr n')) = Some r"
    show "\<not> (f = float_1_5 \<and> 0 \<le> n' \<and> n' \<le> 1 \<and> n' < c)"
    proof
      assume h: "f = float_1_5 \<and> 0 \<le> n' \<and> n' \<le> 1 \<and> n' < c"
      then have "f32_mul_to_int f n' = n'" "\<not> n' > INT_MAX" "n' < c"
        using fix01 [of n'] by (simp_all add: INT_MAX_def)
      with eq have "g f c n' = Some r" by simp
      from IH [OF this] h show False by simp
    qed
  qed
  from this [OF r] assms show False by simp
qed

section \<open>The ring invariant and the abstract contents\<close>

definition buf_inv :: "buffer \<Rightarrow> bool" where
  "buf_inv b \<longleftrightarrow>
     0 < currentSize b \<and> currentSize b \<le> maxSize b \<and> maxSize b \<le> INT_MAX \<and>
     int (length (bufData b)) = currentSize b \<and>
     0 \<le> bufBegin b \<and> bufBegin b < currentSize b \<and>
     0 \<le> bufCount b \<and> bufCount b \<le> currentSize b \<and>
     bufEnd b = (bufBegin b + bufCount b) mod currentSize b"

definition contents :: "buffer \<Rightarrow> string" where
  "contents b =
     map (\<lambda>i. bufData b ! nat ((bufBegin b + int i) mod currentSize b)) [0..<nat (bufCount b)]"

lemma length_contents [simp]: "length (contents b) = nat (bufCount b)"
  by (simp add: contents_def)

lemma contents_nth:
  "i < nat (bufCount b) \<Longrightarrow>
   contents b ! i = bufData b ! nat ((bufBegin b + int i) mod currentSize b)"
  by (simp add: contents_def)

lemma contents_empty: "bufCount b = 0 \<Longrightarrow> contents b = []"
  by (simp add: contents_def)

lemma contents_Nil_iff: "buf_inv b \<Longrightarrow> contents b = [] \<longleftrightarrow> bufCount b = 0"
  by (auto simp: contents_def buf_inv_def)

text \<open>Two ring positions at a distance below the size differ.\<close>

lemma ring_pos_inj:
  fixes g :: int
  assumes "(g + i) mod n = (g + j) mod n" "0 \<le> i" "i \<le> j" "j < i + n"
  shows "i = j"
proof (rule ccontr)
  assume "i \<noteq> j"
  from assms(1) have "n dvd (g + j) - (g + i)" by (metis mod_eq_dvd_iff)
  with \<open>i \<noteq> j\<close> assms show False by (simp add: zdvd_not_zless)
qed

lemma next_index_in [c_ops]:
  "buf_inv b \<Longrightarrow> 0 \<le> i \<Longrightarrow> i < currentSize b \<Longrightarrow>
   next_index b i = Inr ((i + 1) mod currentSize b)"
  by (simp add: next_index_def buf_inv_def c_int_nonneg c_mod_nonneg)

text \<open>Taking \<open>n\<close> bytes off the front.\<close>

definition pop_front :: "int \<Rightarrow> buffer \<Rightarrow> buffer" where
  "pop_front n b = b\<lparr>bufBegin := (bufBegin b + n) mod currentSize b, bufCount := bufCount b - n\<rparr>"

lemma pop_front_simps [simp]:
  "bufData (pop_front n b) = bufData b" "currentSize (pop_front n b) = currentSize b"
  "maxSize (pop_front n b) = maxSize b" "growFactor (pop_front n b) = growFactor b"
  "bufEnd (pop_front n b) = bufEnd b" "bufCount (pop_front n b) = bufCount b - n"
  "bufBegin (pop_front n b) = (bufBegin b + n) mod currentSize b"
  by (simp_all add: pop_front_def)

lemma pop_front_inv: "buf_inv b \<Longrightarrow> 0 \<le> n \<Longrightarrow> n \<le> bufCount b \<Longrightarrow> buf_inv (pop_front n b)"
  by (auto simp: buf_inv_def mod_simps)

lemma pop_front_contents:
  "0 \<le> n \<Longrightarrow> n \<le> bufCount b \<Longrightarrow> contents (pop_front n b) = drop (nat n) (contents b)"
  by (rule nth_equalityI) (auto simp: contents_nth nat_diff_distrib mod_simps algebra_simps)

lemma pop_front_0: "buf_inv b \<Longrightarrow> pop_front 0 b = b"
  by (simp add: pop_front_def buf_inv_def)

lemma pop_front_pop_front: "pop_front m (pop_front n b) = pop_front (n + m) b"
  by (simp add: pop_front_def mod_simps algebra_simps)

lemma contents_hd:
  "buf_inv b \<Longrightarrow> 0 < bufCount b \<Longrightarrow>
   contents b = bufData b ! nat (bufBegin b) # contents (pop_front 1 b)"
  using Cons_nth_drop_Suc [of 0 "contents b"]
  by (simp add: pop_front_contents contents_nth buf_inv_def)

text \<open>Adding one byte at the end.\<close>

definition push_back :: "char \<Rightarrow> buffer \<Rightarrow> buffer" where
  "push_back c b = b\<lparr>bufData := (bufData b)[nat (bufEnd b) := c],
     bufEnd := (bufEnd b + 1) mod currentSize b, bufCount := bufCount b + 1\<rparr>"

lemma push_back_simps [simp]:
  "currentSize (push_back c b) = currentSize b" "maxSize (push_back c b) = maxSize b"
  "growFactor (push_back c b) = growFactor b" "bufBegin (push_back c b) = bufBegin b"
  "bufCount (push_back c b) = bufCount b + 1"
  by (simp_all add: push_back_def)

lemma push_back_inv: "buf_inv b \<Longrightarrow> bufCount b < currentSize b \<Longrightarrow> buf_inv (push_back c b)"
  by (auto simp: buf_inv_def push_back_def mod_simps algebra_simps)

lemma buf_end_in: "buf_inv b \<Longrightarrow> 0 \<le> bufEnd b \<and> bufEnd b < currentSize b"
  by (auto simp: buf_inv_def)

lemma buf_inv_bounds:
  assumes "buf_inv b"
  shows "0 < currentSize b" "currentSize b \<le> maxSize b" "currentSize b \<le> INT_MAX"
    "int (length (bufData b)) = currentSize b" "0 \<le> bufCount b" "bufCount b \<le> currentSize b"
    "0 \<le> bufBegin b" "bufBegin b < currentSize b" "0 \<le> bufEnd b" "bufEnd b < currentSize b"
  using assms buf_end_in [OF assms] by (auto simp: buf_inv_def)

lemma push_back_contents:
  assumes inv: "buf_inv b" and room: "bufCount b < currentSize b"
  shows "contents (push_back c b) = contents b @ [c]"
proof (rule nth_equalityI)
  show "length (contents (push_back c b)) = length (contents b @ [c])"
    using inv by (simp add: buf_inv_def nat_add_distrib)
next
  fix i assume "i < length (contents (push_back c b))"
  then have i: "int i \<le> bufCount b" using inv by (simp add: buf_inv_def)
  let ?p = "\<lambda>i. (bufBegin b + i) mod currentSize b"
  have p: "0 \<le> ?p k" "?p k < currentSize b" for k using inv by (simp_all add: buf_inv_def)
  have en: "bufEnd b = ?p (bufCount b)" and len: "int (length (bufData b)) = currentSize b"
    and cnt: "0 \<le> bufCount b" using inv by (simp_all add: buf_inv_def)
  have new: "contents (push_back c b) ! i = (bufData b)[nat (bufEnd b) := c] ! nat (?p (int i))"
    using i by (simp add: contents_nth push_back_def)
  show "contents (push_back c b) ! i = (contents b @ [c]) ! i"
  proof (cases "int i = bufCount b")
    case True
    with cnt have "i = nat (bufCount b)" by simp
    moreover have "nat (bufEnd b) < length (bufData b)" using p [of "bufCount b"] en len by simp
    ultimately show ?thesis using True new en by (simp add: nth_append)
  next
    case False
    have "?p (int i) \<noteq> ?p (bufCount b)"
    proof
      assume "?p (int i) = ?p (bufCount b)"
      then have "int i = bufCount b" by (rule ring_pos_inj) (use i room in auto)
      with False show False by simp
    qed
    then have "nat (?p (int i)) \<noteq> nat (bufEnd b)" using p en by (metis nat_0_le)
    moreover have "i < nat (bufCount b)" using False i by simp
    ultimately show ?thesis using new by (simp add: nth_append contents_nth)
  qed
qed

lemma read_loop_step:
  "buf_inv b \<Longrightarrow> 0 < bufCount b \<Longrightarrow> 0 \<le> i \<Longrightarrow> i < int (length dst) \<Longrightarrow>
   read_loop (Suc k) i dst b =
   read_loop k (i + 1) (dst[nat i := bufData b ! nat (bufBegin b)]) (pop_front 1 b)"
  by (simp add: c_ops buf_inv_def [of b] pop_front_def next_index_in)

lemma read_loop_spec:
  "buf_inv b \<Longrightarrow> int k \<le> bufCount b \<Longrightarrow> j + k \<le> length dst \<Longrightarrow>
   read_loop k (int j) dst b =
   Inr (take j dst @ take k (contents b) @ drop (j + k) dst, pop_front (int k) b)"
proof (induction k arbitrary: j dst b)
  case 0
  then show ?case by (simp add: pop_front_0)
next
  case (Suc k)
  let ?c = "bufData b ! nat (bufBegin b)"
  from Suc.prems have cnt: "0 < bufCount b" by simp
  have inv: "buf_inv (pop_front 1 b)" using Suc.prems by (intro pop_front_inv) simp_all
  have "read_loop (Suc k) (int j) dst b = read_loop k (int (Suc j)) (dst[j := ?c]) (pop_front 1 b)"
    using Suc.prems cnt by (subst read_loop_step) (simp_all add: add.commute)
  also have "\<dots> = Inr (take (Suc j) (dst[j := ?c]) @ take k (contents (pop_front 1 b))
      @ drop (Suc j + k) (dst[j := ?c]), pop_front (int k) (pop_front 1 b))"
    using Suc.prems inv by (intro Suc.IH) simp_all
  also have "\<dots> = Inr (take j dst @ take (Suc k) (contents b) @ drop (j + Suc k) dst,
      pop_front (int (Suc k)) b)"
    using Suc.prems cnt
    by (simp add: take_upd_snoc contents_hd [of b] pop_front_pop_front)
  finally show ?case .
qed

lemma write_loop_step:
  "buf_inv b \<Longrightarrow> bufCount b < currentSize b \<Longrightarrow> 0 \<le> i \<Longrightarrow> i < int (length src) \<Longrightarrow>
   write_loop (Suc k) i src b = write_loop k (i + 1) src (push_back (src ! nat i) b)"
  using buf_end_in [of b]
  by (simp add: c_ops buf_inv_def [of b] push_back_def next_index_in)

lemma write_loop_spec:
  "buf_inv b \<Longrightarrow> bufCount b + int k \<le> currentSize b \<Longrightarrow> j + k \<le> length src \<Longrightarrow>
   \<exists>b'. write_loop k (int j) src b = Inr b' \<and> buf_inv b' \<and>
        contents b' = contents b @ take k (drop j src) \<and> bufCount b' = bufCount b + int k \<and>
        currentSize b' = currentSize b \<and> maxSize b' = maxSize b \<and> growFactor b' = growFactor b"
proof (induction k arbitrary: j b)
  case 0
  then show ?case by simp
next
  case (Suc k)
  let ?b = "push_back (src ! j) b"
  have room: "bufCount b < currentSize b" and j: "j < length src" using Suc.prems by simp_all
  have "write_loop (Suc k) (int j) src b = write_loop k (int (Suc j)) src ?b"
    using Suc.prems room by (subst write_loop_step) (simp_all add: add.commute)
  moreover obtain b' where b': "write_loop k (int (Suc j)) src ?b = Inr b'" "buf_inv b'"
    "contents b' = contents ?b @ take k (drop (Suc j) src)" "bufCount b' = bufCount ?b + int k"
    "currentSize b' = currentSize ?b" "maxSize b' = maxSize ?b" "growFactor b' = growFactor ?b"
    using Suc.prems room push_back_inv [of b "src ! j"] Suc.IH [of ?b "Suc j"] by auto
  moreover have "contents b' = contents b @ take (Suc k) (drop j src)"
    using b'(3) Suc.prems room j by (simp add: push_back_contents Cons_nth_drop_Suc [symmetric])
  ultimately show ?case by (simp del: write_loop.simps)
qed

section \<open>What each operation does\<close>

lemma new_chars_nonneg [c_ops]: "0 \<le> n \<Longrightarrow> new_chars n = Inr (replicate (nat n) NUL)"
  by (simp add: new_chars_def)

lemma new_chars0_pos [c_ops]: "1 \<le> n \<Longrightarrow> new_chars0 n = Inr (replicate (nat n) NUL)"
  by (simp add: new_chars0_def)

lemma Buffer_new_spec:
  assumes "0 < n" "n \<le> mx" "mx \<le> INT_MAX"
  shows "\<exists>b. Buffer_new n mx gf = Inr b \<and> buf_inv b \<and> contents b = [] \<and> currentSize b = n \<and>
             maxSize b = mx \<and> growFactor b = gf"
  using assms by (simp add: Buffer_new_def c_ops buf_inv_def contents_empty)

text \<open>\<open>read\<close> into memory of sufficient size moves the front of the contents there.\<close>

lemma buf_read_spec:
  assumes "buf_inv b" "0 \<le> n" "min n (bufCount b) \<le> int (length dst)"
  shows "buf_read dst n b =
    Inr (min n (bufCount b),
         take (nat n) (contents b) @ drop (nat (min n (bufCount b))) dst,
         pop_front (min n (bufCount b)) b)"
proof -
  let ?n = "if n > bufCount b then bufCount b else n"
  have n: "?n = min n (bufCount b)" "0 \<le> ?n" using assms by (auto simp: buf_inv_def)
  have "read_loop (nat ?n) (int 0) dst b =
      Inr (take 0 dst @ take (nat ?n) (contents b) @ drop (0 + nat ?n) dst, pop_front (int (nat ?n)) b)"
    by (rule read_loop_spec) (use assms n in \<open>auto simp: nat_le_iff\<close>)
  then show ?thesis
    using n by (simp add: buf_read_def Let_def min_def del: read_loop.simps)
qed

lemma buf_read_all_spec:
  assumes "buf_inv b" "bufCount b \<le> int (length dst)"
  shows "buf_read_all dst b =
    Inr (bufCount b, contents b @ drop (nat (bufCount b)) dst, pop_front (bufCount b) b)"
  using assms buf_read_spec [of b "bufCount b" dst] by (simp add: buf_read_all_def buf_inv_def)

lemma readAsString_eq:
  assumes "buf_inv b" "bufCount b < INT_MAX"
  shows "readAsString b = Inr (c_str (contents b), pop_front (bufCount b) b)"
proof -
  have "0 \<le> bufCount b" using assms by (simp add: buf_inv_def)
  moreover have "drop (nat (bufCount b)) (replicate (nat (bufCount b + 1)) NUL) = [NUL]"
    using \<open>0 \<le> bufCount b\<close> by (rule drop_replicate_last)
  ultimately show ?thesis using assms
    by (simp add: readAsString_def Let_def c_ops buf_read_all_spec list_update_append)
qed

lemma readAsString_n_eq:
  assumes "buf_inv b" "0 \<le> len" "bufCount b < INT_MAX"
  shows "readAsString_n len b =
    Inr (c_str (take (nat len) (contents b)), pop_front (min len (bufCount b)) b)"
proof -
  let ?n = "min len (bufCount b)"
  have n: "(if len > bufCount b then bufCount b else len) = ?n" "0 \<le> ?n" "?n \<le> bufCount b"
    "min ?n (bufCount b) = ?n" using assms by (auto simp: buf_inv_def)
  have tk: "take (nat ?n) (contents b) = take (nat len) (contents b)"
    using assms by (simp add: min_def buf_inv_def)
  have "length (take (nat len) (contents b)) = nat ?n" using assms by (auto simp: min_def)
  moreover have "drop (nat ?n) (replicate (nat (?n + 1)) NUL) = [NUL]"
    using n(2) by (rule drop_replicate_last)
  ultimately show ?thesis using assms n tk
    by (simp add: readAsString_n_def Let_def c_ops buf_read_spec list_update_append)
qed

text \<open>A negative length is not checked: \<open>-1\<close> writes before the array, less makes \<open>new\<close> throw.\<close>

lemma readAsString_n_negative:
  assumes "buf_inv b" "len < 0" "INT_MIN < len"
  shows "readAsString_n len b = Inl (if len = -1 then Out_Of_Bounds else Bad_Alloc)"
  using assms
  by (auto simp: readAsString_n_def Let_def buf_inv_def c_int_in INT_MAX_def new_chars_def
      buf_read_def wr_def)

lemma skipHead_eq:
  assumes "buf_inv b" "maxSize b \<le> 2 ^ 30" "0 \<le> n" "n \<le> bufCount b"
  shows "skipHead n b = Inr (pop_front n b)"
  using assms by (simp add: skipHead_def c_ops buf_inv_def pop_front_def INT_MAX_def)

lemma skipTail_eq:
  assumes "buf_inv b" "n \<le> bufCount b" "0 \<le> n" "n \<le> bufEnd b"
  shows "\<exists>b'. skipTail n b = Inr b' \<and> buf_inv b' \<and> contents b' = take (nat (bufCount b - n)) (contents b)"
proof -
  let ?b = "b\<lparr>bufCount := bufCount b - n, bufEnd := bufEnd b - n\<rparr>"
  have e: "0 \<le> bufEnd b" "bufEnd b < currentSize b" using buf_end_in assms by blast+
  then have st: "skipTail n b = Inr ?b"
    using assms buf_inv_bounds [of b] by (simp add: skipTail_def c_ops)
  have "bufEnd b - n = (bufEnd b - n) mod currentSize b" using e assms by simp
  also have "\<dots> = (bufBegin b + (bufCount b - n)) mod currentSize b"
    using assms by (simp add: buf_inv_def mod_simps algebra_simps)
  finally have "buf_inv ?b" using assms e by (simp add: buf_inv_def)
  moreover have "contents ?b = take (nat (bufCount b - n)) (contents b)"
    by (rule nth_equalityI) (use assms in \<open>auto simp: contents_nth\<close>)
  ultimately show ?thesis using st by blast
qed

text \<open>When the end has wrapped around, C's remainder leaves \<open>_end\<close> negative.\<close>

lemma skipTail_wrapped:
  assumes "buf_inv b" "n \<le> bufCount b" "bufEnd b < n" "n < bufEnd b + currentSize b"
  shows "skipTail n b = Inr (b\<lparr>bufCount := bufCount b - n, bufEnd := bufEnd b - n\<rparr>)"
proof -
  have e: "0 \<le> bufEnd b" "bufEnd b < currentSize b" using buf_end_in assms by blast+
  have "(bufEnd b - n) smod currentSize b = bufEnd b - n"
    using assms e by (simp add: signed_modulo_int_def)
  then show ?thesis
    using assms buf_inv_bounds [of b]
    by (simp add: skipTail_def c_int_in c_mod_def INT_MAX_def INT_MIN_def)
qed

text \<open>\<open>copy\<close> produces what \<open>read\<close> would, and leaves the buffer alone.\<close>

lemma copy_loop_read_loop:
  "bufData b' = bufData b \<Longrightarrow> currentSize b' = currentSize b \<Longrightarrow>
   read_loop k i dst b' = Inr (d, b'') \<Longrightarrow> copy_loop k i (bufBegin b') dst b = Inr d"
proof (induction k arbitrary: i dst b')
  case 0
  then show ?case by simp
next
  case (Suc k)
  from Suc.prems obtain c dst' bg where
    c: "rd (bufData b) (bufBegin b') = Inr c" "wr dst i c = Inr dst'"
      "next_index b (bufBegin b') = Inr bg"
    and r: "read_loop k (i + 1) dst' (b'\<lparr>bufBegin := bg, bufCount := bufCount b' - 1\<rparr>) = Inr (d, b'')"
    by (auto simp: bind_res_eq_Inr next_index_def)
  from Suc.IH [OF _ _ r] Suc.prems(1,2) have "copy_loop k (i + 1) bg dst' b = Inr d" by simp
  with c show ?case by simp
qed

lemma buf_copy_spec:
  assumes "buf_inv b" "0 \<le> n" "min n (bufCount b) \<le> int (length dst)"
  shows "buf_copy dst n b = Inr (min n (bufCount b),
    take (nat n) (contents b) @ drop (nat (min n (bufCount b))) dst)"
proof -
  from buf_read_spec [OF assms] obtain b' where
    "read_loop (nat (if n > bufCount b then bufCount b else n)) 0 dst b =
       Inr (take (nat n) (contents b) @ drop (nat (min n (bufCount b))) dst, b')"
    by (auto simp: buf_read_def Let_def bind_res_eq_Inr)
  from copy_loop_read_loop [OF refl refl this] show ?thesis
    by (simp add: buf_copy_def Let_def min_def)
qed

text \<open>The buffers the server makes: the default growth factor, at least two bytes, at most a
  gigabyte.\<close>

definition buf_ok :: "buffer \<Rightarrow> bool" where
  "buf_ok b \<longleftrightarrow> buf_inv b \<and> 2 \<le> currentSize b \<and> maxSize b \<le> 2 ^ 30 \<and> growFactor b = float_1_5"

lemma buf_okD [dest]: "buf_ok b \<Longrightarrow> buf_inv b"
  by (simp add: buf_ok_def)

lemma pop_front_ok: "buf_ok b \<Longrightarrow> 0 \<le> n \<Longrightarrow> n \<le> bufCount b \<Longrightarrow> buf_ok (pop_front n b)"
  by (simp add: buf_ok_def pop_front_inv)

lemma grow_size_ok:
  assumes "buf_inv b" "2 \<le> currentSize b" "growFactor b = float_1_5" "capacity \<le> 2 ^ 30"
  shows "\<exists>m. grow_size b capacity = Inr m \<and> min capacity (maxSize b) \<le> m \<and>
             currentSize b \<le> m \<and> m \<le> maxSize b"
proof -
  obtain m where "grow_loop float_1_5 capacity (currentSize b) = Some (Inr m)"
    "capacity \<le> m" "currentSize b \<le> m"
    using grow_loop_terminates assms by blast
  then show ?thesis using assms buf_inv_bounds [of b] by (auto simp: grow_size_def)
qed

lemma contents_linear:
  assumes "bufBegin b = 0" "bufCount b = int (length xs)" "bufCount b \<le> currentSize b"
    "bufData b = xs @ ys"
  shows "contents b = xs"
  by (rule nth_equalityI) (use assms in \<open>auto simp: contents_nth nth_append\<close>)

lemma grow_spec:
  assumes "buf_inv b" "grow_size b capacity = Inr m" "currentSize b \<le> m" "m \<le> maxSize b"
  shows "\<exists>b'. grow capacity b = Inr b' \<and> contents b' = contents b \<and> bufCount b' = bufCount b \<and>
    currentSize b' = m \<and> maxSize b' = maxSize b \<and> growFactor b' = growFactor b \<and>
    (bufCount b < m \<longrightarrow> buf_inv b')"
proof -
  note bds = buf_inv_bounds [OF assms(1)]
  let ?d = "contents b @ drop (nat (bufCount b)) (replicate (nat m) NUL)"
  let ?b = "(pop_front (bufCount b) b)\<lparr>bufCount := bufCount b, bufBegin := 0,
    bufEnd := bufCount b, currentSize := m, bufData := ?d\<rparr>"
  have "grow capacity b = Inr ?b"
    using assms bds buf_read_spec [of b "bufCount b" "replicate (nat m) NUL"]
    by (simp add: grow_def c_ops Let_def)
  moreover have "contents ?b = contents b"
    by (rule contents_linear) (use assms bds in simp_all)
  moreover have "bufCount b < m \<longrightarrow> buf_inv ?b"
    using assms bds by (simp add: buf_inv_def)
  ultimately show ?thesis by fastforce
qed

text \<open>\<open>write\<close> appends to the contents as much as the maximal size leaves room for.\<close>

lemma buf_write_spec:
  assumes ok: "buf_ok b" and n: "0 \<le> n" "n \<le> int (length src)" "bufCount b + n \<le> 2 ^ 30"
  shows "\<exists>b'. buf_write src n b = Inr (min n (getMaxSpace b), b') \<and> buf_ok b' \<and>
    contents b' = contents b @ take (nat (min n (getMaxSpace b))) src \<and>
    bufCount b' = bufCount b + min n (getMaxSpace b) \<and> maxSize b' = maxSize b"
proof -
  note inv = buf_okD [OF ok]
  note bds = buf_inv_bounds [OF inv]
  let ?need = "currentSize b < bufCount b + n"
  let ?n = "min n (getMaxSpace b)"
  obtain b1 where b1: "(if ?need \<and> canGrow b then bind_res (c_int (bufCount b + n)) (\<lambda>c. grow c b)
      else Inr b) = Inr b1" "buf_inv b1" "contents b1 = contents b" "bufCount b1 = bufCount b"
    "maxSize b1 = maxSize b" "growFactor b1 = growFactor b" "currentSize b \<le> currentSize b1"
    "min (bufCount b + n) (maxSize b) \<le> currentSize b1"
  proof (cases "?need \<and> canGrow b")
    case True
    then obtain m where m: "grow_size b (bufCount b + n) = Inr m" "min (bufCount b + n) (maxSize b) \<le> m"
      "currentSize b \<le> m" "m \<le> maxSize b"
      using grow_size_ok [of b "bufCount b + n"] ok n by (auto simp: buf_ok_def)
    have "bufCount b < m" using True m bds by (auto simp: canGrow_def min_def split: if_splits)
    with True grow_spec [OF inv m(1,3,4)] that m n bds show ?thesis
      by (auto simp: c_int_nonneg INT_MAX_def)
  next
    case False
    then show ?thesis using that [of b] inv bds n by (auto simp: canGrow_def)
  qed
  have room: "(if n > getSpace b1 then getSpace b1 else n) = ?n"
    using b1 buf_inv_bounds [OF b1(2)] by (auto simp: getSpace_def getMaxSpace_def)
  have "0 \<le> ?n" using n bds by (simp add: getMaxSpace_def)
  moreover have "?n \<le> currentSize b1 - bufCount b1"
    using room by (auto simp: getSpace_def split: if_splits)
  moreover have "nat ?n \<le> length src" using n by (simp add: nat_le_iff min_le_iff_disj)
  ultimately obtain b' where b': "write_loop (nat ?n) (int 0) src b1 = Inr b'" "buf_inv b'"
    "contents b' = contents b1 @ take (nat ?n) (drop 0 src)" "bufCount b' = bufCount b1 + ?n"
    "currentSize b' = currentSize b1" "maxSize b' = maxSize b1" "growFactor b' = growFactor b1"
    using write_loop_spec [OF b1(2), of "nat ?n" 0 src] by auto
  have "needGrow n b = Inr ?need"
    using n bds by (simp add: needGrow_def c_int_nonneg INT_MAX_def)
  with b1(1) room b'(1) have "buf_write src n b = Inr (?n, b')"
    by (simp add: buf_write_def Let_def)
  then show ?thesis using b' b1 ok by (auto simp: buf_ok_def)
qed

lemma buf_write_string_spec:
  assumes ok: "buf_ok b" and n: "bufCount b + int (length s) \<le> 2 ^ 30"
  shows "\<exists>b'. buf_write_string s b = Inr (min (int (length s)) (getMaxSpace b), b') \<and> buf_ok b' \<and>
    contents b' = contents b @ take (nat (getMaxSpace b)) s \<and>
    bufCount b' = bufCount b + min (int (length s)) (getMaxSpace b) \<and> maxSize b' = maxSize b"
proof -
  have "0 \<le> bufCount b" using buf_inv_bounds ok by blast
  then have "int_of_size (length s) = int (length s)"
    using n by (intro int_of_size_small) (simp add: INT_MAX_def)
  moreover have "take (nat (min (int (length s)) m)) (s @ [NUL]) = take (nat m) s" for m
    by (cases "int (length s) \<le> m") (simp_all add: min_def)
  ultimately show ?thesis
    using buf_write_spec [OF ok, of "int (length s)" "s @ [NUL]"] n by (simp add: buf_write_string_def)
qed

text \<open>A buffer of size 0 or 1 can never grow: the loop in \<open>grow\<close> does not end.\<close>

lemma buf_write_hangs:
  assumes "0 \<le> currentSize b" "currentSize b \<le> 1" "growFactor b = float_1_5" "currentSize b < maxSize b"
    and "currentSize b < bufCount b + n" "bufCount b + n \<le> INT_MAX"
  shows "buf_write src n b = Inl Nonterminating"
  using assms grow_loop_stuck [of "currentSize b" "bufCount b + n"]
  by (simp add: buf_write_def needGrow_def c_int_nonneg canGrow_def grow_def grow_size_def)

lemma peekChar_eq:
  assumes "buf_inv b" "maxSize b \<le> 2 ^ 30" "i < nat (bufCount b)"
  shows "peekChar (int i) b = Inr (contents b ! i)"
  using assms buf_inv_bounds [OF assms(1)]
  by (simp add: peekChar_def c_ops contents_nth INT_MAX_def)

text \<open>The peek loop over the abstract contents.\<close>

fun peek_str :: "int \<Rightarrow> int \<Rightarrow> char option \<Rightarrow> string \<Rightarrow> (int \<times> int \<times> char option) res" where
  "peek_str offset r cc [] = Inr (r, offset, cc)"
| "peek_str offset r cc (c # cs) =
     (if isdigit c
      then bind_res (c_int (r * 10)) (\<lambda>m.
           bind_res (c_int (m + digit_val c)) (\<lambda>r'. peek_str (offset + 1) r' (Some c) cs))
      else Inr (r, offset, Some c))"

lemma peek_loop_peek_str:
  assumes "buf_inv b" "maxSize b \<le> 2 ^ 30" "j + k = nat (bufCount b)"
  shows "peek_loop k (int j) r cc b = peek_str (int j) r cc (drop j (contents b))"
  using assms(3)
proof (induction k arbitrary: j r cc)
  case 0
  then show ?case by simp
next
  case (Suc k)
  then have j: "j < nat (bufCount b)" and "Suc j + k = nat (bufCount b)" by simp_all
  from Suc.IH [OF this(2)] have IH:
    "peek_loop k (int j + 1) r cc b = peek_str (int j + 1) r cc (drop (Suc j) (contents b))" for r cc
    by (simp add: add.commute)
  have "drop j (contents b) = contents b ! j # drop (Suc j) (contents b)"
    using j by (simp add: Cons_nth_drop_Suc)
  then show ?case
    using peekChar_eq [OF assms(1,2) j] by (simp add: IH)
qed

lemma peek_str_digits:
  assumes "\<forall>c \<in> set ds. isdigit c" "0 \<le> r" "dec_val r ds \<le> INT_MAX"
  shows "peek_str offset r cc (ds @ cs) =
    peek_str (offset + int (length ds)) (dec_val r ds) (if ds = [] then cc else Some (last ds)) cs"
  using assms
proof (induction ds arbitrary: offset r cc)
  case Nil
  then show ?case by simp
next
  case (Cons d ds)
  let ?r = "r * 10 + digit_val d"
  have d: "0 \<le> digit_val d" using Cons.prems by (simp add: digit_val_range)
  then have "?r \<le> dec_val ?r ds" using Cons.prems by (intro dec_val_ge) simp_all
  with Cons.prems have "?r \<le> INT_MAX" by simp
  with d Cons.prems Cons.IH [of ?r "offset + 1" "Some d"] show ?case
    by (simp add: c_int_nonneg add.assoc)
qed

lemma peek_str_overflow:
  assumes "\<forall>c \<in> set ds. isdigit c" "0 \<le> r" "r \<le> INT_MAX" "INT_MAX < dec_val r ds"
  shows "peek_str offset r cc (ds @ cs) = Inl Signed_Overflow"
  using assms
proof (induction ds arbitrary: offset r cc)
  case Nil
  then show ?case by simp
next
  case (Cons d ds)
  have d: "0 \<le> digit_val d" using Cons.prems by (simp add: digit_val_range)
  show ?case
  proof (cases "r * 10 + digit_val d \<le> INT_MAX")
    case True
    with d Cons.prems Cons.IH [of "r * 10 + digit_val d" "offset + 1" "Some d"] show ?thesis
      by (simp add: c_int_nonneg)
  next
    case False
    with d Cons.prems show ?thesis
      by (cases "r * 10 \<le> INT_MAX") (simp_all add: c_int_nonneg c_int_over)
  qed
qed

text \<open>What \<open>peekIntWithLength\<close> finds at the front: a digit string, then what ends it.\<close>

lemma peekIntWithLength_peek_str:
  assumes "buf_inv b" "maxSize b \<le> 2 ^ 30"
  shows "peekIntWithLength delim b =
    bind_res (peek_str 0 0 None (contents b)) (\<lambda>(r, len, cc).
      case cc of None \<Rightarrow> Inl Uninitialised_Read | Some c \<Rightarrow> Inr (if c \<noteq> delim then 0 else 1, r, len))"
  using peek_loop_peek_str [OF assms, of 0 "nat (bufCount b)"]
  by (simp add: peekIntWithLength_def)

lemma peekIntWithLength_header:
  assumes "buf_inv b" "maxSize b \<le> 2 ^ 30" "contents b = ds @ c # cs" "\<forall>d \<in> set ds. isdigit d"
    "dec_val 0 ds \<le> INT_MAX" "\<not> isdigit c"
  shows "peekIntWithLength delim b =
    Inr (if c \<noteq> delim then 0 else 1, dec_val 0 ds, int (length ds))"
  using assms by (simp add: peekIntWithLength_peek_str peek_str_digits)

lemma peekIntWithLength_no_delimiter:
  assumes "buf_inv b" "maxSize b \<le> 2 ^ 30" "contents b \<noteq> []" "\<forall>d \<in> set (contents b). isdigit d"
    "dec_val 0 (contents b) \<le> INT_MAX" "\<not> isdigit delim"
  shows "peekIntWithLength delim b = Inr (0, dec_val 0 (contents b), int (length (contents b)))"
proof -
  have "isdigit (last (contents b))" using assms by simp
  with assms(6) have "last (contents b) \<noteq> delim" by blast
  then show ?thesis
    using assms peek_str_digits [of "contents b" 0 0 None "[]"]
    by (simp add: peekIntWithLength_peek_str)
qed

lemma peekIntWithLength_empty:
  assumes "buf_inv b" "maxSize b \<le> 2 ^ 30" "contents b = []"
  shows "peekIntWithLength delim b = Inl Uninitialised_Read"
  using assms by (simp add: peekIntWithLength_peek_str)

lemma peekIntWithLength_overflow:
  assumes "buf_inv b" "maxSize b \<le> 2 ^ 30" "contents b = ds @ cs" "\<forall>d \<in> set ds. isdigit d"
    "INT_MAX < dec_val 0 ds"
  shows "peekIntWithLength delim b = Inl Signed_Overflow"
  using assms by (simp add: peekIntWithLength_peek_str peek_str_overflow INT_MAX_def)

section \<open>The buffer as a bounded queue of bytes\<close>

text \<open>
  What a connection relies on. \<open>put\<close> appends as much of a string as fits and says how much that
  was; \<open>skip\<close> drops bytes from the front; \<open>peek\<close> copies the front without consuming it; \<open>get\<close>
  takes everything, up to the first NUL.
\<close>

locale byte_queue =
  fixes ok :: "'q \<Rightarrow> bool" and bytes :: "'q \<Rightarrow> string" and cap :: "'q \<Rightarrow> nat"
    and put :: "string \<Rightarrow> 'q \<Rightarrow> (int \<times> 'q) res" and skip :: "int \<Rightarrow> 'q \<Rightarrow> 'q res"
    and peek :: "string \<Rightarrow> int \<Rightarrow> 'q \<Rightarrow> (int \<times> string) res"
    and get :: "'q \<Rightarrow> (string \<times> 'q) res"
  assumes within_cap: "ok q \<Longrightarrow> length (bytes q) \<le> cap q"
    and put_law: "ok q \<Longrightarrow> length (bytes q) + length s \<le> 2 ^ 30 \<Longrightarrow>
      \<exists>q'. put s q = Inr (int (min (length s) (cap q - length (bytes q))), q') \<and> ok q' \<and>
           cap q' = cap q \<and> bytes q' = bytes q @ take (cap q - length (bytes q)) s"
    and skip_law: "ok q \<Longrightarrow> n \<le> length (bytes q) \<Longrightarrow>
      \<exists>q'. skip (int n) q = Inr q' \<and> ok q' \<and> cap q' = cap q \<and> bytes q' = drop n (bytes q)"
    and peek_law: "ok q \<Longrightarrow> length dst = length (bytes q) \<Longrightarrow>
      peek dst (int (length dst)) q = Inr (int (length dst), bytes q)"
    and get_law: "ok q \<Longrightarrow>
      \<exists>q'. get q = Inr (c_str (bytes q), q') \<and> ok q' \<and> cap q' = cap q \<and> bytes q' = []"
begin

lemma put_all:
  assumes "ok q" "length (bytes q) + length s \<le> cap q" "length (bytes q) + length s \<le> 2 ^ 30"
  shows "\<exists>q'. put s q = Inr (int (length s), q') \<and> ok q' \<and> cap q' = cap q \<and> bytes q' = bytes q @ s"
  using put_law [OF assms(1,3)] assms(2) by (simp add: min_absorb1)

text \<open>First in, first out: what is put behind and then skipped from the front comes out in order.\<close>

lemma put_skip_fifo:
  assumes "ok q" "length (bytes q) + length s \<le> cap q" "length (bytes q) + length s \<le> 2 ^ 30"
    "n \<le> length (bytes q) + length s"
  shows "\<exists>q1 q2. put s q = Inr (int (length s), q1) \<and> skip (int n) q1 = Inr q2 \<and> ok q2 \<and>
    take n (bytes q1) @ bytes q2 = bytes q @ s"
proof -
  obtain q1 where q1: "put s q = Inr (int (length s), q1)" "ok q1" "bytes q1 = bytes q @ s"
    using put_all assms(1-3) by blast
  with skip_law [of q1 n] assms(4) obtain q2 where
    "skip (int n) q1 = Inr q2" "ok q2" "bytes q2 = drop n (bytes q1)" by auto
  with q1 show ?thesis by (metis append_take_drop_id)
qed

end

interpretation bq: byte_queue buf_ok contents "\<lambda>b. nat (maxSize b)" buf_write_string skipHead
    buf_copy readAsString
proof
  fix q assume "buf_ok q"
  then show "length (contents q) \<le> nat (maxSize q)"
    using buf_inv_bounds [of q] by (auto simp: buf_ok_def)
next
  fix q and s :: string assume q: "buf_ok q" and n: "length (contents q) + length s \<le> 2 ^ 30"
  note bds = buf_inv_bounds [OF buf_okD [OF q]]
  have n': "bufCount q + int (length s) \<le> 2 ^ 30" using n bds by simp
  have g: "0 \<le> getMaxSpace q" using bds by (simp add: getMaxSpace_def)
  have m: "nat (getMaxSpace q) = nat (maxSize q) - length (contents q)"
    using bds by (simp add: getMaxSpace_def nat_diff_distrib)
  moreover have "min (int (length s)) (getMaxSpace q)
      = int (min (length s) (nat (maxSize q) - length (contents q)))"
    unfolding m [symmetric] using g by (simp add: of_nat_min)
  ultimately show "\<exists>q'. buf_write_string s q =
      Inr (int (min (length s) (nat (maxSize q) - length (contents q))), q') \<and> buf_ok q' \<and>
      nat (maxSize q') = nat (maxSize q) \<and>
      contents q' = contents q @ take (nat (maxSize q) - length (contents q)) s"
    using buf_write_string_spec [OF q n'] by auto
next
  fix q n assume q: "buf_ok q" and n: "n \<le> length (contents q)"
  then have n': "int n \<le> bufCount q" using buf_inv_bounds [OF buf_okD [OF q]] by simp
  have "skipHead (int n) q = Inr (pop_front (int n) q)"
    using q n' by (intro skipHead_eq) (auto simp: buf_ok_def)
  then show "\<exists>q'. skipHead (int n) q = Inr q' \<and> buf_ok q' \<and> nat (maxSize q') = nat (maxSize q) \<and>
      contents q' = drop n (contents q)"
    using n' pop_front_ok [OF q, of "int n"] by (simp add: pop_front_contents)
next
  fix q and dst :: string assume q: "buf_ok q" and n: "length dst = length (contents q)"
  then have "int (length dst) = bufCount q" using buf_inv_bounds [OF buf_okD [OF q]] by simp
  then show "buf_copy dst (int (length dst)) q = Inr (int (length dst), contents q)"
    using buf_copy_spec [OF buf_okD [OF q], of "bufCount q" dst] n
      buf_inv_bounds [OF buf_okD [OF q]] by simp
next
  fix q assume q: "buf_ok q"
  note bds = buf_inv_bounds [OF buf_okD [OF q]]
  have "bufCount q < INT_MAX" using q bds by (simp add: buf_ok_def INT_MAX_def)
  then show "\<exists>q'. readAsString q = Inr (c_str (contents q), q') \<and> buf_ok q' \<and>
      nat (maxSize q') = nat (maxSize q) \<and> contents q' = []"
    using q bds readAsString_eq [OF buf_okD [OF q]] pop_front_ok [OF q, of "bufCount q"]
    by (simp add: contents_empty)
qed

section \<open>Runs of operations\<close>

text \<open>The calls a connection makes on its buffers, as a script, and the same script on the
  abstract queue: a list of bytes with a capacity.\<close>

datatype buf_op =
    CallWrite string          \<comment> \<open>\<open>write(const std::string &)\<close>\<close>
  | CallSkipHead nat          \<comment> \<open>\<open>skipHead\<close>\<close>
  | CallReadAsString          \<comment> \<open>\<open>readAsString()\<close>\<close>
  | CallReadAsStringN nat     \<comment> \<open>\<open>readAsString(int)\<close>\<close>
  | CallClear                 \<comment> \<open>\<open>clear\<close>\<close>

fun buf_call :: "buf_op \<Rightarrow> buffer \<Rightarrow> (string \<times> buffer) res" where
  "buf_call (CallWrite s) b = bind_res (buf_write_string s b) (\<lambda>(_, b'). Inr ([], b'))"
| "buf_call (CallSkipHead n) b = bind_res (skipHead (int n) b) (\<lambda>b'. Inr ([], b'))"
| "buf_call CallReadAsString b = readAsString b"
| "buf_call (CallReadAsStringN n) b = readAsString_n (int n) b"
| "buf_call CallClear b = Inr ([], buf_clear b)"

fun buf_run :: "buf_op list \<Rightarrow> buffer \<Rightarrow> (string list \<times> buffer) res" where
  "buf_run [] b = Inr ([], b)"
| "buf_run (c # cs) b = bind_res (buf_call c b) (\<lambda>(out, b1).
     bind_res (buf_run cs b1) (\<lambda>(outs, b2). Inr (out # outs, b2)))"

fun queue_call :: "nat \<Rightarrow> buf_op \<Rightarrow> string \<Rightarrow> (string \<times> string) res" where
  "queue_call m (CallWrite s) q = Inr ([], q @ take (m - length q) s)"
| "queue_call m (CallSkipHead n) q =
     (if n \<le> length q then Inr ([], drop n q) else Inl Assert_Failed)"
| "queue_call m CallReadAsString q = Inr (c_str q, [])"
| "queue_call m (CallReadAsStringN n) q = Inr (c_str (take n q), drop n q)"
| "queue_call m CallClear q = Inr ([], [])"

fun queue_run :: "nat \<Rightarrow> buf_op list \<Rightarrow> string \<Rightarrow> (string list \<times> string) res" where
  "queue_run m [] q = Inr ([], q)"
| "queue_run m (c # cs) q = bind_res (queue_call m c q) (\<lambda>(out, q1).
     bind_res (queue_run m cs q1) (\<lambda>(outs, q2). Inr (out # outs, q2)))"

fun call_len :: "buf_op \<Rightarrow> nat" where
  "call_len (CallWrite s) = length s"
| "call_len _ = 0"

text \<open>The concrete result refines the abstract one: the same strings are returned, or the same
  assertion fails, and the final buffer represents the final queue.\<close>

definition refines :: "nat \<Rightarrow> ('o \<times> buffer) res \<Rightarrow> ('o \<times> string) res \<Rightarrow> bool" where
  "refines m x y \<longleftrightarrow> (case (x, y) of
       (Inl e, Inl e') \<Rightarrow> e = e'
     | (Inr (out, b), Inr (out', q)) \<Rightarrow>
         out = out' \<and> contents b = q \<and> buf_ok b \<and> nat (maxSize b) = m
     | _ \<Rightarrow> False)"

lemma refines_InrI:
  "x = Inr (out, b) \<Longrightarrow> contents b = q \<Longrightarrow> buf_ok b \<Longrightarrow> nat (maxSize b) = m \<Longrightarrow>
   refines m x (Inr (out, q))"
  by (simp add: refines_def)

lemma refinesE:
  assumes "refines m x y"
  obtains e where "x = Inl e" "y = Inl e"
  | out b where "x = Inr (out, b)" "y = Inr (out, contents b)" "buf_ok b" "nat (maxSize b) = m"
  using assms by (cases x; cases y) (auto simp: refines_def)

lemma skipHead_too_much:
  "buf_inv b \<Longrightarrow> length (contents b) < n \<Longrightarrow> skipHead (int n) b = Inl Assert_Failed"
  using buf_inv_bounds(5) [of b] by (auto simp: skipHead_def)

lemma buf_clear_spec: "buf_ok b \<Longrightarrow> buf_ok (buf_clear b) \<and> contents (buf_clear b) = []"
  by (auto simp: buf_ok_def buf_inv_def buf_clear_def contents_empty)

lemma buf_call_refines:
  assumes b: "buf_ok b" "maxSize b \<le> 2 ^ 29" and c: "call_len c \<le> 2 ^ 29"
  shows "refines (nat (maxSize b)) (buf_call c b) (queue_call (nat (maxSize b)) c (contents b))"
proof (cases c)
  case (CallWrite s)
  have "length (contents b) + length s \<le> 2 ^ 30"
    using bq.within_cap [OF b(1)] b(2) c CallWrite by simp
  from bq.put_law [OF b(1) this] CallWrite show ?thesis
    by (auto intro: refines_InrI)
next
  case (CallSkipHead n)
  show ?thesis
  proof (cases "n \<le> length (contents b)")
    case True
    from bq.skip_law [OF b(1) this] CallSkipHead True show ?thesis
      by (auto intro!: refines_InrI)
  next
    case False
    with skipHead_too_much [of b n] b(1) CallSkipHead show ?thesis
      by (auto simp: refines_def)
  qed
next
  case CallReadAsString
  from bq.get_law [OF b(1)] CallReadAsString show ?thesis
    by (auto intro: refines_InrI)
next
  case (CallReadAsStringN n)
  note bds = buf_inv_bounds [OF buf_okD [OF b(1)]]
  let ?m = "min (int n) (bufCount b)"
  have "readAsString_n (int n) b = Inr (c_str (take n (contents b)), pop_front ?m b)"
    using readAsString_n_eq [of b "int n"] b bds by (auto simp: buf_ok_def INT_MAX_def)
  moreover have "contents (pop_front ?m b) = drop n (contents b)"
    using bds by (subst pop_front_contents) (auto simp: min_def)
  ultimately show ?thesis
    using CallReadAsStringN b bds by (auto intro!: refines_InrI pop_front_ok)
next
  case CallClear
  then show ?thesis using buf_clear_spec [OF b(1)]
    by (auto intro!: refines_InrI simp: buf_clear_def)
qed

lemma buf_run_refines_queue_run:
  assumes "buf_ok b" "maxSize b \<le> 2 ^ 29" "\<forall>c \<in> set cs. call_len c \<le> 2 ^ 29"
  shows "refines (nat (maxSize b)) (buf_run cs b) (queue_run (nat (maxSize b)) cs (contents b))"
  using assms
proof (induction cs arbitrary: b)
  case Nil
  then show ?case by (simp add: refines_def)
next
  case (Cons c cs)
  have "refines (nat (maxSize b)) (buf_call c b) (queue_call (nat (maxSize b)) c (contents b))"
    using Cons.prems by (intro buf_call_refines) simp_all
  then show ?case
  proof (cases rule: refinesE)
    case (1 e)
    then show ?thesis by (simp add: refines_def)
  next
    case (2 out b1)
    have "0 < maxSize b1" "0 < maxSize b"
      using 2(3) Cons.prems(1) by (auto simp: buf_ok_def dest: buf_inv_bounds(1,2))
    with 2(4) have "maxSize b1 = maxSize b" by simp
    with 2 Cons.IH [of b1] Cons.prems have
      "refines (nat (maxSize b)) (buf_run cs b1) (queue_run (nat (maxSize b)) cs (contents b1))"
      by simp
    then show ?thesis using 2 by (cases rule: refinesE) (auto simp: refines_def)
  qed
qed

section \<open>Properties\<close>

text \<open>A buffer to evaluate the properties on: eight bytes, room to grow to 64, wrapped around.\<close>

definition sample_buffer :: buffer where
  "sample_buffer = \<lparr>bufData = ''cdEFGHab'', currentSize = 8, maxSize = 64, bufBegin = 6, bufEnd = 2,
     bufCount = 4, growFactor = float_1_5\<rparr>"

lemma sample_buffer_ok: "buf_ok sample_buffer"
  by (simp add: buf_ok_def buf_inv_def sample_buffer_def INT_MAX_def)

lemma sample_buffer_contents: "contents sample_buffer = ''abcd''"
  by (simp add: contents_def sample_buffer_def upt_rec)

lemma sample_buffer_fields [simp]:
  "bufCount sample_buffer = 4" "maxSize sample_buffer = 64" "currentSize sample_buffer = 8"
  "bufEnd sample_buffer = 2"
  by (simp_all add: sample_buffer_def)

text \<open>C13: Any script of writes, skips, reads and clears on a buffer of the server does what the same
  script does on a plain queue of bytes with capacity \<open>_maxSize\<close>: it returns the same strings, stops
  at the same failed assertion, and leaves a buffer whose contents are the final queue. In
  particular no step accesses memory outside the array, overflows, or fails to return, however often
  the buffer wraps around or grows.\<close>

theorem buffer_script_refines_queue:
  assumes "buf_ok b" "maxSize b \<le> 2 ^ 29" "\<forall>c \<in> set cs. call_len c \<le> 2 ^ 29"
  shows "refines (nat (maxSize b)) (buf_run cs b) (queue_run (nat (maxSize b)) cs (contents b))"
  using assms by (rule buf_run_refines_queue_run)

theorem buffer_script_refines_queue_witness:
  "refines 64 (buf_run [CallWrite ''xyz12'', CallSkipHead 2, CallReadAsStringN 3] sample_buffer)
     (Inr ([[], [], ''cdx''], ''yz12''))"
  using buffer_script_refines_queue [of sample_buffer
      "[CallWrite ''xyz12'', CallSkipHead 2, CallReadAsStringN 3]"] sample_buffer_ok
  by (simp add: sample_buffer_contents c_str_def)

text \<open>C31: \<open>write\<close> appends the longest prefix of the string that \<open>_maxSize\<close> leaves room for and
  returns its length; the growth loop ends, the data already in the ring is kept in order when the
  array is replaced, and nothing is written outside it.\<close>

theorem write_appends_what_fits:
  assumes "buf_ok b" "bufCount b + int (length s) \<le> 2 ^ 30"
  shows "\<exists>b'. buf_write_string s b = Inr (min (int (length s)) (getMaxSpace b), b') \<and> buf_ok b' \<and>
    contents b' = contents b @ take (nat (getMaxSpace b)) s \<and> maxSize b' = maxSize b"
  using buf_write_string_spec [OF assms] by blast

theorem write_appends_what_fits_witness:
  "\<exists>b'. buf_write_string ''efghijkl'' sample_buffer = Inr (8, b') \<and> contents b' = ''abcdefghijkl''"
  using write_appends_what_fits [OF sample_buffer_ok, of "''efghijkl''"]
  by (auto simp: sample_buffer_contents getMaxSpace_def)

text \<open>A buffer of size 0 cannot be made: \<open>new char[0]{0}\<close> throws. A buffer whose array has 1 byte can never grow:
  \<open>newSize *= 1.5\<close> does not change the size, so the first write that needs more room never returns.\<close>

lemma tiny_buffer_write_never_returns:
  assumes "n \<le> 1" "n < mx" "mx \<le> INT_MAX" "1 < int (length s)" "int (length s) \<le> INT_MAX"
  shows "Buffer_new n mx float_1_5 = Inl Bad_Alloc \<and> n < 1 \<or>
    (\<exists>b. Buffer_new n mx float_1_5 = Inr b \<and> buf_write_string s b = Inl Nonterminating)"
proof (cases "n < 1")
  case True
  then show ?thesis using assms(2) by (simp add: Buffer_new_def new_chars0_def)
next
  case False
  then have n: "n = 1" using assms(1) by simp
  then obtain b where b: "Buffer_new n mx float_1_5 = Inr b" using assms(2) by (simp add: Buffer_new_def new_chars0_def)
  then have f: "currentSize b = 1" "maxSize b = mx" "bufCount b = 0" "growFactor b = float_1_5"
    using n by (auto simp: Buffer_new_def new_chars0_def split: if_splits)
  then have "buf_write (s @ [NUL]) (int (length s)) b = Inl Nonterminating"
    using assms n by (intro buf_write_hangs) simp_all
  with b assms(5) show ?thesis by (auto simp: buf_write_string_def int_of_size_small)
qed

theorem tiny_buffer_write_never_returns_witness:
  "\<exists>b. Buffer_new 1 10 float_1_5 = Inr b \<and> buf_write_string ''hi'' b = Inl Nonterminating"
  using tiny_buffer_write_never_returns [of 1 10 "''hi''"] by (simp add: INT_MAX_def)

text \<open>\<open>skipTail\<close> of more bytes than lie between the start of the array and \<open>_end\<close> (the ring has
  wrapped around) leaves \<open>_end\<close> negative, because the remainder of C truncates towards zero; the
  next byte put into the buffer is written in front of the array.\<close>

lemma skipTail_wrapped_corrupts:
  assumes "buf_ok b" "bufEnd b < n" "n \<le> bufCount b" "n < bufEnd b + currentSize b"
  shows "\<exists>b'. skipTail n b = Inr b' \<and> bufEnd b' < 0 \<and> putChar c b' = Inl Out_Of_Bounds"
  using skipTail_wrapped [OF buf_okD, OF assms(1,3,2,4)] assms(2) by (simp add: putChar_def wr_def)

theorem skipTail_wrapped_corrupts_witness:
  "\<exists>b'. skipTail 3 sample_buffer = Inr b' \<and> bufEnd b' < 0 \<and> putChar CHR ''x'' b' = Inl Out_Of_Bounds"
  by (rule skipTail_wrapped_corrupts) (simp_all add: sample_buffer_ok)

text \<open>\<open>peekIntWithLength\<close> reads the decimal number at the front of the buffer without consuming
  it: for a digit string whose value fits an \<open>int\<close>, followed by another character, it stores the
  value and the number of digits, and returns 1 exactly if that character is the delimiter. On a
  digit string whose value does not fit, the accumulation overflows.\<close>

lemma peekInt_reads_header:
  assumes "buf_ok b" "contents b = ds @ c # rest" "\<forall>d \<in> set ds. isdigit d" "\<not> isdigit c"
  shows "peekIntWithLength delim b =
    (if dec_val 0 ds \<le> INT_MAX
     then Inr (if c \<noteq> delim then 0 else 1, dec_val 0 ds, int (length ds))
     else Inl Signed_Overflow)"
  using assms
  by (auto simp: buf_ok_def peekIntWithLength_header peekIntWithLength_overflow [of b ds "c # rest"])

theorem peekInt_reads_header_witness:
  "peekIntWithLength CHR '' '' \<lparr>bufData = '' hi12'', currentSize = 5, maxSize = 5, bufBegin = 3,
     bufEnd = 3, bufCount = 5, growFactor = float_1_5\<rparr> = Inr (1, 12, 2)"
  by (subst peekInt_reads_header [where ds = "''12''" and c = "CHR '' ''" and rest = "''hi''"])
    (simp_all add: buf_ok_def buf_inv_def INT_MAX_def contents_def upt_rec isdigit_def digit_val_def)

end
