(* ===== verification/Hash_Table.thy ===== *)
theory Hash_Table
  imports Prelude "HOL-Library.Multiset"
begin

unbundle bit_operations_syntax

text \<open>
  The incrementally rehashed chained hash table of \<open>src/hash.h\<close>: \<open>dictEntry\<close>, \<open>dictht\<close>, \<open>dict\<close>
  and class \<open>HashTable\<close>. The fields of \<open>dictht\<close> are \<open>unsigned long\<close>, so 64-bit words, and
  \<open>rehashidx\<close> is a \<open>long\<close>; a bucket index is an \<open>unsigned int\<close>, a 32-bit word.

  A chain of entries is the datatype \<open>dictEntry\<close>, following the pointer \<open>next\<close>: \<open>Nullptr\<close> ends a
  chain, \<open>Dangling\<close> is a \<open>next\<close> whose target has been deleted. A pointer to an entry is its place
  \<open>Loc table bucket position\<close>. The template parameters are parameters here: \<open>hf\<close> is
  \<open>HashFunction\<close> (\<open>std::hash\<close>), the key comparison is equality (\<open>std::equal_to\<close>),
  \<open>maxLoadFactor\<close> is its default 5, and \<open>dflt\<close> is the value a new entry is created with.
\<close>

section \<open>Data\<close>

datatype ('k, 'v) dictEntry = Nullptr | Dangling | Entry 'k 'v "('k, 'v) dictEntry"

record ('k, 'v) dictht =
  ht_table :: "('k, 'v) dictEntry list option"
  ht_size :: "64 word"
  ht_sizemask :: "64 word"
  ht_used :: "64 word"

record ('k, 'v) dict =
  ht0 :: "('k, 'v) dictht"
  ht1 :: "('k, 'v) dictht"
  rehashidx :: int
  iterators :: "64 word"

datatype entry_loc = Loc (loc_table: nat) (loc_bucket: int) (loc_pos: nat)

definition DICT_OK :: int where "DICT_OK = 0"
definition DICT_ERR :: int where "DICT_ERR = 1"
definition HASHTABLE_INIT_SIZE :: "64 word" where "HASHTABLE_INIT_SIZE = 4"
definition maxLoadFactor :: "64 word" where "maxLoadFactor = 5"
definition LONG_MAX :: "64 word" where "LONG_MAX = 9223372036854775807"

text \<open>\<open>dictht()\<close>, and \<open>dictht::clear\<close>, which leaves the same state.\<close>

definition dictht_empty :: "('k, 'v) dictht" where
  "dictht_empty = \<lparr>ht_table = None, ht_size = 0, ht_sizemask = 0, ht_used = 0\<rparr>"

definition dictht_clear :: "('k, 'v) dictht \<Rightarrow> ('k, 'v) dictht" where
  "dictht_clear h = h\<lparr>ht_table := None, ht_size := 0, ht_sizemask := 0, ht_used := 0\<rparr>"

definition dict_new :: "('k, 'v) dict" where
  "dict_new = \<lparr>ht0 = dictht_empty, ht1 = dictht_empty, rehashidx = -1, iterators = 0\<rparr>"

definition dict_clear :: "('k, 'v) dict \<Rightarrow> ('k, 'v) dict" where
  "dict_clear d = d\<lparr>ht0 := dictht_clear (ht0 d), ht1 := dictht_clear (ht1 d),
     rehashidx := -1, iterators := 0\<rparr>"

text \<open>\<open>HashTable::clear\<close>, also what its destructor does to the entries.\<close>

definition HashTable_clear :: "('k, 'v) dict \<Rightarrow> ('k, 'v) dict" where
  "HashTable_clear d = dict_clear d"

text \<open>\<open>_d->ht[t]\<close>\<close>

definition get_ht :: "nat \<Rightarrow> ('k, 'v) dict \<Rightarrow> ('k, 'v) dictht" where
  "get_ht t d = (if t = 0 then ht0 d else ht1 d)"

definition set_ht :: "nat \<Rightarrow> ('k, 'v) dictht \<Rightarrow> ('k, 'v) dict \<Rightarrow> ('k, 'v) dict" where
  "set_ht t h d = (if t = 0 then d\<lparr>ht0 := h\<rparr> else d\<lparr>ht1 := h\<rparr>)"

text \<open>Reading and writing \<open>table[i]\<close>.\<close>

definition ht_bucket :: "('k, 'v) dictht \<Rightarrow> int \<Rightarrow> ('k, 'v) dictEntry res" where
  "ht_bucket h i = (case ht_table h of None \<Rightarrow> Inl Null_Deref | Some t \<Rightarrow> rd t i)"

definition ht_set_bucket ::
  "('k, 'v) dictht \<Rightarrow> int \<Rightarrow> ('k, 'v) dictEntry \<Rightarrow> ('k, 'v) dictht res" where
  "ht_set_bucket h i e = (case ht_table h of None \<Rightarrow> Inl Null_Deref
     | Some t \<Rightarrow> bind_res (wr t i e) (\<lambda>t'. Inr (h\<lparr>ht_table := Some t'\<rparr>)))"

text \<open>\<open>unsigned int h = _hashFunction(key)\<close> and \<open>h & sizemask\<close>.\<close>

definition hash32 :: "('k \<Rightarrow> 64 word) \<Rightarrow> 'k \<Rightarrow> 32 word" where
  "hash32 hf k = ucast (hf k)"

definition bucket_index :: "32 word \<Rightarrow> 64 word \<Rightarrow> 32 word" where
  "bucket_index h msk = ucast ((ucast h :: 64 word) AND msk)"

section \<open>Size, growth and rehashing\<close>

text \<open>\<open>size()\<close> converts the sum of the two counters to \<open>int\<close>.\<close>

definition dict_size :: "('k, 'v) dict \<Rightarrow> int" where
  "dict_size d = sint (ucast (ht_used (ht0 d) + ht_used (ht1 d)) :: 32 word)"

definition dict_empty :: "('k, 'v) dict \<Rightarrow> bool" where
  "dict_empty d \<longleftrightarrow> dict_size d = 0"

definition isRehashing :: "('k, 'v) dict \<Rightarrow> bool" where
  "isRehashing d \<longleftrightarrow> rehashidx d \<noteq> -1"

partial_function (option) nextPower_loop :: "64 word \<Rightarrow> 64 word \<Rightarrow> 64 word option" where
  "nextPower_loop i sz = (if i \<ge> sz then Some i else nextPower_loop (i * 2) sz)"

definition nextPower :: "64 word \<Rightarrow> 64 word res" where
  "nextPower sz =
     (if sz \<ge> LONG_MAX then Inr LONG_MAX
      else case nextPower_loop HASHTABLE_INIT_SIZE sz of None \<Rightarrow> Inl Nonterminating | Some i \<Rightarrow> Inr i)"

definition expand :: "64 word \<Rightarrow> ('k, 'v) dict \<Rightarrow> (int \<times> ('k, 'v) dict) res" where
  "expand sz d =
     bind_res (nextPower sz) (\<lambda>realsize.
       if isRehashing d \<or> ht_used (ht0 d) > sz then Inr (DICT_ERR, d)
       else if realsize = ht_size (ht0 d) then Inr (DICT_ERR, d)
       else let n = \<lparr>ht_table = Some (replicate (unat realsize) Nullptr), ht_size = realsize,
                     ht_sizemask = realsize - 1, ht_used = 0\<rparr>
            in if ht_table (ht0 d) = None then Inr (DICT_OK, d\<lparr>ht0 := n\<rparr>)
               else Inr (DICT_OK, d\<lparr>ht1 := n, rehashidx := 0\<rparr>))"

definition expandIfNeeded :: "('k, 'v) dict \<Rightarrow> (int \<times> ('k, 'v) dict) res" where
  "expandIfNeeded d =
     (if isRehashing d then Inr (DICT_OK, d)
      else if ht_size (ht0 d) = 0 then expand HASHTABLE_INIT_SIZE d
      else if ht_used (ht0 d) div ht_size (ht0 d) > maxLoadFactor
           then expand (ht_used (ht0 d) * 2) d
      else Inr (DICT_OK, d))"

text \<open>The loop of \<open>rehash\<close> that skips empty buckets: \<open>Inl\<close> of the inner sum is the early
  \<open>return 1\<close>. Reading past the end of the table is an error, so the loop ends.\<close>

function skip_empty ::
  "('k, 'v) dictht \<Rightarrow> int \<Rightarrow> int \<Rightarrow> (int + int \<times> int \<times> ('k, 'v) dictEntry) res" where
  "skip_empty h idx empty_visits =
     (case ht_bucket h idx of
        Inl e \<Rightarrow> Inl e
      | Inr Nullptr \<Rightarrow>
          (if empty_visits - 1 = 0 then Inr (Inl (idx + 1))
           else skip_empty h (idx + 1) (empty_visits - 1))
      | Inr de \<Rightarrow> Inr (Inr (idx, empty_visits, de)))"
  by pat_completeness auto
termination
  by (relation "measure (\<lambda>(h, idx, _). case ht_table h of None \<Rightarrow> 0 | Some t \<Rightarrow> nat (int (length t) - idx))")
    (auto simp: ht_bucket_def rd_def split: option.splits if_splits)

declare skip_empty.simps [simp del]

text \<open>The loop that moves the entries of one bucket to the new table.\<close>

fun move_chain ::
  "('k \<Rightarrow> 64 word) \<Rightarrow> ('k, 'v) dictEntry \<Rightarrow> ('k, 'v) dict \<Rightarrow> ('k, 'v) dict res" where
  "move_chain hf Nullptr d = Inr d"
| "move_chain hf Dangling d = Inl Use_After_Free"
| "move_chain hf (Entry k v nextde) d =
     (let h = (ucast (hf k AND ht_sizemask (ht1 d)) :: 32 word)
      in bind_res (ht_bucket (ht1 d) (uint h)) (\<lambda>head.
         bind_res (ht_set_bucket (ht1 d) (uint h) (Entry k v head)) (\<lambda>n1.
           move_chain hf nextde
             (d\<lparr>ht0 := (ht0 d)\<lparr>ht_used := ht_used (ht0 d) - 1\<rparr>,
                ht1 := n1\<lparr>ht_used := ht_used n1 + 1\<rparr>\<rparr>))))"

text \<open>The outer loop of \<open>rehash\<close>, with \<open>n\<close> rounds left: \<open>Inl\<close> is the early \<open>return 1\<close>.\<close>

fun rehash_loop ::
  "('k \<Rightarrow> 64 word) \<Rightarrow> nat \<Rightarrow> int \<Rightarrow> ('k, 'v) dict \<Rightarrow> (('k, 'v) dict + ('k, 'v) dict) res" where
  "rehash_loop hf 0 ev d = Inr (Inr d)"
| "rehash_loop hf (Suc n) ev d =
     (if ht_used (ht0 d) = 0 then Inr (Inr d)
      else if \<not> ht_size (ht0 d) > word_of_int (rehashidx d) then Inl Assert_Failed
      else bind_res (skip_empty (ht0 d) (rehashidx d) ev) (\<lambda>r.
        case r of
          Inl idx \<Rightarrow> Inr (Inl (d\<lparr>rehashidx := idx\<rparr>))
        | Inr (idx, ev', de) \<Rightarrow>
            bind_res (move_chain hf de (d\<lparr>rehashidx := idx\<rparr>)) (\<lambda>d1.
            bind_res (ht_set_bucket (ht0 d1) (rehashidx d1) Nullptr) (\<lambda>h0.
              rehash_loop hf n ev' (d1\<lparr>ht0 := h0, rehashidx := rehashidx d1 + 1\<rparr>)))))"

definition rehash :: "('k \<Rightarrow> 64 word) \<Rightarrow> nat \<Rightarrow> ('k, 'v) dict \<Rightarrow> (int \<times> ('k, 'v) dict) res" where
  "rehash hf n d =
     (let empty_visits = int n * 10
      in if \<not> isRehashing d then Inr (0, d)
         else bind_res (rehash_loop hf n empty_visits d) (\<lambda>r. case r of
             Inl d1 \<Rightarrow> Inr (1, d1)
           | Inr d1 \<Rightarrow>
               if ht_used (ht0 d1) = 0
               then Inr (0, d1\<lparr>ht0 := ht1 d1, ht1 := dictht_clear (ht1 d1), rehashidx := -1\<rparr>)
               else Inr (1, d1)))"

definition rehashStep :: "('k \<Rightarrow> 64 word) \<Rightarrow> ('k, 'v) dict \<Rightarrow> ('k, 'v) dict res" where
  "rehashStep hf d =
     (if iterators d = 0 then bind_res (rehash hf 1 d) (\<lambda>(_, d'). Inr d') else Inr d)"

definition rehash_if_needed :: "('k \<Rightarrow> 64 word) \<Rightarrow> ('k, 'v) dict \<Rightarrow> ('k, 'v) dict res" where
  "rehash_if_needed hf d = (if isRehashing d then rehashStep hf d else Inr d)"

section \<open>Looking up, inserting, erasing\<close>

text \<open>Position of the first entry of a chain with the key; the loop \<open>while(he)\<close>.\<close>

fun find_chain :: "'k \<Rightarrow> nat \<Rightarrow> ('k, 'v) dictEntry \<Rightarrow> nat option res" where
  "find_chain k pos Nullptr = Inr None"
| "find_chain k pos Dangling = Inl Use_After_Free"
| "find_chain k pos (Entry k' v he) =
     (if k = k' then Inr (Some pos) else find_chain k (pos + 1) he)"

text \<open>The loop over the tables of \<open>keyIndex\<close>, from table \<open>t\<close> on: the index in the last table
  looked at, or the place of the entry that has the key.\<close>

definition keyIndex_table ::
  "'k \<Rightarrow> 32 word \<Rightarrow> nat \<Rightarrow> ('k, 'v) dict \<Rightarrow> (32 word \<times> entry_loc option) res" where
  "keyIndex_table k h t d =
     (let idx = bucket_index h (ht_sizemask (get_ht t d))
      in bind_res (ht_bucket (get_ht t d) (uint idx)) (\<lambda>he.
         bind_res (find_chain k 0 he) (\<lambda>p.
           Inr (idx, map_option (Loc t (uint idx)) p))))"

definition keyIndex ::
  "'k \<Rightarrow> 32 word \<Rightarrow> ('k, 'v) dict \<Rightarrow> (int \<times> entry_loc option \<times> ('k, 'v) dict) res" where
  "keyIndex k h d =
     bind_res (expandIfNeeded d) (\<lambda>(ret, d1).
       if ret = DICT_ERR then Inr (-1, None, d1)
       else bind_res (keyIndex_table k h 0 d1) (\<lambda>(idx0, p0).
         case p0 of
           Some l \<Rightarrow> Inr (-1, Some l, d1)
         | None \<Rightarrow>
             if \<not> isRehashing d1 then Inr (sint idx0, None, d1)
             else bind_res (keyIndex_table k h 1 d1) (\<lambda>(idx1, p1).
               case p1 of
                 Some l \<Rightarrow> Inr (-1, Some l, d1)
               | None \<Rightarrow> Inr (sint idx1, None, d1))))"

text \<open>\<open>insertRaw\<close>: the new entry, the existing entry, and the table.\<close>

definition insertRaw ::
  "('k \<Rightarrow> 64 word) \<Rightarrow> 'v \<Rightarrow> 'k \<Rightarrow> ('k, 'v) dict \<Rightarrow>
   (entry_loc option \<times> entry_loc option \<times> ('k, 'v) dict) res" where
  "insertRaw hf dflt k d =
     bind_res (rehash_if_needed hf d) (\<lambda>d1.
     bind_res (keyIndex k (hash32 hf k) d1) (\<lambda>(index, existing, d2).
       if index = -1 then Inr (None, existing, d2)
       else let t = (if isRehashing d2 then 1 else 0); h = get_ht t d2
            in bind_res (ht_bucket h index) (\<lambda>head.
               bind_res (ht_set_bucket h index (Entry k dflt head)) (\<lambda>h'.
                 Inr (Some (Loc t index 0), existing,
                      set_ht t (h'\<lparr>ht_used := ht_used h' + 1\<rparr>) d2)))))"

text \<open>Access to the entry a pointer designates.\<close>

fun chain_value :: "nat \<Rightarrow> ('k, 'v) dictEntry \<Rightarrow> 'v res" where
  "chain_value p Nullptr = Inl Null_Deref"
| "chain_value p Dangling = Inl Use_After_Free"
| "chain_value 0 (Entry k v n) = Inr v"
| "chain_value (Suc p) (Entry k v n) = chain_value p n"

fun chain_set_value :: "nat \<Rightarrow> 'v \<Rightarrow> ('k, 'v) dictEntry \<Rightarrow> ('k, 'v) dictEntry res" where
  "chain_set_value p x Nullptr = Inl Null_Deref"
| "chain_set_value p x Dangling = Inl Use_After_Free"
| "chain_set_value 0 x (Entry k v n) = Inr (Entry k x n)"
| "chain_set_value (Suc p) x (Entry k v n) =
     bind_res (chain_set_value p x n) (\<lambda>n'. Inr (Entry k v n'))"

definition loc_chain :: "entry_loc \<Rightarrow> ('k, 'v) dict \<Rightarrow> ('k, 'v) dictEntry res" where
  "loc_chain l d = ht_bucket (get_ht (loc_table l) d) (loc_bucket l)"

definition set_loc_chain ::
  "entry_loc \<Rightarrow> ('k, 'v) dictEntry \<Rightarrow> ('k, 'v) dict \<Rightarrow> ('k, 'v) dict res" where
  "set_loc_chain l c d =
     bind_res (ht_set_bucket (get_ht (loc_table l) d) (loc_bucket l) c) (\<lambda>h.
       Inr (set_ht (loc_table l) h d))"

definition getValue :: "entry_loc \<Rightarrow> ('k, 'v) dict \<Rightarrow> 'v res" where
  "getValue l d = bind_res (loc_chain l d) (chain_value (loc_pos l))"

definition setValue :: "entry_loc \<Rightarrow> 'v \<Rightarrow> ('k, 'v) dict \<Rightarrow> ('k, 'v) dict res" where
  "setValue l x d =
     bind_res (loc_chain l d) (\<lambda>c.
     bind_res (chain_set_value (loc_pos l) x c) (\<lambda>c'. set_loc_chain l c' d))"

definition dict_insert ::
  "('k \<Rightarrow> 64 word) \<Rightarrow> 'v \<Rightarrow> 'k \<Rightarrow> 'v \<Rightarrow> ('k, 'v) dict \<Rightarrow> (int \<times> ('k, 'v) dict) res" where
  "dict_insert hf dflt k v d =
     bind_res (insertRaw hf dflt k d) (\<lambda>(entry, _, d1).
       case entry of
         None \<Rightarrow> Inr (DICT_ERR, d1)
       | Some l \<Rightarrow> bind_res (setValue l v d1) (\<lambda>d2. Inr (DICT_OK, d2)))"

text \<open>\<open>operator[]\<close> returns a reference, the place of the entry.\<close>

definition dict_index ::
  "('k \<Rightarrow> 64 word) \<Rightarrow> 'v \<Rightarrow> 'k \<Rightarrow> ('k, 'v) dict \<Rightarrow> (entry_loc \<times> ('k, 'v) dict) res" where
  "dict_index hf dflt k d =
     bind_res (insertRaw hf dflt k d) (\<lambda>(entry, existing, d1).
       case entry of
         Some l \<Rightarrow> Inr (l, d1)
       | None \<Rightarrow> (case existing of None \<Rightarrow> Inl Null_Deref | Some l \<Rightarrow> Inr (l, d1)))"

text \<open>\<open>replace\<close> copies the existing entry, with its \<open>next\<close>, into the local \<open>auxentry\<close>; when that
  local goes out of scope its destructor deletes \<open>next\<close>, so the rest of the chain is freed.\<close>

fun chain_free_next :: "nat \<Rightarrow> ('k, 'v) dictEntry \<Rightarrow> ('k, 'v) dictEntry res" where
  "chain_free_next p Nullptr = Inl Null_Deref"
| "chain_free_next p Dangling = Inl Use_After_Free"
| "chain_free_next 0 (Entry k v n) =
     (case n of Dangling \<Rightarrow> Inl Use_After_Free | Nullptr \<Rightarrow> Inr (Entry k v Nullptr)
      | Entry _ _ _ \<Rightarrow> Inr (Entry k v Dangling))"
| "chain_free_next (Suc p) (Entry k v n) =
     bind_res (chain_free_next p n) (\<lambda>n'. Inr (Entry k v n'))"

definition dict_replace ::
  "('k \<Rightarrow> 64 word) \<Rightarrow> 'v \<Rightarrow> 'k \<Rightarrow> 'v \<Rightarrow> ('k, 'v) dict \<Rightarrow> (int \<times> ('k, 'v) dict) res" where
  "dict_replace hf dflt k v d =
     bind_res (insertRaw hf dflt k d) (\<lambda>(entry, existing, d1).
       case entry of
         Some l \<Rightarrow> bind_res (setValue l v d1) (\<lambda>d2. Inr (1, d2))
       | None \<Rightarrow> (case existing of
           None \<Rightarrow> Inl Null_Deref
         | Some l \<Rightarrow>
             bind_res (setValue l v d1) (\<lambda>d2.
             bind_res (loc_chain l d2) (\<lambda>c.
             bind_res (chain_free_next (loc_pos l) c) (\<lambda>c'.
             bind_res (set_loc_chain l c' d2) (\<lambda>d3. Inr (0, d3)))))))"

text \<open>Unlinking and deleting the first entry with the key: \<open>None\<close> if there is none.\<close>

fun chain_remove :: "'k \<Rightarrow> ('k, 'v) dictEntry \<Rightarrow> ('k, 'v) dictEntry option res" where
  "chain_remove k Nullptr = Inr None"
| "chain_remove k Dangling = Inl Use_After_Free"
| "chain_remove k (Entry k' v he) =
     (if k = k' then Inr (Some he)
      else bind_res (chain_remove k he) (\<lambda>r. Inr (map_option (Entry k' v) r)))"

text \<open>One round of the loop of \<open>erase\<close>: \<open>Some\<close> if the key was found and the loop returns.\<close>

definition erase_table ::
  "'k \<Rightarrow> 32 word \<Rightarrow> nat \<Rightarrow> ('k, 'v) dict \<Rightarrow> ('k, 'v) dict option res" where
  "erase_table k h t d =
     (let ht = get_ht t d; idx = uint (bucket_index h (ht_sizemask ht))
      in bind_res (ht_bucket ht idx) (\<lambda>he.
         bind_res (chain_remove k he) (\<lambda>r. case r of
             None \<Rightarrow> Inr None
           | Some c \<Rightarrow> bind_res (ht_set_bucket ht idx c) (\<lambda>ht'.
               Inr (Some (set_ht t (ht'\<lparr>ht_used := ht_used ht' - 1\<rparr>) d))))))"

definition dict_erase :: "('k \<Rightarrow> 64 word) \<Rightarrow> 'k \<Rightarrow> ('k, 'v) dict \<Rightarrow> ('k, 'v) dict res" where
  "dict_erase hf k d =
     (if ht_used (ht0 d) = 0 \<and> ht_used (ht1 d) = 0 then Inr d
      else bind_res (rehash_if_needed hf d) (\<lambda>d1.
        bind_res (erase_table k (hash32 hf k) 0 d1) (\<lambda>r. case r of
          Some d2 \<Rightarrow> Inr d2
        | None \<Rightarrow>
            if \<not> isRehashing d1 then Inr d1
            else bind_res (erase_table k (hash32 hf k) 1 d1) (\<lambda>r.
              case r of Some d2 \<Rightarrow> Inr d2 | None \<Rightarrow> Inr d1))))"

definition dict_exist :: "('k \<Rightarrow> 64 word) \<Rightarrow> 'k \<Rightarrow> ('k, 'v) dict \<Rightarrow> (bool \<times> ('k, 'v) dict) res" where
  "dict_exist hf k d =
     (if dict_empty d then Inr (False, d)
      else bind_res (rehash_if_needed hf d) (\<lambda>d1.
        bind_res (keyIndex_table k (hash32 hf k) 0 d1) (\<lambda>(_, p0).
          if p0 \<noteq> None then Inr (True, d1)
          else if \<not> isRehashing d1 then Inr (False, d1)
          else bind_res (keyIndex_table k (hash32 hf k) 1 d1) (\<lambda>(_, p1).
            Inr (p1 \<noteq> None, d1)))))"

section \<open>A random entry\<close>

text \<open>\<open>random()\<close> is not determined by the program: its results are a list that each call takes
  the next value of. \<open>None\<close> says that the list ran out before the loop found a bucket.\<close>

definition random_bucket :: "64 word \<Rightarrow> ('k, 'v) dict \<Rightarrow> (nat \<times> int) res" where
  "random_bucket r d =
     (if isRehashing d
      then let n = ht_size (ht0 d) + ht_size (ht1 d) - word_of_int (rehashidx d)
           in if n = 0 then Inl Div_By_Zero
              else let h = (ucast (word_of_int (rehashidx d) + r mod n) :: 32 word)
                   in if ucast h \<ge> ht_size (ht0 d)
                      then Inr (1, uint ((ucast h :: 64 word) - ht_size (ht0 d)))
                      else Inr (0, uint h)
      else Inr (0, uint (ucast (r AND ht_sizemask (ht0 d)) :: 32 word)))"

fun random_probe :: "64 word list \<Rightarrow> ('k, 'v) dict \<Rightarrow>
    ((nat \<times> int \<times> ('k, 'v) dictEntry \<times> 64 word list) option) res" where
  "random_probe [] d = Inr None"
| "random_probe (r # rs) d =
     bind_res (random_bucket r d) (\<lambda>(t, i).
     bind_res (ht_bucket (get_ht t d) i) (\<lambda>he.
       case he of Nullptr \<Rightarrow> random_probe rs d | _ \<Rightarrow> Inr (Some (t, i, he, rs))))"

fun chain_length :: "('k, 'v) dictEntry \<Rightarrow> nat res" where
  "chain_length Nullptr = Inr 0"
| "chain_length Dangling = Inl Use_After_Free"
| "chain_length (Entry k v n) = bind_res (chain_length n) (\<lambda>m. Inr (Suc m))"

text \<open>\<open>getRandomEntry\<close>: the entry (a null pointer is \<open>None\<close>), the remaining random numbers and the
  table; the outer \<open>None\<close> is a list that ran out.\<close>

definition getRandomEntry :: "('k \<Rightarrow> 64 word) \<Rightarrow> 64 word list \<Rightarrow> ('k, 'v) dict \<Rightarrow>
    ((entry_loc option \<times> 64 word list \<times> ('k, 'v) dict) option) res" where
  "getRandomEntry hf rs d =
     (if dict_size d = 0 then Inr (Some (None, rs, d))
      else bind_res (rehash_if_needed hf d) (\<lambda>d1.
        bind_res (random_probe rs d1) (\<lambda>r. case r of
          None \<Rightarrow> Inr None
        | Some (t, i, he, rs1) \<Rightarrow>
            bind_res (chain_length he) (\<lambda>listlen. case rs1 of
              [] \<Rightarrow> Inr None
            | r1 # rs2 \<Rightarrow> Inr (Some (Some (Loc t i (unat r1 mod listlen)), rs2, d1))))))"

definition getRandomValue :: "('k \<Rightarrow> 64 word) \<Rightarrow> 64 word list \<Rightarrow> ('k, 'v) dict \<Rightarrow>
    (('v \<times> 64 word list \<times> ('k, 'v) dict) option) res" where
  "getRandomValue hf rs d =
     bind_res (getRandomEntry hf rs d) (\<lambda>r. case r of
       None \<Rightarrow> Inr None
     | Some (entry, rs', d1) \<Rightarrow>
         (case entry of None \<Rightarrow> Inl Null_Deref
          | Some l \<Rightarrow> bind_res (getValue l d1) (\<lambda>v. Inr (Some (v, rs', d1)))))"

section \<open>Well-formed tables and their entries\<close>

fun chain_list :: "('k, 'v) dictEntry \<Rightarrow> ('k \<times> 'v) list" where
  "chain_list (Entry k v n) = (k, v) # chain_list n"
| "chain_list _ = []"

fun chain_ok :: "('k, 'v) dictEntry \<Rightarrow> bool" where
  "chain_ok (Entry k v n) = chain_ok n"
| "chain_ok Nullptr = True"
| "chain_ok Dangling = False"

definition ht_entries :: "('k, 'v) dictht \<Rightarrow> ('k \<times> 'v) list" where
  "ht_entries h = (case ht_table h of None \<Rightarrow> [] | Some t \<Rightarrow> concat (map chain_list t))"

text \<open>Every entry of bucket \<open>i\<close> hashes to \<open>i\<close>, and the chain ends in a null pointer.\<close>

definition bucket_ok :: "('k \<Rightarrow> 64 word) \<Rightarrow> 64 word \<Rightarrow> nat \<Rightarrow> ('k, 'v) dictEntry \<Rightarrow> bool" where
  "bucket_ok hf msk i c \<longleftrightarrow> chain_ok c \<and>
     (\<forall>k \<in> fst ` set (chain_list c). unat (bucket_index (hash32 hf k) msk) = i)"

definition ht_wf :: "('k \<Rightarrow> 64 word) \<Rightarrow> ('k, 'v) dictht \<Rightarrow> bool" where
  "ht_wf hf h \<longleftrightarrow> (case ht_table h of
       None \<Rightarrow> ht_size h = 0 \<and> ht_sizemask h = 0 \<and> ht_used h = 0
     | Some t \<Rightarrow> (\<exists>n \<le> 31. ht_size h = 2 ^ n) \<and> length t = unat (ht_size h) \<and>
         ht_sizemask h = ht_size h - 1 \<and> (\<forall>i < length t. bucket_ok hf (ht_sizemask h) i (t ! i)) \<and>
         unat (ht_used h) = length (ht_entries h))"

lemma chain_ok_cases: "chain_ok c \<Longrightarrow> c \<noteq> Nullptr \<Longrightarrow> \<exists>k v n. c = Entry k v n"
  by (cases c) simp_all

lemma unat_of_nat64: "n < 2 ^ 64 \<Longrightarrow> unat (word_of_nat n :: 64 word) = n"
  by (simp add: unsigned_of_nat take_bit_nat_eq_self)

lemma unat_2_power: "n < 64 \<Longrightarrow> unat (2 ^ n :: 64 word) = 2 ^ n"
  using unat_of_nat64 [of "2 ^ n"] power_strict_increasing [of n 64 "2::nat"] by simp

lemma sint_small: "unat (w :: 32 word) < 2 ^ 31 \<Longrightarrow> sint w = int (unat w)"
proof -
  assume "unat w < 2 ^ 31"
  then have w: "int (unat w) < 2 ^ 31"
    by (simp only: of_nat_less_iff [symmetric, where 'a = int] of_nat_power of_nat_numeral)
  have "sint w = signed_take_bit 31 (int (unat w))" by (simp add: sint_uint)
  also have "\<dots> = int (unat w)"
    by (rule signed_take_bit_int_eq_self) (rule order_trans [OF _ of_nat_0_le_iff], simp, rule w)
  finally show ?thesis .
qed

lemma bucket_index_bound:
  assumes "n \<le> 31" "sz = 2 ^ n"
  shows "unat (bucket_index h (sz - 1)) < unat sz" "unat (bucket_index h (sz - 1)) < 2 ^ 31"
proof -
  have sz: "unat sz = 2 ^ n" using assms by (simp add: unat_2_power)
  then have m: "unat (sz - 1) = 2 ^ n - 1" by (simp add: unat_sub_if_size)
  have "unat (bucket_index h (sz - 1)) \<le> unat ((ucast h :: 64 word) AND (sz - 1))"
    by (simp add: bucket_index_def unsigned_ucast_eq take_bit_nat_less_eq_self)
  also have "\<dots> \<le> unat (sz - 1)" using word_and_le1 word_le_nat_alt by blast
  finally have u: "unat (bucket_index h (sz - 1)) < 2 ^ n"
    unfolding m by (rule le_less_trans) simp
  then show "unat (bucket_index h (sz - 1)) < unat sz" using sz by simp
  note u
  also have "(2::nat) ^ n \<le> 2 ^ 31" using assms by (intro power_increasing) simp_all
  finally show "unat (bucket_index h (sz - 1)) < 2 ^ 31" .
qed

lemma move_index_eq: "ucast (hf k AND msk) = bucket_index (hash32 hf k) msk"
  by (rule bit_word_eqI) (auto simp: bucket_index_def hash32_def bit_simps)

text \<open>The bucket of a key in a well-formed table.\<close>

definition key_bucket :: "('k \<Rightarrow> 64 word) \<Rightarrow> ('k, 'v) dictht \<Rightarrow> 'k \<Rightarrow> nat" where
  "key_bucket hf h k = unat (bucket_index (hash32 hf k) (ht_sizemask h))"

lemma ht_wf_SomeD:
  assumes "ht_wf hf h" "ht_table h = Some t"
  shows "length t = unat (ht_size h)" "ht_sizemask h = ht_size h - 1"
    "\<And>i. i < length t \<Longrightarrow> bucket_ok hf (ht_sizemask h) i (t ! i)"
    "unat (ht_used h) = length (ht_entries h)" "\<exists>n \<le> 31. ht_size h = 2 ^ n"
  using assms by (auto simp: ht_wf_def)

lemma key_bucket_in:
  assumes "ht_wf hf h" "ht_table h = Some t"
  shows "key_bucket hf h k < length t"
    "int (key_bucket hf h k) = uint (bucket_index (hash32 hf k) (ht_sizemask h))"
    "sint (bucket_index (hash32 hf k) (ht_sizemask h)) = int (key_bucket hf h k)"
proof -
  obtain n where n: "n \<le> 31" "ht_size h = 2 ^ n" and w: "length t = unat (ht_size h)"
    "ht_sizemask h = ht_size h - 1" using ht_wf_SomeD [OF assms] by blast
  note b = bucket_index_bound [OF n, of "hash32 hf k"]
  show "int (key_bucket hf h k) = uint (bucket_index (hash32 hf k) (ht_sizemask h))"
    by (simp add: key_bucket_def)
  from b w show "sint (bucket_index (hash32 hf k) (ht_sizemask h)) = int (key_bucket hf h k)"
    unfolding key_bucket_def by (intro sint_small) simp
  from b w show "key_bucket hf h k < length t" by (simp add: key_bucket_def)
qed

lemma ht_bucket_in [simp]:
  "ht_table h = Some t \<Longrightarrow> i < length t \<Longrightarrow> ht_bucket h (int i) = Inr (t ! i)"
  by (simp add: ht_bucket_def rd_def)

lemma ht_set_bucket_in [simp]:
  "ht_table h = Some t \<Longrightarrow> i < length t \<Longrightarrow>
   ht_set_bucket h (int i) c = Inr (h\<lparr>ht_table := Some (t[i := c])\<rparr>)"
  by (simp add: ht_set_bucket_def wr_def)

lemma mset_concat_upd:
  "i < length t \<Longrightarrow> mset (concat (map f (t[i := c]))) + mset (f (t ! i)) =
     mset (concat (map f t)) + mset (f c)"
proof (induction t arbitrary: i)
  case Nil
  then show ?case by simp
next
  case (Cons a t)
  then show ?case
  proof (cases i)
    case 0
    then show ?thesis by simp
  next
    case (Suc j)
    with Cons have "mset (concat (map f (t[j := c]))) + mset (f (t ! j)) =
      mset (concat (map f t)) + mset (f c)" by simp
    with Suc show ?thesis by (simp add: add.assoc)
  qed
qed

text \<open>The effect of changing one bucket and the counter.\<close>

lemma ht_upd:
  assumes "ht_wf hf h" "ht_table h = Some t" "i < length t" "bucket_ok hf (ht_sizemask h) i c"
    and "unat u + length (chain_list (t ! i)) = unat (ht_used h) + length (chain_list c)"
  defines "h' \<equiv> h\<lparr>ht_table := Some (t[i := c]), ht_used := u\<rparr>"
  shows "ht_wf hf h'" "mset (ht_entries h') + mset (chain_list (t ! i)) =
    mset (ht_entries h) + mset (chain_list c)"
proof -
  show m: "mset (ht_entries h') + mset (chain_list (t ! i)) =
      mset (ht_entries h) + mset (chain_list c)"
    using mset_concat_upd [OF assms(3), of chain_list c] assms(2) by (simp add: h'_def ht_entries_def)
  then have "size (mset (ht_entries h')) + length (chain_list (t ! i)) =
      size (mset (ht_entries h)) + length (chain_list c)"
    by (metis size_mset size_union)
  then have "unat u = length (ht_entries h')"
    using assms(5) ht_wf_SomeD(4) [OF assms(1,2)] by simp
  moreover have "bucket_ok hf (ht_sizemask h) j (t[i := c] ! j)" if "j < length t" for j
    using ht_wf_SomeD(3) [OF assms(1,2) that] assms(3,4) by (cases "i = j") simp_all
  ultimately show "ht_wf hf h'"
    using assms(1-3) by (simp add: ht_wf_def h'_def)
qed

text \<open>Pushing an entry on top of its bucket, and the counter.\<close>

lemma bucket_ok_push:
  "bucket_ok hf msk i (Entry k v c) \<longleftrightarrow>
     bucket_ok hf msk i c \<and> unat (bucket_index (hash32 hf k) msk) = i"
  by (auto simp: bucket_ok_def)

lemma unat_plus_1: "unat (u :: 64 word) < 2 ^ 32 \<Longrightarrow> unat (u + 1) = unat u + 1"
  by (subst unat_add_lem [THEN iffD1]) simp_all

lemma unat_minus_n: "n \<le> unat (u :: 64 word) \<Longrightarrow> unat (u - word_of_nat n) = unat u - n"
proof -
  assume "n \<le> unat u"
  moreover have "unat u < 2 ^ LENGTH(64)" by (rule unsigned_less)
  ultimately have "n < 2 ^ 64" by simp
  then have "unat (word_of_nat n :: 64 word) = n" by (rule unat_of_nat64)
  with \<open>n \<le> unat u\<close> show ?thesis by (simp add: unat_sub_if_size)
qed

lemma ht_push:
  fixes k :: 'k and v :: 'v
  assumes "ht_wf hf h" "ht_table h = Some t" "length (ht_entries h) < 2 ^ 32"
  defines "i \<equiv> key_bucket hf h k"
  defines "h' \<equiv> h\<lparr>ht_table := Some (t[i := Entry k v (t ! i)]), ht_used := ht_used h + 1\<rparr>"
  shows "ht_wf hf h'" "mset (ht_entries h') = mset (ht_entries h) + {#(k, v)#}"
proof -
  note w = ht_wf_SomeD [OF assms(1,2)]
  have i: "i < length t" using key_bucket_in [OF assms(1,2)] by (simp add: i_def)
  have b: "bucket_ok hf (ht_sizemask h) i (Entry k v (t ! i))"
    using w(3) [OF i] by (simp add: bucket_ok_push i_def key_bucket_def)
  have "unat (ht_used h + 1) + length (chain_list (t ! i)) =
      unat (ht_used h) + length (chain_list (Entry k v (t ! i)))"
    using w(4) assms(3) by (simp add: unat_plus_1)
  note u = ht_upd [OF assms(1,2) i b this, folded h'_def]
  from u(1) show "ht_wf hf h'" .
  from u(2) show "mset (ht_entries h') = mset (ht_entries h) + {#(k, v)#}" by simp
qed

section \<open>The invariant of the table\<close>

definition dict_entries :: "('k, 'v) dict \<Rightarrow> ('k \<times> 'v) list" where
  "dict_entries d = ht_entries (ht0 d) @ ht_entries (ht1 d)"

text \<open>The abstract view: a finite map.\<close>

definition dict_map :: "('k, 'v) dict \<Rightarrow> 'k \<rightharpoonup> 'v" where
  "dict_map d = map_of (dict_entries d)"

text \<open>While rehashing both tables are allocated and the buckets before \<open>rehashidx\<close> have been
  emptied; otherwise the second table is cleared. No key occurs twice.\<close>

definition rehash_state_ok :: "('k, 'v) dict \<Rightarrow> bool" where
  "rehash_state_ok d \<longleftrightarrow>
     (if isRehashing d
      then 0 \<le> rehashidx d \<and> (\<exists>t0 t1. ht_table (ht0 d) = Some t0 \<and> ht_table (ht1 d) = Some t1 \<and>
             rehashidx d \<le> int (length t0) \<and> (\<forall>i < nat (rehashidx d). t0 ! i = Nullptr))
      else ht1 d = dictht_empty)"

definition dict_inv :: "('k \<Rightarrow> 64 word) \<Rightarrow> ('k, 'v) dict \<Rightarrow> bool" where
  "dict_inv hf d \<longleftrightarrow> ht_wf hf (ht0 d) \<and> ht_wf hf (ht1 d) \<and> rehash_state_ok d \<and>
     distinct (map fst (dict_entries d)) \<and> length (dict_entries d) < 2 ^ 31"

lemma dictht_clear_empty [simp]: "dictht_clear h = dictht_empty"
  by (simp add: dictht_clear_def dictht_empty_def)

lemma dictht_empty_simps [simp]:
  "ht_table dictht_empty = None" "ht_size dictht_empty = 0" "ht_sizemask dictht_empty = 0"
  "ht_used dictht_empty = 0" "ht_entries dictht_empty = []" "ht_wf hf dictht_empty"
  by (simp_all add: dictht_empty_def ht_entries_def ht_wf_def)

lemma dict_new_inv: "dict_inv hf dict_new" "dict_map dict_new = Map.empty"
  by (simp_all add: dict_inv_def dict_new_def dict_entries_def rehash_state_ok_def isRehashing_def
      dict_map_def)

lemma dict_clear_inv: "dict_inv hf (dict_clear d)" "dict_map (dict_clear d) = Map.empty"
  "dict_inv hf (HashTable_clear d)" "dict_map (HashTable_clear d) = Map.empty"
  by (simp_all add: HashTable_clear_def dict_inv_def dict_clear_def dict_entries_def rehash_state_ok_def isRehashing_def
      dict_map_def)

text \<open>Order does not matter to the map, only which entries there are.\<close>

lemma map_of_mset:
  assumes "distinct (map fst xs)" "mset xs = mset ys"
  shows "distinct (map fst ys)" "map_of xs = map_of ys"
proof -
  have "mset (map fst xs) = mset (map fst ys)" using assms(2) by simp
  with assms(1) show d: "distinct (map fst ys)" by (metis mset_eq_imp_distinct_iff)
  show "map_of xs = map_of ys"
    using assms d by (metis map_of_inject_set mset_eq_setD)
qed

lemma dict_entries_mset:
  assumes "dict_inv hf d" "mset (dict_entries d') = mset (dict_entries d)"
  shows "distinct (map fst (dict_entries d'))" "length (dict_entries d') < 2 ^ 31"
    "dict_map d' = dict_map d"
  using assms map_of_mset [of "dict_entries d" "dict_entries d'"] mset_eq_length [OF assms(2)]
  by (simp_all add: dict_inv_def dict_map_def)

section \<open>Rehashing keeps the map\<close>

lemma skip_empty_spec:
  assumes "ht_table h = Some t" "n \<le> m" "m < length t" "t ! m \<noteq> Nullptr"
  shows "(\<exists>i. skip_empty h (int n) ev = Inr (Inl (int i)) \<and> n < i \<and> i \<le> m \<and>
              (\<forall>j. n \<le> j \<longrightarrow> j < i \<longrightarrow> t ! j = Nullptr)) \<or>
    (\<exists>i ev'. skip_empty h (int n) ev = Inr (Inr (int i, ev', t ! i)) \<and> n \<le> i \<and> i \<le> m \<and>
              t ! i \<noteq> Nullptr \<and> (\<forall>j. n \<le> j \<longrightarrow> j < i \<longrightarrow> t ! j = Nullptr))"
  using assms(2)
proof (induction "m - n" arbitrary: n ev)
  case 0
  then have "n = m" by simp
  then show ?case using assms by (auto simp: skip_empty.simps [of h] split: dictEntry.splits)
next
  case (Suc x)
  then have n: "n < m" "Suc n \<le> m" "x = m - Suc n" by simp_all
  have b: "ht_bucket h (int n) = Inr (t ! n)" using n assms by simp
  show ?case
  proof (cases "t ! n = Nullptr")
    case False
    then have "skip_empty h (int n) ev = Inr (Inr (int n, ev, t ! n))"
      using b by (auto simp: skip_empty.simps [of h "int n"] split: dictEntry.splits)
    then show ?thesis using n False by auto
  next
    case True
    then have eq: "skip_empty h (int n) ev = (if ev - 1 = 0 then Inr (Inl (int (Suc n)))
        else skip_empty h (int (Suc n)) (ev - 1))"
      using b by (simp add: skip_empty.simps [of h "int n"] add.commute)
    have ext: "(\<forall>j. n \<le> j \<longrightarrow> j < i \<longrightarrow> t ! j = Nullptr)"
      if "\<forall>j. Suc n \<le> j \<longrightarrow> j < i \<longrightarrow> t ! j = Nullptr" for i
      using that True by (metis Suc_leI le_neq_implies_less)
    show ?thesis
    proof (cases "ev - 1 = 0")
      case True
      then show ?thesis using eq n ext [of "Suc n"] by (intro disjI1 exI [of _ "Suc n"]) simp
    next
      case False
      with eq have "skip_empty h (int n) ev = skip_empty h (int (Suc n)) (ev - 1)" by simp
      from Suc.hyps(1) [OF n(3,2), of "ev - 1", folded this] show ?thesis
      proof (elim disjE exE conjE)
        fix i assume "skip_empty h (int n) ev = Inr (Inl (int i))" "Suc n < i" "i \<le> m"
          "\<forall>j. Suc n \<le> j \<longrightarrow> j < i \<longrightarrow> t ! j = Nullptr"
        then show ?thesis using ext [of i] by (intro disjI1 exI [of _ i]) simp
      next
        fix i ev' assume "skip_empty h (int n) ev = Inr (Inr (int i, ev', t ! i))" "Suc n \<le> i"
          "i \<le> m" "t ! i \<noteq> Nullptr" "\<forall>j. Suc n \<le> j \<longrightarrow> j < i \<longrightarrow> t ! j = Nullptr"
        then show ?thesis using ext [of i] by (intro disjI2 exI [of _ i] exI [of _ ev']) simp
      qed
    qed
  qed
qed

lemma move_chain_spec:
  assumes "ht_wf hf (ht1 d)" "ht_table (ht1 d) = Some t" "chain_ok c"
    "length (ht_entries (ht1 d)) + length (chain_list c) < 2 ^ 32"
  shows "\<exists>h1 t'. move_chain hf c d = Inr (d\<lparr>ht0 := (ht0 d)\<lparr>ht_used :=
      ht_used (ht0 d) - word_of_nat (length (chain_list c))\<rparr>, ht1 := h1\<rparr>) \<and> ht_wf hf h1 \<and>
    ht_table h1 = Some t' \<and> ht_size h1 = ht_size (ht1 d) \<and>
    mset (ht_entries h1) = mset (ht_entries (ht1 d)) + mset (chain_list c)"
  using assms
proof (induction c arbitrary: d t)
  case Nullptr
  then show ?case by (intro exI [of _ "ht1 d"] exI [of _ t]) simp
next
  case Dangling
  then show ?case by simp
next
  case (Entry k v c)
  let ?i = "key_bucket hf (ht1 d) k"
  let ?h = "(ht1 d)\<lparr>ht_table := Some (t[?i := Entry k v (t ! ?i)]), ht_used := ht_used (ht1 d) + 1\<rparr>"
  let ?d = "d\<lparr>ht0 := (ht0 d)\<lparr>ht_used := ht_used (ht0 d) - 1\<rparr>, ht1 := ?h\<rparr>"
  note kb = key_bucket_in [OF Entry.prems(1,2), of k]
  have p: "ht_wf hf ?h" "mset (ht_entries ?h) = mset (ht_entries (ht1 d)) + {#(k, v)#}"
    using ht_push [OF Entry.prems(1,2)] Entry.prems(4) by simp_all
  have eq: "move_chain hf (Entry k v c) d = move_chain hf c ?d"
    using kb Entry.prems(2) by (simp add: Let_def move_index_eq flip: kb(2))
  have "length (ht_entries ?h) = length (ht_entries (ht1 d)) + 1"
    using p(2) by (metis size_mset size_union size_single)
  then have "length (ht_entries (ht1 ?d)) + length (chain_list c) < 2 ^ 32"
    using Entry.prems(4) by simp
  with Entry.IH [of ?d] p Entry.prems(3) obtain h1 t' where
    "move_chain hf c ?d = Inr (?d\<lparr>ht0 := (ht0 ?d)\<lparr>ht_used :=
      ht_used (ht0 ?d) - word_of_nat (length (chain_list c))\<rparr>, ht1 := h1\<rparr>)" "ht_wf hf h1"
    "ht_table h1 = Some t'" "ht_size h1 = ht_size (ht1 d)"
    "mset (ht_entries h1) = mset (ht_entries ?h) + mset (chain_list c)" by auto
  with eq p(2) show ?case
    by (intro exI [of _ h1] exI [of _ t']) (simp add: algebra_simps)
qed

text \<open>What a step of rehashing keeps.\<close>

definition rehash_keeps :: "('k \<Rightarrow> 64 word) \<Rightarrow> ('k, 'v) dict \<Rightarrow> ('k, 'v) dict \<Rightarrow> bool" where
  "rehash_keeps hf d d' \<longleftrightarrow> dict_inv hf d' \<and> mset (dict_entries d') = mset (dict_entries d) \<and>
     iterators d' = iterators d"

lemma rehash_keeps_refl: "dict_inv hf d \<Longrightarrow> rehash_keeps hf d d"
  by (simp add: rehash_keeps_def)

lemma rehash_keeps_trans: "rehash_keeps hf d d' \<Longrightarrow> rehash_keeps hf d' d'' \<Longrightarrow> rehash_keeps hf d d''"
  by (simp add: rehash_keeps_def)

lemma rehash_keeps_map: "dict_inv hf d \<Longrightarrow> rehash_keeps hf d d' \<Longrightarrow> dict_map d' = dict_map d"
  using dict_entries_mset(3) by (auto simp: rehash_keeps_def)

lemma rehash_keeps_invI:
  assumes "dict_inv hf d" "ht_wf hf (ht0 d')" "ht_wf hf (ht1 d')" "rehash_state_ok d'"
    "mset (dict_entries d') = mset (dict_entries d)" "iterators d' = iterators d"
  shows "rehash_keeps hf d d'"
  using assms dict_entries_mset(1,2) [OF assms(1,5)] by (simp add: rehash_keeps_def dict_inv_def)

lemma dict_invD:
  assumes "dict_inv hf d"
  shows "ht_wf hf (ht0 d)" "ht_wf hf (ht1 d)" "distinct (map fst (dict_entries d))"
    "length (ht_entries (ht0 d)) + length (ht_entries (ht1 d)) < 2 ^ 31"
  using assms by (simp_all add: dict_inv_def dict_entries_def)

lemma rehashing_tables:
  assumes "dict_inv hf d" "isRehashing d"
  obtains t0 t1 n where "ht_table (ht0 d) = Some t0" "ht_table (ht1 d) = Some t1"
    "rehashidx d = int n" "n \<le> length t0" "\<And>i. i < n \<Longrightarrow> t0 ! i = Nullptr"
  using assms by (auto simp: dict_inv_def rehash_state_ok_def) (metis nat_int nonneg_int_cases of_nat_le_iff)

text \<open>While entries are left in the first table, one of its buckets from \<open>rehashidx\<close> on is
  not empty.\<close>

lemma nonempty_bucket:
  assumes "ht_wf hf h" "ht_table h = Some t" "ht_used h \<noteq> 0" "\<And>i. i < n \<Longrightarrow> t ! i = Nullptr"
  shows "\<exists>m \<ge> n. m < length t \<and> t ! m \<noteq> Nullptr"
proof -
  have "ht_entries h \<noteq> []"
    using ht_wf_SomeD(4) [OF assms(1,2)] assms(3) by (auto simp: unat_eq_zero)
  then obtain c where c: "c \<in> set t" "chain_list c \<noteq> []"
    using assms(2) by (auto simp: ht_entries_def)
  then obtain m where m: "m < length t" "t ! m = c" by (auto simp: in_set_conv_nth)
  with c have "t ! m \<noteq> Nullptr" by auto
  with assms(4) [of m] m show ?thesis by (intro exI [of _ m]) (auto simp: not_less [symmetric])
qed

lemma rehashidx_in_range:
  assumes "ht_wf hf h" "ht_table h = Some t" "n < length t"
  shows "ht_size h > word_of_int (int n)"
proof -
  have n: "n < unat (ht_size h)" using ht_wf_SomeD(1) [OF assms(1,2)] assms(3) by simp
  also have "unat (ht_size h) < 2 ^ LENGTH(64)" by (rule unsigned_less)
  finally have "unat (word_of_nat n :: 64 word) = n" by (intro unat_of_nat64) simp
  with n show ?thesis by (simp add: word_less_nat_alt)
qed

text \<open>Moving one bucket to the second table.\<close>

lemma move_bucket:
  assumes inv: "dict_inv hf d" and t0: "ht_table (ht0 d) = Some t0" and t1: "ht_table (ht1 d) = Some t1"
    and r: "rehashidx d = int i" and i: "i < length t0" "\<And>j. j < i \<Longrightarrow> t0 ! j = Nullptr"
  shows "\<exists>d1 h0. move_chain hf (t0 ! i) d = Inr d1 \<and>
    ht_set_bucket (ht0 d1) (rehashidx d1) Nullptr = Inr h0 \<and> rehashidx d1 = int i \<and>
    rehash_keeps hf d (d1\<lparr>ht0 := h0, rehashidx := int (Suc i)\<rparr>) \<and> ht_size h0 = ht_size (ht0 d)"
proof -
  let ?c = "t0 ! i"
  let ?n = "length (chain_list ?c)"
  note w0 = ht_wf_SomeD [OF dict_invD(1) [OF inv] t0]
  have c: "chain_ok ?c" using w0(3) [OF i(1)] by (simp add: bucket_ok_def)
  have le: "?n \<le> length (ht_entries (ht0 d))"
    using t0 i(1) by (auto simp: ht_entries_def length_concat o_def
        intro!: elem_le_sum_list [of i "map (\<lambda>c. length (chain_list c)) t0", simplified])
  have "length (ht_entries (ht1 d)) + ?n < 2 ^ 32" using le dict_invD(4) [OF inv] by simp
  then obtain h1 t1' where mv: "move_chain hf ?c d = Inr (d\<lparr>ht0 := (ht0 d)\<lparr>ht_used :=
      ht_used (ht0 d) - word_of_nat ?n\<rparr>, ht1 := h1\<rparr>)" "ht_wf hf h1" "ht_table h1 = Some t1'"
    "mset (ht_entries h1) = mset (ht_entries (ht1 d)) + mset (chain_list ?c)"
    using move_chain_spec [OF dict_invD(2) [OF inv] t1 c] by auto
  define h0 where "h0 = (ht0 d)\<lparr>ht_table := Some (t0[i := Nullptr]),
    ht_used := ht_used (ht0 d) - word_of_nat ?n\<rparr>"
  have "bucket_ok hf (ht_sizemask (ht0 d)) i Nullptr" by (simp add: bucket_ok_def)
  moreover have "unat (ht_used (ht0 d) - word_of_nat ?n) + ?n =
      unat (ht_used (ht0 d)) + length (chain_list Nullptr)"
    using le w0(4) by (simp add: unat_minus_n)
  ultimately have h0: "ht_wf hf h0" "mset (ht_entries h0) + mset (chain_list ?c) = mset (ht_entries (ht0 d))"
    using ht_upd [OF dict_invD(1) [OF inv] t0 i(1), of Nullptr] by (simp_all add: h0_def)
  let ?d1 = "d\<lparr>ht0 := (ht0 d)\<lparr>ht_used := ht_used (ht0 d) - word_of_nat ?n\<rparr>, ht1 := h1\<rparr>"
  have set: "ht_set_bucket (ht0 ?d1) (rehashidx ?d1) Nullptr = Inr h0"
    using t0 i(1) r by (simp add: h0_def)
  have "rehash_keeps hf d (?d1\<lparr>ht0 := h0, rehashidx := int (Suc i)\<rparr>)"
  proof (rule rehash_keeps_invI [OF inv])
    show "rehash_state_ok (?d1\<lparr>ht0 := h0, rehashidx := int (Suc i)\<rparr>)"
      using mv(3) i by (auto simp: rehash_state_ok_def isRehashing_def h0_def nth_list_update less_Suc_eq)
    have "mset (ht_entries h0) + mset (ht_entries h1) =
        mset (ht_entries h0) + mset (chain_list ?c) + mset (ht_entries (ht1 d))"
      using mv(4) by (simp add: ac_simps)
    then show "mset (dict_entries (?d1\<lparr>ht0 := h0, rehashidx := int (Suc i)\<rparr>)) = mset (dict_entries d)"
      unfolding h0(2) by (simp add: dict_entries_def)
  qed (use h0 mv in simp_all)
  with mv(1) set r show ?thesis by (auto simp: h0_def)
qed

text \<open>The loop of \<open>rehash\<close> never fails; it keeps the map, and moves \<open>rehashidx\<close> forward if it does
  a round.\<close>

definition rehash_advances :: "('k \<Rightarrow> 64 word) \<Rightarrow> nat \<Rightarrow> ('k, 'v) dict \<Rightarrow> ('k, 'v) dict \<Rightarrow> bool" where
  "rehash_advances hf n d d' \<longleftrightarrow> rehash_keeps hf d d' \<and> isRehashing d' \<and>
     ht_size (ht0 d') = ht_size (ht0 d) \<and> rehashidx d \<le> rehashidx d' \<and>
     (0 < n \<and> ht_used (ht0 d) \<noteq> 0 \<longrightarrow> rehashidx d < rehashidx d')"

lemma rehash_loop_spec:
  assumes "dict_inv hf d" "isRehashing d"
  shows "\<exists>r. rehash_loop hf n ev d = Inr r \<and> rehash_advances hf n d (case r of Inl d' \<Rightarrow> d' | Inr d' \<Rightarrow> d')"
  using assms
proof (induction n arbitrary: ev d)
  case 0
  then show ?case by (auto simp: rehash_advances_def rehash_keeps_refl)
next
  case (Suc n)
  show ?case
  proof (cases "ht_used (ht0 d) = 0")
    case True
    with Suc.prems show ?thesis by (auto simp: rehash_advances_def rehash_keeps_refl)
  next
    case False
    obtain t0 t1 x where t: "ht_table (ht0 d) = Some t0" "ht_table (ht1 d) = Some t1"
      and x: "rehashidx d = int x" "\<And>i. i < x \<Longrightarrow> t0 ! i = Nullptr"
      using rehashing_tables [OF Suc.prems] by metis
    obtain m where m: "x \<le> m" "m < length t0" "t0 ! m \<noteq> Nullptr"
      using nonempty_bucket [OF dict_invD(1) [OF Suc.prems(1)] t(1) False x(2)] by blast
    have chk: "ht_size (ht0 d) > word_of_int (rehashidx d)"
      using rehashidx_in_range [OF dict_invD(1) [OF Suc.prems(1)] t(1), of x] m x by simp
    have keep: "rehash_keeps hf d (d\<lparr>rehashidx := int i\<rparr>)" if "x \<le> i" "i \<le> m"
      "\<forall>j. x \<le> j \<longrightarrow> j < i \<longrightarrow> t0 ! j = Nullptr" for i
    proof (rule rehash_keeps_invI [OF Suc.prems(1)])
      have "t0 ! j = Nullptr" if "j < i" for j
        using that \<open>\<forall>j. x \<le> j \<longrightarrow> j < i \<longrightarrow> t0 ! j = Nullptr\<close> x(2) by (cases "j < x") auto
      then show "rehash_state_ok (d\<lparr>rehashidx := int i\<rparr>)"
        using t that m by (auto simp: rehash_state_ok_def isRehashing_def)
    qed (use dict_invD [OF Suc.prems(1)] in \<open>simp_all add: dict_entries_def\<close>)
    from skip_empty_spec [OF t(1) m, of ev] show ?thesis
    proof (elim disjE exE conjE)
      fix i assume "skip_empty (ht0 d) (int x) ev = Inr (Inl (int i))" "x < i" "i \<le> m"
        "\<forall>j. x \<le> j \<longrightarrow> j < i \<longrightarrow> t0 ! j = Nullptr"
      with False chk x keep [of i] show ?thesis
        by (auto simp: rehash_advances_def isRehashing_def)
    next
      fix i ev' assume s: "skip_empty (ht0 d) (int x) ev = Inr (Inr (int i, ev', t0 ! i))" "x \<le> i"
        "i \<le> m" "t0 ! i \<noteq> Nullptr" "\<forall>j. x \<le> j \<longrightarrow> j < i \<longrightarrow> t0 ! j = Nullptr"
      let ?d = "d\<lparr>rehashidx := int i\<rparr>"
      from keep [OF s(2,3,5)] have k: "rehash_keeps hf d ?d" .
      have nul: "t0 ! j = Nullptr" if "j < i" for j
        using that s(5) x(2) by (cases "j < x") auto
      obtain d1 h0 where mv: "move_chain hf (t0 ! i) ?d = Inr d1"
        "ht_set_bucket (ht0 d1) (rehashidx d1) Nullptr = Inr h0" "rehashidx d1 = int i"
        "rehash_keeps hf ?d (d1\<lparr>ht0 := h0, rehashidx := int (Suc i)\<rparr>)" "ht_size h0 = ht_size (ht0 ?d)"
        using move_bucket [of hf ?d t0 t1 i] k t nul s(3) m(2) by (auto simp: rehash_keeps_def)
      let ?d2 = "d1\<lparr>ht0 := h0, rehashidx := int (Suc i)\<rparr>"
      have k2: "rehash_keeps hf d ?d2" using rehash_keeps_trans [OF k mv(4)] .
      obtain r where r: "rehash_loop hf n ev' ?d2 = Inr r"
        "rehash_advances hf n ?d2 (case r of Inl d' \<Rightarrow> d' | Inr d' \<Rightarrow> d')"
        using Suc.IH [of ?d2 ev'] k2 by (auto simp: rehash_keeps_def isRehashing_def)
      have "rehash_loop hf (Suc n) ev d = Inr r"
        using False chk x(1) s(1) mv r(1) by (simp add: add.commute)
      moreover have "rehash_advances hf (Suc n) d (case r of Inl d' \<Rightarrow> d' | Inr d' \<Rightarrow> d')"
        using r(2) k2 rehash_keeps_trans [OF k2] mv(5) s(2) x(1) by (auto simp: rehash_advances_def)
      ultimately show ?thesis by blast
    qed
  qed
qed

lemma rehash_spec:
  assumes "dict_inv hf d"
  shows "\<exists>c d'. rehash hf n d = Inr (c, d') \<and> rehash_keeps hf d d' \<and>
    (isRehashing d \<and> 0 < n \<longrightarrow>
       \<not> isRehashing d' \<or> (ht_size (ht0 d') = ht_size (ht0 d) \<and> rehashidx d < rehashidx d'))"
proof (cases "isRehashing d")
  case False
  then show ?thesis using assms by (simp add: rehash_def rehash_keeps_refl)
next
  case True
  obtain r where r: "rehash_loop hf n (int n * 10) d = Inr r"
    "rehash_advances hf n d (case r of Inl d' \<Rightarrow> d' | Inr d' \<Rightarrow> d')"
    using rehash_loop_spec [OF assms True] by blast
  show ?thesis
  proof (cases r)
    case (Inl d1)
    then have "rehash hf n d = Inr (1, d1)" using True r(1) by (simp add: rehash_def Let_def)
    moreover have "rehash_advances hf n d d1" using r(2) Inl by simp
    moreover have "ht_used (ht0 d) \<noteq> 0 \<or> n = 0"
      using r(1) Inl by (cases n) auto
    ultimately show ?thesis by (auto simp: rehash_advances_def)
  next
    case (Inr d1)
    have adv: "rehash_advances hf n d d1" using r(2) Inr by simp
    then have k: "rehash_keeps hf d d1" and inv: "dict_inv hf d1" and re: "isRehashing d1"
      by (simp_all add: rehash_advances_def rehash_keeps_def)
    show ?thesis
    proof (cases "ht_used (ht0 d1) = 0")
      case True
      let ?d = "d1\<lparr>ht0 := ht1 d1, ht1 := dictht_empty, rehashidx := -1\<rparr>"
      obtain t0 t1 where "ht_table (ht0 d1) = Some t0" using rehashing_tables [OF inv re] by metis
      then have "ht_entries (ht0 d1) = []"
        using ht_wf_SomeD(4) [OF dict_invD(1) [OF inv]] True by force
      then have "rehash_keeps hf d1 ?d"
        using inv dict_invD [OF inv]
        by (intro rehash_keeps_invI [OF inv])
          (simp_all add: dict_entries_def rehash_state_ok_def isRehashing_def)
      with k have "rehash_keeps hf d ?d" by (rule rehash_keeps_trans)
      then show ?thesis using \<open>isRehashing d\<close> r(1) Inr True
        by (simp add: rehash_def Let_def isRehashing_def)
    next
      case False
      have "ht_used (ht0 d) \<noteq> 0 \<or> n = 0" using r(1) Inr False by (cases n) auto
      then show ?thesis using \<open>isRehashing d\<close> r(1) Inr False k adv
        by (auto simp: rehash_def Let_def rehash_advances_def)
    qed
  qed
qed

lemma rehash_if_needed_spec:
  assumes "dict_inv hf d"
  shows "\<exists>d'. rehash_if_needed hf d = Inr d' \<and> rehash_keeps hf d d'"
  using rehash_spec [OF assms, of 1] assms
  by (auto simp: rehash_if_needed_def rehashStep_def rehash_keeps_refl)

section \<open>Growth\<close>

lemma nextPower_loop_spec:
  assumes "k \<le> 63" "unat sz \<le> 2 ^ 63" "k = 2 \<or> 2 ^ (k - 1) < unat sz" "2 \<le> k"
  shows "\<exists>j. nextPower_loop (2 ^ k) sz = Some (2 ^ j) \<and> k \<le> j \<and> j \<le> 63 \<and> unat sz \<le> 2 ^ j \<and>
    (j = 2 \<or> 2 ^ (j - 1) < unat sz)"
  using assms
proof (induction "63 - k" arbitrary: k)
  case 0
  then have "k = 63" by simp
  with 0 have "sz \<le> 2 ^ k" by (simp add: word_le_nat_alt unat_2_power)
  then show ?case using 0
    by (intro exI [of _ k]) (simp add: nextPower_loop.simps word_le_nat_alt unat_2_power)
next
  case (Suc x)
  have u: "unat (2 ^ k :: 64 word) = 2 ^ k" using Suc.prems(1) by (simp add: unat_2_power)
  show ?case
  proof (cases "sz \<le> 2 ^ k")
    case True
    then show ?thesis using Suc.prems u
      by (intro exI [of _ k]) (auto simp: nextPower_loop.simps word_le_nat_alt)
  next
    case False
    then have "2 ^ k < unat sz" using u by (simp add: word_le_nat_alt)
    moreover have "x = 63 - Suc k" "Suc k \<le> 63" using Suc.hyps(2) by simp_all
    ultimately obtain j where "nextPower_loop (2 ^ Suc k) sz = Some (2 ^ j)" "Suc k \<le> j" "j \<le> 63"
      "unat sz \<le> 2 ^ j" "j = 2 \<or> 2 ^ (j - 1) < unat sz"
      using Suc.hyps(1) [of "Suc k"] Suc.prems by auto
    moreover have "nextPower_loop (2 ^ k) sz = nextPower_loop (2 ^ Suc k) sz"
      using False by (subst nextPower_loop.simps) (simp add: mult.commute)
    ultimately show ?thesis by (intro exI [of _ j]) simp
  qed
qed

lemma nextPower_spec:
  assumes "sz < LONG_MAX"
  shows "\<exists>j. nextPower sz = Inr (2 ^ j) \<and> 2 \<le> j \<and> j \<le> 63 \<and> unat sz \<le> 2 ^ j \<and>
    (j = 2 \<or> 2 ^ (j - 1) < unat sz)"
proof -
  have "unat sz \<le> 2 ^ 63" using assms by (simp add: LONG_MAX_def word_less_nat_alt)
  then obtain j where j: "nextPower_loop (2 ^ 2) sz = Some (2 ^ j)" "2 \<le> j" "j \<le> 63"
    "unat sz \<le> 2 ^ j" "j = 2 \<or> 2 ^ (j - 1) < unat sz"
    using nextPower_loop_spec [of 2 sz] by auto
  moreover have "nextPower sz = Inr (2 ^ j)"
    using j(1) assms by (simp add: nextPower_def HASHTABLE_INIT_SIZE_def not_le [symmetric])
  ultimately show ?thesis by blast
qed

definition dictht_alloc :: "64 word \<Rightarrow> ('k, 'v) dictht" where
  "dictht_alloc n = \<lparr>ht_table = Some (replicate (unat n) Nullptr), ht_size = n,
     ht_sizemask = n - 1, ht_used = 0\<rparr>"

lemma dictht_alloc_simps [simp]:
  "ht_table (dictht_alloc n) = Some (replicate (unat n) Nullptr)" "ht_size (dictht_alloc n) = n"
  "ht_entries (dictht_alloc n) = []"
  by (simp_all add: dictht_alloc_def ht_entries_def)

lemma dictht_alloc_wf: "j \<le> 31 \<Longrightarrow> ht_wf hf (dictht_alloc (2 ^ j))"
  by (auto simp: ht_wf_def dictht_alloc_def ht_entries_def bucket_ok_def)

lemma dict_entries_not_rehashing:
  "dict_inv hf d \<Longrightarrow> \<not> isRehashing d \<Longrightarrow> ht1 d = dictht_empty"
  by (simp add: dict_inv_def rehash_state_ok_def)

text \<open>What \<open>expandIfNeeded\<close> does: nothing while rehashing, 4 buckets for a table that has none, and for a table with at least 6 entries
  per bucket a second one with the least power of two of buckets that leaves 2 for each entry.\<close>

definition grow_decision :: "('k, 'v) dict \<Rightarrow> ('k, 'v) dict \<Rightarrow> bool" where
  "grow_decision d d' \<longleftrightarrow>
     (if isRehashing d then d' = d
      else if unat (ht_size (ht0 d)) = 0 then d' = d\<lparr>ht0 := dictht_alloc 4\<rparr>
      else if unat (ht_used (ht0 d)) < 6 * unat (ht_size (ht0 d)) then d' = d
      else \<exists>j. 2 * unat (ht_used (ht0 d)) \<le> 2 ^ j \<and> 2 ^ j < 4 * unat (ht_used (ht0 d)) \<and>
             d' = d\<lparr>ht1 := dictht_alloc (2 ^ j), rehashidx := 0\<rparr>)"

text \<open>\<open>expandIfNeeded\<close> never fails on a table of less than \<open>2 ^ 29\<close> entries; afterwards the
  first table is allocated and, unless rehashing is going on, within its load factor.\<close>

lemma expandIfNeeded_spec:
  assumes inv: "dict_inv hf d" and room: "length (dict_entries d) < 2 ^ 29"
  shows "\<exists>d'. expandIfNeeded d = Inr (DICT_OK, d') \<and> rehash_keeps hf d d' \<and>
    ht_table (ht0 d') \<noteq> None \<and> grow_decision d d' \<and>
    (\<not> isRehashing d' \<longrightarrow> unat (ht_used (ht0 d')) div unat (ht_size (ht0 d')) \<le> 5)"
proof -
  note wf = dict_invD [OF inv]
  consider (re) "isRehashing d"
    | (init) "\<not> isRehashing d" "ht_size (ht0 d) = 0"
    | (big) "\<not> isRehashing d" "ht_size (ht0 d) \<noteq> 0" "ht_used (ht0 d) div ht_size (ht0 d) > maxLoadFactor"
    | (small) "\<not> isRehashing d" "ht_size (ht0 d) \<noteq> 0" "\<not> ht_used (ht0 d) div ht_size (ht0 d) > maxLoadFactor"
    by blast
  then show ?thesis
  proof cases
    case re
    then show ?thesis using rehashing_tables [OF inv re]
      by (auto simp: expandIfNeeded_def grow_decision_def rehash_keeps_refl [OF inv])
  next
    case init
    have none: "ht_table (ht0 d) = None"
    proof (rule ccontr)
      assume "ht_table (ht0 d) \<noteq> None"
      then obtain t where "ht_table (ht0 d) = Some t" by blast
      then obtain j where "j \<le> 31" "ht_size (ht0 d) = 2 ^ j" using ht_wf_SomeD(5) [OF wf(1)] by blast
      with init(2) unat_2_power [of j] show False by simp
    qed
    then have e: "ht_entries (ht0 d) = []" "ht_used (ht0 d) = 0"
      using wf(1) by (simp_all add: ht_entries_def ht_wf_def)
    obtain j where j: "nextPower HASHTABLE_INIT_SIZE = Inr (2 ^ j)" "2 \<le> j" "j = 2 \<or> 2 ^ (j - 1) < (4 :: nat)"
      using nextPower_spec [of HASHTABLE_INIT_SIZE] by (auto simp: HASHTABLE_INIT_SIZE_def LONG_MAX_def)
    have "j = 2"
    proof (rule ccontr)
      assume "j \<noteq> 2"
      then have "2 ^ 2 \<le> (2::nat) ^ (j - 1)" using j(2) by (intro power_increasing) simp_all
      with j(3) \<open>j \<noteq> 2\<close> show False by simp
    qed
    let ?d = "d\<lparr>ht0 := dictht_alloc (2 ^ j)\<rparr>"
    have "rehash_keeps hf d ?d"
      by (rule rehash_keeps_invI [OF inv])
        (use init e wf inv dictht_alloc_wf [of j hf] \<open>j = 2\<close> in \<open>auto simp: dict_entries_def
          rehash_state_ok_def isRehashing_def dict_inv_def\<close>)
    moreover have "(2::64 word) ^ j \<noteq> 0" using unat_2_power [of j] \<open>j = 2\<close> by simp
    then have "expandIfNeeded d = Inr (DICT_OK, ?d)"
      using init e none j(1) by (simp add: expandIfNeeded_def expand_def dictht_alloc_def)
    moreover have "grow_decision d ?d" using init \<open>j = 2\<close> by (simp add: grow_decision_def)
    ultimately show ?thesis by (simp add: dictht_alloc_def)
  next
    case big
    then obtain t where t: "ht_table (ht0 d) = Some t" using wf(1) by (auto simp: ht_wf_def split: option.splits)
    let ?u = "unat (ht_used (ht0 d))" and ?s = "unat (ht_size (ht0 d))"
    have u: "?u < 2 ^ 29" using ht_wf_SomeD(4) [OF wf(1) t] room by (simp add: dict_entries_def)
    have "5 < ?u div ?s" using big(3) by (simp add: maxLoadFactor_def word_less_nat_alt unat_div)
    then have "?s * 6 \<le> ?s * (?u div ?s)" by (intro mult_le_mono2) simp
    moreover have "?s * (?u div ?s) \<le> ?u" by simp
    ultimately have s6: "?s * 6 \<le> ?u" by (rule order_trans)
    have s0: "0 < ?s" using big(2) by (simp add: unat_gt_0)
    with s6 have us: "?s < ?u" by simp
    have u2: "unat (ht_used (ht0 d) * 2) = ?u * 2"
      using u by (subst unat_mult_lem [THEN iffD1]) simp_all
    have "ht_used (ht0 d) * 2 < LONG_MAX" using u u2 by (simp add: LONG_MAX_def word_less_nat_alt)
    then obtain j where j: "nextPower (ht_used (ht0 d) * 2) = Inr (2 ^ j)" "j \<le> 63" "?u * 2 \<le> 2 ^ j"
      "j = 2 \<or> 2 ^ (j - 1) < ?u * 2" using nextPower_spec u2 by metis
    have j31: "j \<le> 31"
    proof (rule ccontr)
      assume "\<not> j \<le> 31"
      then have "2 ^ 31 \<le> (2::nat) ^ (j - 1)" by (intro power_increasing) simp_all
      with j(4) \<open>\<not> j \<le> 31\<close> u show False by simp
    qed
    have ne: "2 ^ j \<noteq> ht_size (ht0 d)"
      using unat_2_power [of j] j31 j(3) us by auto
    have le: "\<not> ht_used (ht0 d) > ht_used (ht0 d) * 2" using u2 by (simp add: word_less_nat_alt)
    let ?d = "d\<lparr>ht1 := dictht_alloc (2 ^ j), rehashidx := 0\<rparr>"
    have "rehash_keeps hf d ?d"
      by (rule rehash_keeps_invI [OF inv])
        (use big(1) wf t dict_entries_not_rehashing [OF inv] j31 in
          \<open>auto simp: dict_entries_def rehash_state_ok_def isRehashing_def intro: dictht_alloc_wf\<close>)
    moreover have "expandIfNeeded d = Inr (DICT_OK, ?d)"
      using big j(1) ne le t by (simp add: expandIfNeeded_def expand_def dictht_alloc_def)
    moreover have "(2::nat) ^ j < 4 * ?u"
    proof (cases "j = 2")
      case False
      then have "(2::nat) ^ j = 2 * 2 ^ (j - 1)" using j(3) us by (cases j) auto
      then show ?thesis using j(4) False by simp
    qed (use s6 s0 in simp)
    then have "grow_decision d ?d" using big(1) s0 s6 j(3) by (auto simp: grow_decision_def intro!: exI [of _ j])
    ultimately show ?thesis using t by (simp add: isRehashing_def)
  next
    case small
    then have "ht_table (ht0 d) \<noteq> None" using wf(1) by (auto simp: ht_wf_def split: option.splits)
    moreover have div: "unat (ht_used (ht0 d)) div unat (ht_size (ht0 d)) \<le> 5"
      using small(3) by (simp add: maxLoadFactor_def word_less_nat_alt unat_div not_less)
    moreover have "unat (ht_used (ht0 d)) < 6 * unat (ht_size (ht0 d))"
      using div small(2) less_mult_imp_div_less [of _ 6] div_less_iff_less_mult [of "unat (ht_size (ht0 d))" "unat (ht_used (ht0 d))" 6]
      by (simp add: unat_gt_0)
    ultimately show ?thesis
      using small by (auto simp: expandIfNeeded_def grow_decision_def rehash_keeps_refl [OF inv])
  qed
qed

section \<open>Looking up\<close>

lemma find_chain_spec:
  "chain_ok c \<Longrightarrow> \<exists>p. find_chain k n c = Inr p \<and>
     (case p of None \<Rightarrow> k \<notin> fst ` set (chain_list c)
      | Some q \<Rightarrow> \<exists>j v. q = n + j \<and> j < length (chain_list c) \<and> chain_list c ! j = (k, v))"
proof (induction c arbitrary: n)
  case (Entry k' v c)
  show ?case
  proof (cases "k = k'")
    case True
    then show ?thesis by auto
  next
    case False
    from Entry obtain p where p: "find_chain k (n + 1) c = Inr p"
      "case p of None \<Rightarrow> k \<notin> fst ` set (chain_list c)
       | Some q \<Rightarrow> \<exists>j v. q = n + 1 + j \<and> j < length (chain_list c) \<and> chain_list c ! j = (k, v)"
      by fastforce
    then show ?thesis using False
      by (cases p) (auto intro!: exI [where P = "\<lambda>j. Suc _ = _ + j \<and> _ j", OF conjI])
  qed
qed auto

text \<open>What it means that a place holds an entry.\<close>

definition loc_holds :: "('k, 'v) dict \<Rightarrow> entry_loc \<Rightarrow> 'k \<Rightarrow> 'v \<Rightarrow> bool" where
  "loc_holds d l k v \<longleftrightarrow> loc_table l \<le> 1 \<and> (\<exists>t b. ht_table (get_ht (loc_table l) d) = Some t \<and>
     loc_bucket l = int b \<and> b < length t \<and> loc_pos l < length (chain_list (t ! b)) \<and>
     chain_list (t ! b) ! loc_pos l = (k, v))"

lemma key_in_bucket:
  assumes "ht_wf hf h" "ht_table h = Some t" "k \<in> fst ` set (ht_entries h)"
  shows "k \<in> fst ` set (chain_list (t ! key_bucket hf h k))"
proof -
  from assms(2,3) obtain c where c: "c \<in> set t" "k \<in> fst ` set (chain_list c)"
    by (auto simp: ht_entries_def)
  then obtain i where i: "i < length t" "t ! i = c" by (auto simp: in_set_conv_nth)
  with ht_wf_SomeD(3) [OF assms(1,2) i(1)] c(2) have "i = key_bucket hf h k"
    by (auto simp: bucket_ok_def key_bucket_def)
  with c i show ?thesis by simp
qed

lemma ht_entries_mem:
  "ht_table h = Some t \<Longrightarrow> b < length t \<Longrightarrow> set (chain_list (t ! b)) \<subseteq> set (ht_entries h)"
  by (auto simp: ht_entries_def intro!: bexI [OF _ nth_mem])

lemma keyIndex_table_spec:
  assumes "ht_wf hf (get_ht t d)" "ht_table (get_ht t d) = Some tb" "t \<le> 1"
  shows "\<exists>p. keyIndex_table k (hash32 hf k) t d =
      Inr (bucket_index (hash32 hf k) (ht_sizemask (get_ht t d)), p) \<and>
    (case p of None \<Rightarrow> k \<notin> fst ` set (ht_entries (get_ht t d))
     | Some l \<Rightarrow> \<exists>v. loc_holds d l k v \<and> (k, v) \<in> set (ht_entries (get_ht t d)))"
proof -
  let ?h = "get_ht t d"
  let ?b = "key_bucket hf ?h k"
  note kb = key_bucket_in [OF assms(1,2), of k]
  have "chain_ok (tb ! ?b)" using ht_wf_SomeD(3) [OF assms(1,2) kb(1)] by (simp add: bucket_ok_def)
  then obtain p where p: "find_chain k 0 (tb ! ?b) = Inr p"
    "case p of None \<Rightarrow> k \<notin> fst ` set (chain_list (tb ! ?b))
     | Some q \<Rightarrow> \<exists>j v. q = 0 + j \<and> j < length (chain_list (tb ! ?b)) \<and> chain_list (tb ! ?b) ! j = (k, v)"
    using find_chain_spec [of "tb ! ?b" k 0] by blast
  have eq: "keyIndex_table k (hash32 hf k) t d =
      Inr (bucket_index (hash32 hf k) (ht_sizemask ?h), map_option (Loc t (int ?b)) p)"
    using p(1) assms(2) kb(1) by (simp add: keyIndex_table_def Let_def flip: kb(2))
  show ?thesis
  proof (cases p)
    case None
    with p(2) key_in_bucket [OF assms(1,2)] eq show ?thesis by auto
  next
    case (Some q)
    with p(2) obtain v where v: "q < length (chain_list (tb ! ?b))" "chain_list (tb ! ?b) ! q = (k, v)"
      by auto
    then have "(k, v) \<in> set (chain_list (tb ! ?b))" by (metis nth_mem)
    then have "(k, v) \<in> set (ht_entries ?h)" using ht_entries_mem [OF assms(2) kb(1)] by blast
    moreover have "loc_holds d (Loc t (int ?b) q) k v"
      using v assms kb(1) by (auto simp: loc_holds_def)
    ultimately show ?thesis using eq Some by auto
  qed
qed

lemma dict_map_mem:
  "dict_inv hf d \<Longrightarrow> dict_map d k = Some v \<longleftrightarrow> (k, v) \<in> set (dict_entries d)"
  by (simp add: dict_map_def dict_inv_def)

lemma dict_map_None:
  "dict_map d k = None \<longleftrightarrow> k \<notin> fst ` set (ht_entries (ht0 d)) \<and> k \<notin> fst ` set (ht_entries (ht1 d))"
  by (simp add: dict_map_def dict_entries_def map_of_eq_None_iff image_Un)

lemma get_ht_simps [simp]: "get_ht 0 d = ht0 d" "get_ht 1 d = ht1 d" "get_ht (Suc t) d = ht1 d"
  by (simp_all add: get_ht_def)

lemma set_ht_simps [simp]:
  "set_ht 0 h d = d\<lparr>ht0 := h\<rparr>" "set_ht 1 h d = d\<lparr>ht1 := h\<rparr>" "set_ht (Suc t) h d = d\<lparr>ht1 := h\<rparr>"
  by (simp_all add: set_ht_def)

text \<open>The table a new entry goes to, and \<open>keyIndex\<close>.\<close>

definition insert_table :: "('k, 'v) dict \<Rightarrow> nat" where
  "insert_table d = (if isRehashing d then 1 else 0)"

lemma keyIndex_spec:
  assumes inv: "dict_inv hf d" and room: "length (dict_entries d) < 2 ^ 29"
  shows "\<exists>d1. rehash_keeps hf d d1 \<and> ht_table (get_ht (insert_table d1) d1) \<noteq> None \<and>
    (\<not> isRehashing d1 \<longrightarrow> unat (ht_used (ht0 d1)) div unat (ht_size (ht0 d1)) \<le> 5) \<and>
    (case dict_map d k of
       Some v \<Rightarrow> \<exists>l. keyIndex k (hash32 hf k) d = Inr (-1, Some l, d1) \<and> loc_holds d1 l k v
     | None \<Rightarrow> keyIndex k (hash32 hf k) d =
         Inr (int (key_bucket hf (get_ht (insert_table d1) d1) k), None, d1))"
proof -
  obtain d1 where d1: "expandIfNeeded d = Inr (DICT_OK, d1)" "rehash_keeps hf d d1"
    "ht_table (ht0 d1) \<noteq> None"
    "\<not> isRehashing d1 \<longrightarrow> unat (ht_used (ht0 d1)) div unat (ht_size (ht0 d1)) \<le> 5"
    using expandIfNeeded_spec [OF inv room] by blast
  then obtain t0 where t0: "ht_table (ht0 d1) = Some t0" by blast
  have inv1: "dict_inv hf d1" using d1(2) by (simp add: rehash_keeps_def)
  note wf = dict_invD [OF inv1]
  have map: "dict_map d = dict_map d1" using rehash_keeps_map [OF inv d1(2)] by simp
  have ok: "DICT_OK \<noteq> DICT_ERR" by (simp add: DICT_OK_def DICT_ERR_def)
  obtain p0 where p0: "keyIndex_table k (hash32 hf k) 0 d1 =
      Inr (bucket_index (hash32 hf k) (ht_sizemask (ht0 d1)), p0)"
    "case p0 of None \<Rightarrow> k \<notin> fst ` set (ht_entries (ht0 d1))
     | Some l \<Rightarrow> \<exists>v. loc_holds d1 l k v \<and> (k, v) \<in> set (ht_entries (ht0 d1))"
    using keyIndex_table_spec [of hf 0 d1 t0 k, unfolded get_ht_simps] wf(1) t0 by auto
  have found: ?thesis if "loc_holds d1 l k v" "(k, v) \<in> set (dict_entries d1)"
    "keyIndex k (hash32 hf k) d = Inr (-1, Some l, d1)"
    "ht_table (get_ht (insert_table d1) d1) \<noteq> None" for l v
    using that d1 map dict_map_mem [OF inv1, of k v] by auto
  show ?thesis
  proof (cases "isRehashing d1")
    case False
    have e1: "ht_entries (ht1 d1) = []" using dict_entries_not_rehashing [OF inv1 False] by simp
    show ?thesis
    proof (cases p0)
      case None
      then have "dict_map d k = None" using p0(2) e1 map by (simp add: dict_map_None)
      moreover have "keyIndex k (hash32 hf k) d = Inr (int (key_bucket hf (ht0 d1) k), None, d1)"
        using d1(1) p0(1) None False ok key_bucket_in(3) [OF wf(1) t0, of k]
        by (simp add: keyIndex_def)
      ultimately show ?thesis using d1 t0 False by (auto simp: insert_table_def)
    next
      case (Some l)
      then obtain v where v: "loc_holds d1 l k v" "(k, v) \<in> set (ht_entries (ht0 d1))"
        using p0(2) by auto
      then show ?thesis using p0(1) Some d1(1) ok t0 False
        by (intro found [OF v(1)]) (simp_all add: keyIndex_def dict_entries_def insert_table_def)
    qed
  next
    case True
    obtain t1 where t1: "ht_table (ht1 d1) = Some t1" using rehashing_tables [OF inv1 True] by metis
    obtain p1 where p1: "keyIndex_table k (hash32 hf k) 1 d1 =
        Inr (bucket_index (hash32 hf k) (ht_sizemask (ht1 d1)), p1)"
      "case p1 of None \<Rightarrow> k \<notin> fst ` set (ht_entries (ht1 d1))
       | Some l \<Rightarrow> \<exists>v. loc_holds d1 l k v \<and> (k, v) \<in> set (ht_entries (ht1 d1))"
      using keyIndex_table_spec [of hf 1 d1 t1 k, unfolded get_ht_simps] wf(2) t1 by auto
    have tab: "ht_table (get_ht (insert_table d1) d1) \<noteq> None" using t1 True by (simp add: insert_table_def)
    show ?thesis
    proof (cases p0)
      case None
      show ?thesis
      proof (cases p1)
        case None
        then have "dict_map d k = None" using p0(2) p1(2) \<open>p0 = None\<close> map by (simp add: dict_map_None)
        moreover have "keyIndex k (hash32 hf k) d = Inr (int (key_bucket hf (ht1 d1) k), None, d1)"
          using d1(1) p0(1) p1(1) None \<open>p0 = None\<close> True ok key_bucket_in(3) [OF wf(2) t1, of k]
          by (simp add: keyIndex_def)
        ultimately show ?thesis using d1 t1 True by (auto simp: insert_table_def)
      next
        case (Some l)
        then obtain v where v: "loc_holds d1 l k v" "(k, v) \<in> set (ht_entries (ht1 d1))"
          using p1(2) by auto
        then show ?thesis using p0(1) p1(1) Some \<open>p0 = None\<close> d1(1) ok True tab
          by (intro found [OF v(1)]) (simp_all add: keyIndex_def dict_entries_def)
      qed
    next
      case (Some l)
      then obtain v where v: "loc_holds d1 l k v" "(k, v) \<in> set (ht_entries (ht0 d1))"
        using p0(2) by auto
      then show ?thesis using p0(1) Some d1(1) ok tab
        by (intro found [OF v(1)]) (simp_all add: keyIndex_def dict_entries_def)
    qed
  qed
qed

section \<open>Changing one bucket of a table\<close>

lemma map_of_add:
  assumes "distinct (map fst es)" "mset es' = mset es + {#(k, v)#}" "map_of es k = None"
  shows "distinct (map fst es')" "map_of es' = (map_of es)(k \<mapsto> v)"
proof -
  have "distinct (map fst ((k, v) # es))" using assms(1,3) by (simp add: map_of_eq_None_iff)
  moreover have "mset ((k, v) # es) = mset es'" using assms(2) by simp
  ultimately show "distinct (map fst es')" "map_of es' = (map_of es)(k \<mapsto> v)"
    using map_of_mset by (blast, metis map_of.simps(2) fst_conv snd_conv map_of_mset(2))
qed

lemma map_of_del:
  assumes "distinct (map fst es)" "mset es' + {#(k, v)#} = mset es"
  shows "distinct (map fst es')" "map_of es' = (map_of es)(k := None)" "map_of es k = Some v"
proof -
  have "mset es = mset ((k, v) # es')" using assms(2) by simp
  note m = map_of_mset [OF assms(1) this]
  from m(1) show "distinct (map fst es')" by simp
  from m(1) have "map_of es' k = None" by (simp add: map_of_eq_None_iff)
  with m(2) show "map_of es' = (map_of es)(k := None)" by (auto simp: fun_eq_iff)
  from m(2) show "map_of es k = Some v" by simp
qed

lemma map_of_set:
  assumes "distinct (map fst es)" "mset es' + {#(k, v)#} = mset es + {#(k, x)#}" "(k, v) \<in> set es"
  shows "distinct (map fst es')" "map_of es' = (map_of es)(k \<mapsto> x)"
proof -
  define r where "r = remove1 (k, v) es"
  have r: "mset r + {#(k, v)#} = mset es" using assms(3) by (simp add: r_def)
  note d = map_of_del [OF assms(1) r]
  have "mset es' + {#(k, v)#} = mset r + {#(k, x)#} + {#(k, v)#}"
    using assms(2) r by (simp add: add_mset_commute flip: r)
  then have "mset es' = mset r + {#(k, x)#}" by simp
  note a = map_of_add [OF d(1) this]
  from a d show "distinct (map fst es')" "map_of es' = (map_of es)(k \<mapsto> x)" by simp_all
qed

text \<open>Replacing the chain of one bucket, in one of the tables.\<close>

definition upd_bucket ::
  "nat \<Rightarrow> nat \<Rightarrow> ('k, 'v) dictEntry \<Rightarrow> 64 word \<Rightarrow> ('k, 'v) dict \<Rightarrow> ('k, 'v) dict" where
  "upd_bucket t b c u d = set_ht t ((get_ht t d)\<lparr>
     ht_table := map_option (\<lambda>tb. tb[b := c]) (ht_table (get_ht t d)), ht_used := u\<rparr>) d"

lemma upd_bucket:
  assumes inv: "dict_inv hf d" and t: "t \<le> 1" "ht_table (get_ht t d) = Some tb" "b < length tb"
    and c: "bucket_ok hf (ht_sizemask (get_ht t d)) b c"
      "unat u + length (chain_list (tb ! b)) = unat (ht_used (get_ht t d)) + length (chain_list c)"
    and ne: "isRehashing d \<Longrightarrow> t = 0 \<Longrightarrow> tb ! b \<noteq> Nullptr"
  shows "ht_wf hf (ht0 (upd_bucket t b c u d))" "ht_wf hf (ht1 (upd_bucket t b c u d))"
    "rehash_state_ok (upd_bucket t b c u d)"
    "mset (dict_entries (upd_bucket t b c u d)) + mset (chain_list (tb ! b)) =
     mset (dict_entries d) + mset (chain_list c)"
    "rehashidx (upd_bucket t b c u d) = rehashidx d" "iterators (upd_bucket t b c u d) = iterators d"
proof -
  note wf = dict_invD [OF inv]
  have r: "rehash_state_ok d" using inv by (simp add: dict_inv_def)
  consider "t = 0" | "t = 1" using t(1) by linarith
  then have "ht_wf hf (ht0 (upd_bucket t b c u d)) \<and> ht_wf hf (ht1 (upd_bucket t b c u d)) \<and>
    rehash_state_ok (upd_bucket t b c u d) \<and>
    mset (dict_entries (upd_bucket t b c u d)) + mset (chain_list (tb ! b)) =
     mset (dict_entries d) + mset (chain_list c)"
  proof cases
    case 1
    have "i \<noteq> b" if "isRehashing d" "i < nat (rehashidx d)" for i
      using that r t ne 1 by (auto simp: rehash_state_ok_def)
    then have "rehash_state_ok (upd_bucket t b c u d)"
      using r 1 t by (auto simp: rehash_state_ok_def upd_bucket_def isRehashing_def nth_list_update)
    then show ?thesis using ht_upd [OF wf(1), of tb b c u] 1 t c wf
      by (simp add: upd_bucket_def dict_entries_def)
  next
    case 2
    then have "isRehashing d"
      using t dict_entries_not_rehashing [OF inv] by (cases "isRehashing d") auto
    then have "rehash_state_ok (upd_bucket t b c u d)"
      using r 2 t by (auto simp: rehash_state_ok_def upd_bucket_def isRehashing_def)
    then show ?thesis using ht_upd [OF wf(2), of tb b c u] 2 t c wf
      by (simp add: upd_bucket_def dict_entries_def)
  qed
  then show "ht_wf hf (ht0 (upd_bucket t b c u d))" "ht_wf hf (ht1 (upd_bucket t b c u d))"
    "rehash_state_ok (upd_bucket t b c u d)"
    "mset (dict_entries (upd_bucket t b c u d)) + mset (chain_list (tb ! b)) =
     mset (dict_entries d) + mset (chain_list c)" by blast+
  show "rehashidx (upd_bucket t b c u d) = rehashidx d" "iterators (upd_bucket t b c u d) = iterators d"
    by (simp_all add: upd_bucket_def set_ht_def)
qed

lemma upd_bucket_table:
  "t \<le> 1 \<Longrightarrow> ht_table (get_ht t (upd_bucket t b c u d)) =
     map_option (\<lambda>tb. tb[b := c]) (ht_table (get_ht t d))"
  by (auto simp: upd_bucket_def le_Suc_eq)

section \<open>Reading and writing the value of an entry\<close>

lemma chain_value_nth:
  "chain_ok c \<Longrightarrow> p < length (chain_list c) \<Longrightarrow> chain_value p c = Inr (snd (chain_list c ! p))"
proof (induction c arbitrary: p)
  case (Entry k v c)
  then show ?case by (cases p) simp_all
qed simp_all

lemma chain_set_value_nth:
  "chain_ok c \<Longrightarrow> p < length (chain_list c) \<Longrightarrow>
   \<exists>c'. chain_set_value p x c = Inr c' \<and> chain_ok c' \<and>
        chain_list c' = (chain_list c)[p := (fst (chain_list c ! p), x)]"
proof (induction c arbitrary: p)
  case (Entry k v c)
  then show ?case by (cases p) fastforce+
qed simp_all

lemma loc_holdsE:
  assumes "loc_holds d l k v" "dict_inv hf d"
  obtains t b tb where "loc_table l = t" "t \<le> 1" "ht_table (get_ht t d) = Some tb"
    "loc_bucket l = int b" "b < length tb" "loc_pos l < length (chain_list (tb ! b))"
    "chain_list (tb ! b) ! loc_pos l = (k, v)" "chain_ok (tb ! b)"
    "bucket_ok hf (ht_sizemask (get_ht t d)) b (tb ! b)" "loc_chain l d = Inr (tb ! b)"
    "(k, v) \<in> set (dict_entries d)"
proof -
  from assms(1) obtain tb b where l: "loc_table l \<le> 1" "ht_table (get_ht (loc_table l) d) = Some tb"
    "loc_bucket l = int b" "b < length tb" "loc_pos l < length (chain_list (tb ! b))"
    "chain_list (tb ! b) ! loc_pos l = (k, v)"
    by (auto simp: loc_holds_def)
  have wf: "ht_wf hf (get_ht (loc_table l) d)"
    using dict_invD [OF assms(2)] by (simp add: get_ht_def)
  have b: "bucket_ok hf (ht_sizemask (get_ht (loc_table l) d)) b (tb ! b)"
    using ht_wf_SomeD(3) [OF wf l(2,4)] .
  have "(k, v) \<in> set (chain_list (tb ! b))" using l(5,6) by (metis nth_mem)
  then have "(k, v) \<in> set (ht_entries (get_ht (loc_table l) d))"
    using ht_entries_mem [OF l(2,4)] by blast
  then have "(k, v) \<in> set (dict_entries d)"
    by (auto simp: dict_entries_def get_ht_def split: if_splits)
  with l b show ?thesis by (intro that) (auto simp: loc_chain_def bucket_ok_def)
qed

lemma loc_holds_map:
  assumes "loc_holds d l k v" "dict_inv hf d"
  shows "dict_map d k = Some v"
  using assms loc_holdsE dict_map_mem by metis

lemma getValue_spec:
  assumes "loc_holds d l k v" "dict_inv hf d"
  shows "getValue l d = Inr v"
  using assms by (elim loc_holdsE) (auto simp: getValue_def chain_value_nth)

lemma mset_exchange:
  fixes a :: "'a multiset"
  assumes "a + b = c + d" "d + x = b + y"
  shows "a + x = c + y"
proof -
  have "(a + x) + (b + d) = (a + b) + (d + x)" by (simp add: ac_simps)
  also have "\<dots> = (c + y) + (b + d)" unfolding assms by (simp add: ac_simps)
  finally show ?thesis by simp
qed

lemma setValue_spec:
  assumes l: "loc_holds d l k v" and inv: "dict_inv hf d"
  shows "\<exists>d'. setValue l x d = Inr d' \<and> dict_inv hf d' \<and> dict_map d' = (dict_map d)(k \<mapsto> x) \<and>
    loc_holds d' l k x \<and> isRehashing d' = isRehashing d \<and>
    length (dict_entries d') = length (dict_entries d) \<and> iterators d' = iterators d"
proof -
  obtain t b tb where lt: "loc_table l = t" "t \<le> 1" and tb: "ht_table (get_ht t d) = Some tb"
    and lb: "loc_bucket l = int b" and b: "b < length tb" and p: "loc_pos l < length (chain_list (tb ! b))"
    "chain_list (tb ! b) ! loc_pos l = (k, v)" "chain_ok (tb ! b)"
    and bo: "bucket_ok hf (ht_sizemask (get_ht t d)) b (tb ! b)" and lc: "loc_chain l d = Inr (tb ! b)"
    and mem: "(k, v) \<in> set (dict_entries d)"
    using loc_holdsE [OF l inv] by metis
  obtain c where c: "chain_set_value (loc_pos l) x (tb ! b) = Inr c" "chain_ok c"
    "chain_list c = (chain_list (tb ! b))[loc_pos l := (k, x)]"
    using chain_set_value_nth [OF p(3,1)] p(2) by (metis fst_conv)
  let ?u = "ht_used (get_ht t d)"
  let ?d = "upd_bucket t b c ?u d"
  have keys: "fst ` set (chain_list c) = fst ` set (chain_list (tb ! b))"
  proof -
    have "map fst (chain_list c) = map fst (chain_list (tb ! b))"
      using c(3) p(1,2) by (simp add: map_update list_update_same_conv)
    then show ?thesis by (metis list.set_map)
  qed
  have bc: "bucket_ok hf (ht_sizemask (get_ht t d)) b c"
    using bo c(2) keys by (simp add: bucket_ok_def)
  have u: "unat ?u + length (chain_list (tb ! b)) = unat ?u + length (chain_list c)"
    using c(3) by simp
  have ne: "tb ! b \<noteq> Nullptr" using p(1) by auto
  note up = upd_bucket [OF inv lt(2) tb b bc u ne]
  have "mset (chain_list c) + {#(k, v)#} = mset (chain_list (tb ! b)) + {#(k, x)#}"
    using c(3) p(1,2) nth_mem [OF p(1)] by (simp add: mset_update)
  with up(4) have m: "mset (dict_entries ?d) + {#(k, v)#} = mset (dict_entries d) + {#(k, x)#}"
    by (rule mset_exchange)
  then have len: "length (dict_entries ?d) = length (dict_entries d)"
    by (metis add_right_cancel size_mset size_single size_union)
  note s = map_of_set [OF dict_invD(3) [OF inv] m mem]
  have inv': "dict_inv hf ?d" using up s(1) len inv by (simp add: dict_inv_def)
  have "setValue l x d = Inr ?d"
    using lc c(1) lt tb lb b by (auto simp: setValue_def set_loc_chain_def upd_bucket_def set_ht_def)
  moreover have "loc_holds ?d l k x"
    using lt tb lb b c(3) p(1) by (auto simp: loc_holds_def upd_bucket_table)
  ultimately show ?thesis
    using inv' s(2) up(5,6) len by (auto simp: dict_map_def isRehashing_def)
qed

section \<open>The operations on the map\<close>

definition dict_card :: "('k, 'v) dict \<Rightarrow> nat" where
  "dict_card d = length (dict_entries d)"

lemma rehash_keeps_card: "rehash_keeps hf d d' \<Longrightarrow> dict_card d' = dict_card d"
  by (auto simp: rehash_keeps_def dict_card_def dest: mset_eq_length)

lemma dict_card_dom: "dict_inv hf d \<Longrightarrow> dict_card d = card (dom (dict_map d))"
proof -
  assume "dict_inv hf d"
  then have "card (set (map fst (dict_entries d))) = length (map fst (dict_entries d))"
    by (intro distinct_card) (simp add: dict_inv_def)
  then show ?thesis by (simp add: dict_card_def dict_map_def dom_map_of_conv_image_fst)
qed

lemma insert_new:
  assumes inv: "dict_inv hf d" and tab: "ht_table (get_ht (insert_table d) d) \<noteq> None"
    and new: "dict_map d k = None" and room: "dict_card d < 2 ^ 29"
  defines "t \<equiv> insert_table d"
  defines "b \<equiv> key_bucket hf (get_ht t d) k"
  shows "\<exists>d' c h. ht_bucket (get_ht t d) (int b) = Inr c \<and>
    ht_set_bucket (get_ht t d) (int b) (Entry k x c) = Inr h \<and>
    set_ht t (h\<lparr>ht_used := ht_used h + 1\<rparr>) d = d' \<and> dict_inv hf d' \<and>
    dict_map d' = (dict_map d)(k \<mapsto> x) \<and> loc_holds d' (Loc t (int b) 0) k x \<and>
    dict_card d' = dict_card d + 1 \<and> isRehashing d' = isRehashing d \<and> iterators d' = iterators d"
proof -
  have t: "t \<le> 1" by (simp add: t_def insert_table_def)
  obtain tb where tb: "ht_table (get_ht t d) = Some tb" using tab by (auto simp: t_def)
  have wf: "ht_wf hf (get_ht t d)" using dict_invD [OF inv] by (simp add: get_ht_def)
  have b: "b < length tb" using key_bucket_in [OF wf tb] by (simp add: b_def)
  let ?c = "Entry k x (tb ! b)"
  let ?u = "ht_used (get_ht t d) + 1"
  let ?d = "upd_bucket t b ?c ?u d"
  have bc: "bucket_ok hf (ht_sizemask (get_ht t d)) b ?c"
    using ht_wf_SomeD(3) [OF wf tb b] by (simp add: bucket_ok_push b_def key_bucket_def)
  have "unat (ht_used (get_ht t d)) \<le> dict_card d"
    using ht_wf_SomeD(4) [OF wf tb] by (simp add: dict_card_def dict_entries_def get_ht_def split: if_splits)
  then have u: "unat ?u + length (chain_list (tb ! b)) =
      unat (ht_used (get_ht t d)) + length (chain_list ?c)"
    using room by (simp add: unat_plus_1)
  have ne: "isRehashing d \<Longrightarrow> t = 0 \<Longrightarrow> tb ! b \<noteq> Nullptr" by (simp add: t_def insert_table_def)
  note up = upd_bucket [OF inv t tb b bc u ne]
  have m: "mset (dict_entries ?d) = mset (dict_entries d) + {#(k, x)#}"
    using up(4) by (simp add: ac_simps)
  note a = map_of_add [OF dict_invD(3) [OF inv] m new [unfolded dict_map_def]]
  have card: "dict_card ?d = dict_card d + 1"
    unfolding dict_card_def by (metis m size_mset size_single size_union)
  have "dict_inv hf ?d" using up a(1) card room by (simp add: dict_inv_def dict_card_def)
  moreover have "loc_holds ?d (Loc t (int b) 0) k x"
    using t tb b by (simp add: loc_holds_def upd_bucket_table)
  moreover have "set_ht t ((get_ht t d)\<lparr>ht_table := Some (tb[b := ?c]), ht_used := ?u\<rparr>) d = ?d"
    using tb by (simp add: upd_bucket_def)
  ultimately show ?thesis using tb b a(2) up(5,6) card
    by (simp add: dict_map_def isRehashing_def)
qed

lemma insertRaw_spec:
  assumes inv: "dict_inv hf d" and room: "dict_card d < 2 ^ 29"
  shows "\<exists>d'. dict_inv hf d' \<and> iterators d' = iterators d \<and> (case dict_map d k of
      Some v \<Rightarrow> \<exists>l. insertRaw hf dflt k d = Inr (None, Some l, d') \<and> loc_holds d' l k v \<and>
        dict_map d' = dict_map d \<and> dict_card d' = dict_card d
    | None \<Rightarrow> \<exists>l. insertRaw hf dflt k d = Inr (Some l, None, d') \<and> loc_holds d' l k dflt \<and>
        dict_map d' = (dict_map d)(k \<mapsto> dflt) \<and> dict_card d' = dict_card d + 1)"
proof -
  obtain d1 where d1: "rehash_if_needed hf d = Inr d1" "rehash_keeps hf d d1"
    using rehash_if_needed_spec [OF inv] by blast
  have inv1: "dict_inv hf d1" using d1(2) by (simp add: rehash_keeps_def)
  have map1: "dict_map d1 = dict_map d" "dict_card d1 = dict_card d"
    using rehash_keeps_map [OF inv d1(2)] rehash_keeps_card [OF d1(2)] by simp_all
  have "length (dict_entries d1) < 2 ^ 29" using map1 room by (simp add: dict_card_def)
  from keyIndex_spec [OF inv1 this, of k] obtain d2 where k2: "rehash_keeps hf d1 d2"
    "ht_table (get_ht (insert_table d2) d2) \<noteq> None"
    and ki: "case dict_map d1 k of
       Some v \<Rightarrow> \<exists>l. keyIndex k (hash32 hf k) d1 = Inr (-1, Some l, d2) \<and> loc_holds d2 l k v
     | None \<Rightarrow> keyIndex k (hash32 hf k) d1 =
         Inr (int (key_bucket hf (get_ht (insert_table d2) d2) k), None, d2)" by blast
  have inv2: "dict_inv hf d2" using k2(1) by (simp add: rehash_keeps_def)
  have map2: "dict_map d2 = dict_map d" "dict_card d2 = dict_card d"
    using rehash_keeps_map [OF inv1 k2(1)] rehash_keeps_card [OF k2(1)] map1 by simp_all
  have it: "iterators d2 = iterators d" using d1(2) k2(1) by (simp add: rehash_keeps_def)
  show ?thesis
  proof (cases "dict_map d k")
    case (Some v)
    then show ?thesis using ki d1(1) inv2 map1 map2 it by (auto simp: insertRaw_def)
  next
    case None
    let ?t = "insert_table d2"
    let ?b = "key_bucket hf (get_ht ?t d2) k"
    obtain d' c h where n: "ht_bucket (get_ht ?t d2) (int ?b) = Inr c"
      "ht_set_bucket (get_ht ?t d2) (int ?b) (Entry k dflt c) = Inr h"
      "set_ht ?t (h\<lparr>ht_used := ht_used h + 1\<rparr>) d2 = d'" "dict_inv hf d'"
      "dict_map d' = (dict_map d2)(k \<mapsto> dflt)" "loc_holds d' (Loc ?t (int ?b) 0) k dflt"
      "dict_card d' = dict_card d2 + 1" "iterators d' = iterators d2"
      using insert_new [OF inv2 k2(2), of k dflt] None map2 room by metis
    have "keyIndex k (hash32 hf k) d1 = Inr (int ?b, None, d2)" using ki None map1 by simp
    then have "insertRaw hf dflt k d = Inr (Some (Loc ?t (int ?b) 0), None, d')"
      using d1(1) n(1-3) by (simp add: insertRaw_def Let_def insert_table_def)
    then show ?thesis using None n(4-8) map2 it by auto
  qed
qed

lemma dict_insert_spec:
  assumes inv: "dict_inv hf d" and room: "dict_card d < 2 ^ 29"
  shows "\<exists>d'. dict_insert hf dflt k v d =
      Inr (if k \<in> dom (dict_map d) then DICT_ERR else DICT_OK, d') \<and> dict_inv hf d' \<and>
    dict_map d' = (if k \<in> dom (dict_map d) then dict_map d else (dict_map d)(k \<mapsto> v))"
proof -
  obtain d1 where d1: "dict_inv hf d1" "case dict_map d k of
      Some v \<Rightarrow> \<exists>l. insertRaw hf dflt k d = Inr (None, Some l, d1) \<and> loc_holds d1 l k v \<and>
        dict_map d1 = dict_map d \<and> dict_card d1 = dict_card d
    | None \<Rightarrow> \<exists>l. insertRaw hf dflt k d = Inr (Some l, None, d1) \<and> loc_holds d1 l k dflt \<and>
        dict_map d1 = (dict_map d)(k \<mapsto> dflt) \<and> dict_card d1 = dict_card d + 1"
    using insertRaw_spec [OF inv room, where k = k and dflt = dflt] by blast
  show ?thesis
  proof (cases "dict_map d k")
    case (Some x)
    then show ?thesis using d1 by (auto simp: dict_insert_def)
  next
    case None
    then obtain l where l: "insertRaw hf dflt k d = Inr (Some l, None, d1)" "loc_holds d1 l k dflt"
      "dict_map d1 = (dict_map d)(k \<mapsto> dflt)" using d1(2) by auto
    then show ?thesis using setValue_spec [OF l(2) d1(1), of v] None
      by (auto simp: dict_insert_def domIff)
  qed
qed

text \<open>\<open>operator[]\<close>: a place that holds the value of the key, inserted with the default if absent.\<close>

lemma dict_index_spec:
  assumes inv: "dict_inv hf d" and room: "dict_card d < 2 ^ 29"
  shows "\<exists>l d'. dict_index hf dflt k d = Inr (l, d') \<and> dict_inv hf d' \<and> iterators d' = iterators d \<and>
    loc_holds d' l k (case dict_map d k of Some v \<Rightarrow> v | None \<Rightarrow> dflt) \<and>
    dict_map d' = (case dict_map d k of Some v \<Rightarrow> dict_map d | None \<Rightarrow> (dict_map d)(k \<mapsto> dflt)) \<and>
    dict_card d' = dict_card d + (case dict_map d k of Some v \<Rightarrow> 0 | None \<Rightarrow> 1)"
  using insertRaw_spec [OF inv room, where k = k and dflt = dflt]
  by (cases "dict_map d k") (auto simp: dict_index_def)

lemma dict_size_eq:
  assumes "dict_inv hf d"
  shows "dict_size d = int (dict_card d)"
proof -
  note wf = dict_invD [OF assms]
  have used: "unat (ht_used h) = length (ht_entries h)" if "ht_wf hf h" for h :: "('a, 'b) dictht"
    using that by (auto simp: ht_wf_def ht_entries_def split: option.splits)
  have "unat (ht_used (ht0 d) + ht_used (ht1 d)) = dict_card d"
    using used [OF wf(1)] used [OF wf(2)] wf(4)
    by (subst unat_add_lem [THEN iffD1]) (simp_all add: dict_card_def dict_entries_def)
  moreover have c: "dict_card d < 2 ^ 31" using assms by (simp add: dict_inv_def dict_card_def)
  ultimately have "unat (ucast (ht_used (ht0 d) + ht_used (ht1 d)) :: 32 word) = dict_card d"
    by (simp add: unsigned_ucast_eq take_bit_nat_eq_self)
  with c show ?thesis by (simp add: dict_size_def sint_small)
qed

lemma dict_exist_spec:
  assumes inv: "dict_inv hf d"
  shows "\<exists>d'. dict_exist hf k d = Inr (k \<in> dom (dict_map d), d') \<and> rehash_keeps hf d d'"
proof (cases "dict_empty d")
  case True
  then have "dict_entries d = []" using dict_size_eq [OF inv] by (simp add: dict_empty_def dict_card_def)
  then show ?thesis using True inv by (simp add: dict_exist_def dict_map_def rehash_keeps_refl)
next
  case False
  obtain d1 where d1: "rehash_if_needed hf d = Inr d1" "rehash_keeps hf d d1"
    using rehash_if_needed_spec [OF inv] by blast
  have inv1: "dict_inv hf d1" using d1(2) by (simp add: rehash_keeps_def)
  have map1: "dict_map d1 = dict_map d" using rehash_keeps_map [OF inv d1(2)] .
  note wf = dict_invD [OF inv1]
  have "dict_entries d1 \<noteq> []"
    using False dict_size_eq [OF inv] rehash_keeps_card [OF d1(2)] by (auto simp: dict_empty_def dict_card_def)
  then have "ht_table (ht0 d1) \<noteq> None"
    using rehashing_tables [OF inv1] dict_entries_not_rehashing [OF inv1]
    by (cases "isRehashing d1") (auto simp: dict_entries_def ht_entries_def split: option.splits)
  then obtain t0 where t0: "ht_table (ht0 d1) = Some t0" by blast
  obtain p0 where p0: "keyIndex_table k (hash32 hf k) 0 d1 =
      Inr (bucket_index (hash32 hf k) (ht_sizemask (ht0 d1)), p0)"
    "case p0 of None \<Rightarrow> k \<notin> fst ` set (ht_entries (ht0 d1))
     | Some l \<Rightarrow> \<exists>v. loc_holds d1 l k v \<and> (k, v) \<in> set (ht_entries (ht0 d1))"
    using keyIndex_table_spec [of hf 0 d1 t0 k, unfolded get_ht_simps] wf(1) t0 by auto
  have dom: "k \<in> dom (dict_map d) \<longleftrightarrow>
      k \<in> fst ` set (ht_entries (ht0 d1)) \<or> k \<in> fst ` set (ht_entries (ht1 d1))"
    using dict_map_None [of d1 k] map1 by (auto simp: domIff)
  show ?thesis
  proof (cases "p0 = None \<and> isRehashing d1")
    case False
    then have "dict_exist hf k d = Inr (p0 \<noteq> None, d1)"
      using \<open>\<not> dict_empty d\<close> d1(1) p0(1) by (auto simp: dict_exist_def)
    moreover have "p0 \<noteq> None \<longleftrightarrow> k \<in> dom (dict_map d)"
    proof (cases p0)
      case None
      with False have "ht_entries (ht1 d1) = []" using dict_entries_not_rehashing [OF inv1] by simp
      with None p0(2) dom show ?thesis by simp
    next
      case (Some l)
      with p0(2) have "k \<in> fst ` set (ht_entries (ht0 d1))" by force
      with Some dom show ?thesis by simp
    qed
    ultimately show ?thesis using d1(2) by auto
  next
    case True
    then obtain t1 where t1: "ht_table (ht1 d1) = Some t1" using rehashing_tables [OF inv1] by metis
    obtain p1 where p1: "keyIndex_table k (hash32 hf k) 1 d1 =
        Inr (bucket_index (hash32 hf k) (ht_sizemask (ht1 d1)), p1)"
      "case p1 of None \<Rightarrow> k \<notin> fst ` set (ht_entries (ht1 d1))
       | Some l \<Rightarrow> \<exists>v. loc_holds d1 l k v \<and> (k, v) \<in> set (ht_entries (ht1 d1))"
      using keyIndex_table_spec [of hf 1 d1 t1 k, unfolded get_ht_simps] wf(2) t1 by auto
    have "dict_exist hf k d = Inr (p1 \<noteq> None, d1)"
      using \<open>\<not> dict_empty d\<close> True d1(1) p0(1) p1(1) by (simp add: dict_exist_def)
    moreover have "p1 \<noteq> None \<longleftrightarrow> k \<in> dom (dict_map d)"
    proof (cases p1)
      case None
      with p0(2) p1(2) True dom show ?thesis by simp
    next
      case (Some l)
      with p1(2) have "k \<in> fst ` set (ht_entries (ht1 d1))" by force
      with Some dom show ?thesis by simp
    qed
    ultimately show ?thesis using d1(2) by auto
  qed
qed

section \<open>Erasing\<close>

lemma chain_remove_spec:
  "chain_ok c \<Longrightarrow> \<exists>r. chain_remove k c = Inr r \<and> (case r of
     None \<Rightarrow> k \<notin> fst ` set (chain_list c)
   | Some c' \<Rightarrow> chain_ok c' \<and> (\<exists>v. mset (chain_list c) = mset (chain_list c') + {#(k, v)#}))"
proof (induction c)
  case (Entry k' v c)
  show ?case
  proof (cases "k = k'")
    case True
    with Entry.prems show ?thesis by auto
  next
    case False
    from Entry obtain r where r: "chain_remove k c = Inr r"
      "case r of None \<Rightarrow> k \<notin> fst ` set (chain_list c)
       | Some c' \<Rightarrow> chain_ok c' \<and> (\<exists>v. mset (chain_list c) = mset (chain_list c') + {#(k, v)#})"
      by auto
    then show ?thesis using False by (cases r) auto
  qed
qed auto

lemma ht0_allocated:
  assumes "dict_inv hf d" "dict_entries d \<noteq> []"
  obtains t0 where "ht_table (ht0 d) = Some t0"
proof (cases "isRehashing d")
  case True
  then show ?thesis using rehashing_tables [OF assms(1)] that by metis
next
  case False
  then have "ht_entries (ht0 d) \<noteq> []"
    using assms(2) dict_entries_not_rehashing [OF assms(1) False] by (simp add: dict_entries_def)
  then show ?thesis using that by (cases "ht_table (ht0 d)") (simp_all add: ht_entries_def)
qed

lemma erase_table_spec:
  assumes inv: "dict_inv hf d" and t: "t \<le> 1" "ht_table (get_ht t d) = Some tb"
  shows "\<exists>r. erase_table k (hash32 hf k) t d = Inr r \<and> (case r of
      None \<Rightarrow> k \<notin> fst ` set (ht_entries (get_ht t d))
    | Some d' \<Rightarrow> dict_inv hf d' \<and> dict_map d' = (dict_map d)(k := None) \<and>
        k \<in> dom (dict_map d) \<and> iterators d' = iterators d)"
proof -
  let ?h = "get_ht t d"
  let ?b = "key_bucket hf ?h k"
  have wf: "ht_wf hf ?h" using dict_invD [OF inv] by (simp add: get_ht_def)
  note kb = key_bucket_in [OF wf t(2), of k]
  have bo: "bucket_ok hf (ht_sizemask ?h) ?b (tb ! ?b)" using ht_wf_SomeD(3) [OF wf t(2) kb(1)] .
  then obtain r where r: "chain_remove k (tb ! ?b) = Inr r" "case r of
       None \<Rightarrow> k \<notin> fst ` set (chain_list (tb ! ?b))
     | Some c \<Rightarrow> chain_ok c \<and> (\<exists>v. mset (chain_list (tb ! ?b)) = mset (chain_list c) + {#(k, v)#})"
    using chain_remove_spec [of "tb ! ?b" k] by (auto simp: bucket_ok_def)
  show ?thesis
  proof (cases r)
    case None
    then have "erase_table k (hash32 hf k) t d = Inr None"
      using r(1) t kb(1) by (simp add: erase_table_def Let_def flip: kb(2))
    then show ?thesis using None r(2) key_in_bucket [OF wf t(2)] by auto
  next
    case (Some c)
    with r(2) obtain v where c: "chain_ok c" "mset (chain_list (tb ! ?b)) = mset (chain_list c) + {#(k, v)#}"
      by auto
    let ?u = "ht_used ?h - 1"
    let ?d = "upd_bucket t ?b c ?u d"
    have sub: "set (chain_list c) \<subseteq> set (chain_list (tb ! ?b))"
      using c(2) by (metis mset_subset_eq_add_left set_mset_mono set_mset_mset)
    have bc: "bucket_ok hf (ht_sizemask ?h) ?b c" using bo c(1) sub by (auto simp: bucket_ok_def)
    have len: "length (chain_list (tb ! ?b)) = Suc (length (chain_list c))"
      using c(2) by (metis add_mset_add_single size_add_mset size_mset)
    have "mset (chain_list (tb ! ?b)) \<subseteq># mset (ht_entries ?h)"
      using mset_concat_upd [OF kb(1), of chain_list Nullptr] t(2)
      by (simp add: ht_entries_def) (metis mset_subset_eq_add_right)
    then have "Suc (length (chain_list c)) \<le> length (ht_entries ?h)"
      using len by (metis size_mset size_mset_mono)
    then have "1 \<le> unat (ht_used ?h)" using ht_wf_SomeD(4) [OF wf t(2)] by simp
    then have u: "unat ?u + length (chain_list (tb ! ?b)) = unat (ht_used ?h) + length (chain_list c)"
      using len unat_minus_n [of 1 "ht_used ?h"] by simp
    have ne: "tb ! ?b \<noteq> Nullptr" using len by auto
    note up = upd_bucket [OF inv t kb(1) bc u ne]
    have m: "mset (dict_entries ?d) + {#(k, v)#} = mset (dict_entries d)"
      using up(4) c(2) by (simp add: ac_simps)
    note dl = map_of_del [OF dict_invD(3) [OF inv] m]
    have "length (dict_entries ?d) < 2 ^ 31"
      using m inv by (simp add: dict_inv_def) (metis Suc_lessD add_mset_add_single size_add_mset size_mset)
    then have "dict_inv hf ?d" using up dl(1) by (simp add: dict_inv_def)
    moreover have "erase_table k (hash32 hf k) t d = Inr (Some ?d)"
      using r(1) Some t kb(1) by (simp add: erase_table_def Let_def upd_bucket_def flip: kb(2))
    ultimately show ?thesis using dl(2,3) up(6) by (simp add: dict_map_def domIff)
  qed
qed

lemma dict_erase_spec:
  assumes inv: "dict_inv hf d"
  shows "\<exists>d'. dict_erase hf k d = Inr d' \<and> dict_inv hf d' \<and>
    dict_map d' = (dict_map d)(k := None) \<and> iterators d' = iterators d"
proof (cases "ht_used (ht0 d) = 0 \<and> ht_used (ht1 d) = 0")
  case True
  then have "dict_entries d = []"
    using dict_size_eq [OF inv] by (simp add: dict_size_def dict_card_def)
  then show ?thesis using True inv by (simp add: dict_erase_def dict_map_def)
next
  case False
  obtain d1 where d1: "rehash_if_needed hf d = Inr d1" "rehash_keeps hf d d1"
    using rehash_if_needed_spec [OF inv] by blast
  have inv1: "dict_inv hf d1" and it: "iterators d1 = iterators d" using d1(2) by (simp_all add: rehash_keeps_def)
  have map1: "dict_map d1 = dict_map d" using rehash_keeps_map [OF inv d1(2)] .
  note wf = dict_invD [OF inv]
  have "ht_entries (ht0 d) \<noteq> [] \<or> ht_entries (ht1 d) \<noteq> []"
  proof (rule ccontr)
    assume "\<not> ?thesis"
    then have "unat (ht_used (ht0 d)) = 0" "unat (ht_used (ht1 d)) = 0"
      using wf(1,2) by (auto simp: ht_wf_def split: option.splits)
    with False show False by (simp add: unat_eq_zero)
  qed
  then have "dict_entries d1 \<noteq> []"
    using d1(2) by (auto simp: rehash_keeps_def dict_entries_def)
  then obtain t0 where t0: "ht_table (ht0 d1) = Some t0" using ht0_allocated [OF inv1] by blast
  obtain r0 where r0: "erase_table k (hash32 hf k) 0 d1 = Inr r0" "case r0 of
      None \<Rightarrow> k \<notin> fst ` set (ht_entries (ht0 d1))
    | Some d' \<Rightarrow> dict_inv hf d' \<and> dict_map d' = (dict_map d1)(k := None) \<and>
        k \<in> dom (dict_map d1) \<and> iterators d' = iterators d1"
    using erase_table_spec [OF inv1, of 0 t0 k, unfolded get_ht_simps] t0 by auto
  have step: "dict_erase hf k d = (case r0 of Some d2 \<Rightarrow> Inr d2 | None \<Rightarrow>
      if \<not> isRehashing d1 then Inr d1 else bind_res (erase_table k (hash32 hf k) 1 d1) (\<lambda>r.
        case r of Some d2 \<Rightarrow> Inr d2 | None \<Rightarrow> Inr d1))"
    using False d1(1) r0(1) by (auto simp: dict_erase_def split: option.splits)
  show ?thesis
  proof (cases "r0 = None \<and> isRehashing d1")
    case False
    show ?thesis
    proof (cases r0)
      case None
      with False have nr: "\<not> isRehashing d1" by simp
      then have "dict_map d1 k = None"
        using None r0(2) dict_entries_not_rehashing [OF inv1] by (simp add: dict_map_None)
      then have "(dict_map d)(k := None) = dict_map d" using map1 by auto
      then show ?thesis using step None nr inv1 map1 it by simp
    next
      case (Some d2)
      then show ?thesis using step r0(2) map1 it by simp
    qed
  next
    case True
    then obtain t1 where t1: "ht_table (ht1 d1) = Some t1" using rehashing_tables [OF inv1] by metis
    obtain r1 where r1: "erase_table k (hash32 hf k) 1 d1 = Inr r1" "case r1 of
        None \<Rightarrow> k \<notin> fst ` set (ht_entries (ht1 d1))
      | Some d' \<Rightarrow> dict_inv hf d' \<and> dict_map d' = (dict_map d1)(k := None) \<and>
          k \<in> dom (dict_map d1) \<and> iterators d' = iterators d1"
      using erase_table_spec [OF inv1, of 1 t1 k, unfolded get_ht_simps] t1 by auto
    show ?thesis
    proof (cases r1)
      case None
      then have "dict_map d1 k = None" using True r0(2) r1(2) by (simp add: dict_map_None)
      then have "(dict_map d)(k := None) = dict_map d" using map1 by auto
      then show ?thesis using step True None r1(1) inv1 map1 it by simp
    next
      case (Some d2)
      then show ?thesis using step True r1 map1 it by simp
    qed
  qed
qed

section \<open>Replacing\<close>

lemma chain_free_next_spec:
  "chain_ok c \<Longrightarrow> p < length (chain_list c) \<Longrightarrow>
   \<exists>c'. chain_free_next p c = Inr c' \<and>
     (if Suc p = length (chain_list c) then c' = c
      else \<forall>k n. k \<notin> fst ` set (take (Suc p) (chain_list c)) \<longrightarrow> find_chain k n c' = Inl Use_After_Free)"
proof (induction c arbitrary: p)
  case (Entry k v c)
  show ?case
  proof (cases p)
    case 0
    then show ?thesis using Entry.prems by (cases c) auto
  next
    case (Suc q)
    with Entry obtain c' where c': "chain_free_next q c = Inr c'"
      "if Suc q = length (chain_list c) then c' = c
       else \<forall>k n. k \<notin> fst ` set (take (Suc q) (chain_list c)) \<longrightarrow> find_chain k n c' = Inl Use_After_Free"
      by auto
    show ?thesis
    proof (cases "Suc q = length (chain_list c)")
      case True
      then have "c' = c" using c'(2) by simp
      then have "chain_free_next p (Entry k v c) = Inr (Entry k v c)"
        using c'(1) Suc by simp
      then show ?thesis using Suc True by auto
    next
      case False
      then have "\<forall>x n. x \<notin> fst ` set (take (Suc p) (chain_list (Entry k v c))) \<longrightarrow>
          find_chain x n (Entry k v c') = Inl Use_After_Free"
        using c'(2) Suc by (auto simp: image_Un)
      then show ?thesis using c'(1) Suc False by (intro exI [of _ "Entry k v c'"]) simp
    qed
  qed
qed simp_all

lemma dict_replace_new:
  assumes inv: "dict_inv hf d" and room: "dict_card d < 2 ^ 29" and new: "k \<notin> dom (dict_map d)"
  shows "\<exists>d'. dict_replace hf dflt k v d = Inr (1, d') \<and> dict_inv hf d' \<and>
    dict_map d' = (dict_map d)(k \<mapsto> v)"
proof -
  obtain d1 l where d1: "dict_inv hf d1" "insertRaw hf dflt k d = Inr (Some l, None, d1)"
    "loc_holds d1 l k dflt" "dict_map d1 = (dict_map d)(k \<mapsto> dflt)"
    using insertRaw_spec [OF inv room, where k = k and dflt = dflt] new by (auto simp: domIff)
  then show ?thesis using setValue_spec [OF d1(3,1), of v] by (auto simp: dict_replace_def)
qed

text \<open>On an existing key the value is replaced; but the entries behind it in the chain are freed.\<close>

lemma dict_replace_existing:
  assumes inv: "dict_inv hf d" and room: "dict_card d < 2 ^ 29"
    and raw: "insertRaw hf dflt k d = Inr (None, Some l, d1)" and c: "loc_chain l d1 = Inr c"
  shows "\<exists>d'. dict_replace hf dflt k v d = Inr (0, d') \<and>
    (if Suc (loc_pos l) = length (chain_list c)
     then dict_inv hf d' \<and> dict_map d' = (dict_map d)(k \<mapsto> v)
     else \<exists>c'. loc_chain l d' = Inr c' \<and>
       (\<forall>k' n. k' \<notin> fst ` set (take (Suc (loc_pos l)) (chain_list c)) \<longrightarrow>
          find_chain k' n c' = Inl Use_After_Free))"
proof -
  obtain x where x: "dict_inv hf d1" "loc_holds d1 l k x" "dict_map d1 = dict_map d"
    using insertRaw_spec [OF inv room, where k = k and dflt = dflt] raw
    by (cases "dict_map d k") auto
  obtain t b tb where l: "loc_table l = t" "t \<le> 1" "ht_table (get_ht t d1) = Some tb"
    "loc_bucket l = int b" "b < length tb" "loc_pos l < length (chain_list (tb ! b))"
    "chain_list (tb ! b) ! loc_pos l = (k, x)" "chain_ok (tb ! b)" "loc_chain l d1 = Inr (tb ! b)"
    using loc_holdsE [OF x(2,1)] by metis
  have cb: "c = tb ! b" using l(9) c by simp
  obtain e where e: "chain_set_value (loc_pos l) v c = Inr e" "chain_ok e"
    "chain_list e = (chain_list c)[loc_pos l := (k, v)]"
    using chain_set_value_nth [OF l(8,6), of v] l(7) cb by auto
  obtain d2 where d2: "setValue l v d1 = Inr d2" "dict_inv hf d2" "dict_map d2 = (dict_map d1)(k \<mapsto> v)"
    using setValue_spec [OF x(2,1), of v] by blast
  have d2': "d2 = upd_bucket t b e (ht_used (get_ht t d1)) d1"
    using d2(1) c e(1) l cb by (auto simp: setValue_def set_loc_chain_def upd_bucket_def)
  then have tb2: "ht_table (get_ht t d2) = Some (tb[b := e])"
    using l by (simp add: upd_bucket_table)
  have c2: "loc_chain l d2 = Inr e" using tb2 l by (simp add: loc_chain_def)
  have pe: "loc_pos l < length (chain_list e)" using e(3) l(6) cb by simp
  obtain c' where c': "chain_free_next (loc_pos l) e = Inr c'"
    "if Suc (loc_pos l) = length (chain_list e) then c' = e
      else \<forall>k n. k \<notin> fst ` set (take (Suc (loc_pos l)) (chain_list e)) \<longrightarrow>
        find_chain k n c' = Inl Use_After_Free"
    using chain_free_next_spec [OF e(2) pe] by blast
  let ?d = "set_ht t ((get_ht t d2)\<lparr>ht_table := Some (tb[b := c'])\<rparr>) d2"
  have set: "set_loc_chain l c' d2 = Inr ?d"
    using tb2 l by (simp add: set_loc_chain_def)
  have rep: "dict_replace hf dflt k v d = Inr (0, ?d)"
    using raw d2(1) c2 c'(1) set by (simp add: dict_replace_def)
  show ?thesis
  proof (cases "Suc (loc_pos l) = length (chain_list c)")
    case True
    then have "c' = e" using c'(2) e(3) by simp
    then have "?d = d2" using tb2 l(2) by (auto simp: set_ht_def get_ht_def le_Suc_eq)
    then show ?thesis using rep True d2 x(3) by simp
  next
    case False
    have "take (Suc (loc_pos l)) (chain_list e) = (take (Suc (loc_pos l)) (chain_list c))[loc_pos l := (k, v)]"
      using e(3) by (simp add: take_update_swap)
    moreover have "map fst ((take (Suc (loc_pos l)) (chain_list c))[loc_pos l := (k, v)]) =
        map fst (take (Suc (loc_pos l)) (chain_list c))"
      using l(6,7) cb by (simp add: map_update list_update_same_conv)
    ultimately have "fst ` set (take (Suc (loc_pos l)) (chain_list e)) =
        fst ` set (take (Suc (loc_pos l)) (chain_list c))" by (metis list.set_map)
    then have "\<forall>k' n. k' \<notin> fst ` set (take (Suc (loc_pos l)) (chain_list c)) \<longrightarrow>
        find_chain k' n c' = Inl Use_After_Free"
      using c'(2) e(3) False by simp
    moreover have "loc_chain l ?d = Inr c'" using l by (auto simp: loc_chain_def le_Suc_eq)
    ultimately show ?thesis using rep False by auto
  qed
qed

section \<open>Random entries\<close>

lemma unat_ucast_32:
  assumes "unat (h :: 64 word) < 2 ^ 32"
  shows "unat (ucast h :: 32 word) = unat h" "unat (ucast (ucast h :: 32 word) :: 64 word) = unat h"
proof -
  show h: "unat (ucast h :: 32 word) = unat h"
    using assms by (simp only: unsigned_ucast_eq take_bit_nat_eq_self)
      (simp add: unsigned_take_bit_eq take_bit_nat_eq_self)
  have "unat (ucast (ucast h :: 32 word) :: 64 word) = unat (ucast h :: 32 word)"
    using h assms unsigned_less [of "ucast h :: 32 word"]
    by (simp only: unsigned_ucast_eq) (simp add: unsigned_take_bit_eq take_bit_nat_eq_self)
  with h show "unat (ucast (ucast h :: 32 word) :: 64 word) = unat h" by simp
qed

lemma random_bucket_spec:
  assumes inv: "dict_inv hf d" and ne: "dict_entries d \<noteq> []"
  shows "\<exists>t b tb. random_bucket r d = Inr (t, int b) \<and> t \<le> 1 \<and> ht_table (get_ht t d) = Some tb \<and>
    b < length tb"
proof -
  note wf = dict_invD [OF inv]
  obtain t0 where t0: "ht_table (ht0 d) = Some t0" using ht0_allocated [OF inv ne] .
  obtain n0 where n0: "n0 \<le> 31" "ht_size (ht0 d) = 2 ^ n0" using ht_wf_SomeD(5) [OF wf(1) t0] by blast
  have s0: "unat (ht_size (ht0 d)) = 2 ^ n0" "(2::nat) ^ n0 \<le> 2 ^ 31" "length t0 = 2 ^ n0"
    using n0 ht_wf_SomeD(1) [OF wf(1) t0] power_increasing [of n0 31 "2::nat"]
    by (simp_all add: unat_2_power)
  show ?thesis
  proof (cases "isRehashing d")
    case False
    let ?i = "ucast (r AND ht_sizemask (ht0 d)) :: 32 word"
    have "unat ?i \<le> unat (r AND ht_sizemask (ht0 d))"
      by (simp add: unsigned_ucast_eq take_bit_nat_less_eq_self)
    also have "\<dots> \<le> unat (ht_sizemask (ht0 d))" using word_and_le1 word_le_nat_alt by blast
    also have "\<dots> = 2 ^ n0 - 1"
      using ht_wf_SomeD(2) [OF wf(1) t0] s0(1) by (simp add: unat_sub_if_size)
    finally have "unat ?i < length t0" unfolding s0(3) by (rule le_less_trans) simp
    then show ?thesis using False t0
      by (intro exI [of _ 0] exI [of _ "unat ?i"] exI [of _ t0]) (simp add: random_bucket_def)
  next
    case True
    obtain t1 x where t1: "ht_table (ht1 d) = Some t1" and x: "rehashidx d = int x" "x \<le> length t0"
      using rehashing_tables [OF inv True] t0 by (metis option.inject)
    obtain n1 where n1: "n1 \<le> 31" "ht_size (ht1 d) = 2 ^ n1" using ht_wf_SomeD(5) [OF wf(2) t1] by blast
    have s1: "unat (ht_size (ht1 d)) = 2 ^ n1" "(2::nat) ^ n1 \<le> 2 ^ 31" "length t1 = 2 ^ n1"
      using n1 ht_wf_SomeD(1) [OF wf(2) t1] power_increasing [of n1 31 "2::nat"]
      by (simp_all add: unat_2_power)
    let ?n = "ht_size (ht0 d) + ht_size (ht1 d) - word_of_int (rehashidx d)"
    let ?h = "word_of_int (rehashidx d) + r mod ?n"
    have sum: "unat (ht_size (ht0 d) + ht_size (ht1 d)) = 2 ^ n0 + 2 ^ n1"
      using s0 s1 by (subst unat_add_lem [THEN iffD1]) simp_all
    have wx: "unat (word_of_int (rehashidx d) :: 64 word) = x"
      using x s0 by (simp add: unat_of_nat64)
    have n: "unat ?n = 2 ^ n0 + 2 ^ n1 - x"
      using sum x(2) s0(3) unat_minus_n [of x "ht_size (ht0 d) + ht_size (ht1 d)"] x(1) by simp
    moreover have "x < 2 ^ n0 + (2::nat) ^ n1" using x(2) s0(3) order_le_less_trans [of x "2 ^ n0" "2 ^ n0 + 2 ^ n1"] by simp
    ultimately have npos: "unat ?n > 0" by simp
    then have "?n \<noteq> 0" by (metis unat_0 less_numeral_extra(3))
    have "unat (r mod ?n) < unat ?n" using npos by (simp add: unat_mod)
    then have hm: "x + unat (r mod ?n) < 2 ^ n0 + 2 ^ n1" using n x(2) s0(3) by simp
    have h64: "unat ?h = x + unat (r mod ?n)"
      using hm s0(2) s1(2) wx by (subst unat_add_lem [THEN iffD1]) simp_all
    let ?i = "ucast ?h :: 32 word"
    have "unat ?h < 2 ^ 32" using h64 hm s0(2) s1(2) by simp
    then have i: "unat ?i = unat ?h" "unat (ucast ?i :: 64 word) = unat ?h"
      using unat_ucast_32 by metis+
    note i64 = i(2)
    show ?thesis
    proof (cases "ucast ?i \<ge> ht_size (ht0 d)")
      case False
      then have "unat ?i < length t0" using i s0 by (simp add: word_le_nat_alt)
      then show ?thesis using True False \<open>?n \<noteq> 0\<close> t0
        by (intro exI [of _ 0] exI [of _ "unat ?i"] exI [of _ t0]) (simp add: random_bucket_def Let_def)
    next
      case ge: True
      let ?j = "(ucast ?i :: 64 word) - ht_size (ht0 d)"
      have "unat ?j = unat ?h - 2 ^ n0"
        using ge i64 s0(1) by (simp add: unat_sub_if_size word_le_nat_alt)
      then have "unat ?j < length t1" using h64 hm s1(3) zero_less_power [of "2::nat" n1] by linarith
      then show ?thesis using True ge \<open>?n \<noteq> 0\<close> t1
        by (intro exI [of _ 1] exI [of _ "unat ?j"] exI [of _ t1]) (simp add: random_bucket_def Let_def)
    qed
  qed
qed

lemma chain_length_ok: "chain_ok c \<Longrightarrow> chain_length c = Inr (length (chain_list c))"
  by (induction c) auto

lemma random_probe_spec:
  assumes inv: "dict_inv hf d" and ne: "dict_entries d \<noteq> []"
  shows "random_probe rs d = Inr None \<or> (\<exists>t b tb rs'. random_probe rs d = Inr (Some (t, int b, tb ! b, rs')) \<and>
    t \<le> 1 \<and> ht_table (get_ht t d) = Some tb \<and> b < length tb \<and> tb ! b \<noteq> Nullptr \<and> chain_ok (tb ! b))"
proof (induction rs)
  case Nil
  then show ?case by simp
next
  case (Cons r rs)
  obtain t b tb where r: "random_bucket r d = Inr (t, int b)" "t \<le> 1" "ht_table (get_ht t d) = Some tb"
    "b < length tb" using random_bucket_spec [OF inv ne] by metis
  have "ht_wf hf (get_ht t d)" using dict_invD [OF inv] by (simp add: get_ht_def)
  then have ok: "chain_ok (tb ! b)" using ht_wf_SomeD(3) r(3,4) by (auto simp: bucket_ok_def)
  show ?case
  proof (cases "tb ! b = Nullptr")
    case True
    then show ?thesis using Cons.IH r by simp
  next
    case False
    then have "random_probe (r # rs) d = Inr (Some (t, int b, tb ! b, rs))"
      using r by (auto split: dictEntry.splits)
    then show ?thesis using r ok False by blast
  qed
qed

text \<open>A random entry is an entry of the table; only the empty table gives a null pointer.\<close>

lemma getRandomEntry_spec:
  assumes inv: "dict_inv hf d"
  shows "if dict_map d = Map.empty then getRandomEntry hf rs d = Inr (Some (None, rs, d))
    else getRandomEntry hf rs d = Inr None \<or>
      (\<exists>l rs' d' k v. getRandomEntry hf rs d = Inr (Some (Some l, rs', d')) \<and> rehash_keeps hf d d' \<and>
         loc_holds d' l k v)"
proof (cases "dict_entries d = []")
  case True
  then show ?thesis using dict_size_eq [OF inv]
    by (simp add: getRandomEntry_def dict_card_def dict_map_def)
next
  case False
  then have nempty: "dict_map d \<noteq> Map.empty"
    by (cases "dict_entries d") (auto simp: dict_map_def fun_eq_iff)
  obtain d1 where d1: "rehash_if_needed hf d = Inr d1" "rehash_keeps hf d d1"
    using rehash_if_needed_spec [OF inv] by blast
  have inv1: "dict_inv hf d1" and ne1: "dict_entries d1 \<noteq> []"
    using d1(2) False by (auto simp: rehash_keeps_def)
  have sz: "dict_size d \<noteq> 0" using False dict_size_eq [OF inv] by (simp add: dict_card_def)
  from random_probe_spec [OF inv1 ne1, of rs] show ?thesis
  proof (elim disjE exE conjE)
    assume "random_probe rs d1 = Inr None"
    then show ?thesis using nempty sz d1(1) by (simp add: getRandomEntry_def)
  next
    fix t b tb rs1
    assume p: "random_probe rs d1 = Inr (Some (t, int b, tb ! b, rs1))" "t \<le> 1"
      "ht_table (get_ht t d1) = Some tb" "b < length tb" "tb ! b \<noteq> Nullptr" "chain_ok (tb ! b)"
    have pos: "0 < length (chain_list (tb ! b))" using p(5,6) by (cases "tb ! b") simp_all
    show ?thesis
    proof (cases rs1)
      case Nil
      then show ?thesis using nempty sz d1(1) p chain_length_ok [OF p(6)]
        by (simp add: getRandomEntry_def)
    next
      case (Cons r1 rs2)
      let ?p = "unat r1 mod length (chain_list (tb ! b))"
      have eq: "getRandomEntry hf rs d = Inr (Some (Some (Loc t (int b) ?p), rs2, d1))"
        using sz d1(1) p chain_length_ok [OF p(6)] Cons by (simp add: getRandomEntry_def)
      obtain k v where "chain_list (tb ! b) ! ?p = (k, v)" by fastforce
      then have "loc_holds d1 (Loc t (int b) ?p) k v" using p pos by (auto simp: loc_holds_def)
      with eq d1(2) nempty show ?thesis by (auto intro!: disjI2)
    qed
  qed
qed

lemma getRandomValue_spec:
  assumes inv: "dict_inv hf d"
  shows "if dict_map d = Map.empty then getRandomValue hf rs d = Inl Null_Deref
    else getRandomValue hf rs d = Inr None \<or>
      (\<exists>v rs' d'. getRandomValue hf rs d = Inr (Some (v, rs', d')) \<and> rehash_keeps hf d d' \<and>
         v \<in> ran (dict_map d))"
proof (cases "dict_map d = Map.empty")
  case True
  then show ?thesis using getRandomEntry_spec [OF inv, of rs] by (simp add: getRandomValue_def)
next
  case False
  then consider "getRandomEntry hf rs d = Inr None"
    | l rs' d' k v where "getRandomEntry hf rs d = Inr (Some (Some l, rs', d'))" "rehash_keeps hf d d'"
      "loc_holds d' l k v"
    using getRandomEntry_spec [OF inv, of rs] by auto
  then show ?thesis
  proof cases
    case 1
    then show ?thesis using False by (simp add: getRandomValue_def)
  next
    case (2 l rs' d' k v)
    then have inv': "dict_inv hf d'" by (simp add: rehash_keeps_def)
    have gv: "getValue l d' = Inr v" using 2(3) inv' by (rule getValue_spec)
    have "dict_map d' k = Some v" using loc_holds_map 2(3) inv' by metis
    moreover have "dict_map d' = dict_map d" using rehash_keeps_map [OF inv 2(2)] .
    ultimately have "v \<in> ran (dict_map d)" by (metis ranI)
    with 2 gv False show ?thesis by (auto simp: getRandomValue_def)
  qed
qed

section \<open>The remaining members\<close>

fun chain_key :: "nat \<Rightarrow> ('k, 'v) dictEntry \<Rightarrow> 'k res" where
  "chain_key p Nullptr = Inl Null_Deref"
| "chain_key p Dangling = Inl Use_After_Free"
| "chain_key 0 (Entry k v n) = Inr k"
| "chain_key (Suc p) (Entry k v n) = chain_key p n"

definition getKey :: "entry_loc \<Rightarrow> ('k, 'v) dict \<Rightarrow> 'k res" where
  "getKey l d = bind_res (loc_chain l d) (chain_key (loc_pos l))"

definition getRandomKey :: "('k \<Rightarrow> 64 word) \<Rightarrow> 64 word list \<Rightarrow> ('k, 'v) dict \<Rightarrow>
    (('k \<times> 64 word list \<times> ('k, 'v) dict) option) res" where
  "getRandomKey hf rs d =
     bind_res (getRandomEntry hf rs d) (\<lambda>r. case r of
       None \<Rightarrow> Inr None
     | Some (entry, rs', d1) \<Rightarrow>
         (case entry of None \<Rightarrow> Inl Null_Deref
          | Some l \<Rightarrow> bind_res (getKey l d1) (\<lambda>k. Inr (Some (k, rs', d1)))))"

text \<open>\<open>rehashMilliseconds(ms)\<close>: the clock is the list of times that \<open>timeInMilliseconds\<close> returns
  after the start, and the loop ends when the list is used up.\<close>

fun rehashMilliseconds_loop :: "('k \<Rightarrow> 64 word) \<Rightarrow> int \<Rightarrow> int \<Rightarrow> int list \<Rightarrow> int \<Rightarrow> ('k, 'v) dict \<Rightarrow>
    (int \<times> ('k, 'v) dict) option res" where
  "rehashMilliseconds_loop hf start ms ts rehashes d =
     bind_res (rehash hf 100 d) (\<lambda>(more, d1).
       if more = 0 then Inr (Some (rehashes, d1))
       else case ts of
         [] \<Rightarrow> Inr None
       | t # ts' \<Rightarrow> bind_res (c_int (rehashes + 100)) (\<lambda>r.
           if t - start > ms then Inr (Some (r, d1))
           else rehashMilliseconds_loop hf start ms ts' r d1))"

definition rehashMilliseconds :: "('k \<Rightarrow> 64 word) \<Rightarrow> int \<Rightarrow> int list \<Rightarrow> ('k, 'v) dict \<Rightarrow>
    (int \<times> ('k, 'v) dict) option res" where
  "rehashMilliseconds hf ms ts d = (case ts of [] \<Rightarrow> Inr None
     | start # ts' \<Rightarrow> rehashMilliseconds_loop hf start ms ts' 0 d)"

text \<open>The two uses of \<open>operator[]\<close>: the value of the place it returns, and an assignment to it.\<close>

definition dict_at ::
  "('k \<Rightarrow> 64 word) \<Rightarrow> 'v \<Rightarrow> 'k \<Rightarrow> ('k, 'v) dict \<Rightarrow> ('v \<times> ('k, 'v) dict) res" where
  "dict_at hf dflt k d =
     bind_res (dict_index hf dflt k d) (\<lambda>(l, d1).
     bind_res (getValue l d1) (\<lambda>v. Inr (v, d1)))"

definition dict_assign ::
  "('k \<Rightarrow> 64 word) \<Rightarrow> 'v \<Rightarrow> 'k \<Rightarrow> 'v \<Rightarrow> ('k, 'v) dict \<Rightarrow> ('k, 'v) dict res" where
  "dict_assign hf dflt k v d =
     bind_res (dict_index hf dflt k d) (\<lambda>(l, d1). setValue l v d1)"

lemma chain_key_nth: "p < length (chain_list c) \<Longrightarrow> chain_list c ! p = (k, v) \<Longrightarrow> chain_key p c = Inr k"
  by (induction p c rule: chain_key.induct) auto

lemma getKey_spec:
  assumes "loc_holds d l k v" "dict_inv hf d"
  shows "getKey l d = Inr k"
  using assms by (elim loc_holdsE) (auto simp: getKey_def chain_key_nth)

lemma getRandomKey_spec:
  assumes inv: "dict_inv hf d"
  shows "if dict_map d = Map.empty then getRandomKey hf rs d = Inl Null_Deref
    else getRandomKey hf rs d = Inr None \<or>
      (\<exists>k rs' d'. getRandomKey hf rs d = Inr (Some (k, rs', d')) \<and> rehash_keeps hf d d' \<and>
         k \<in> dom (dict_map d))"
proof (cases "dict_map d = Map.empty")
  case True
  then show ?thesis using getRandomEntry_spec [OF inv, of rs] by (simp add: getRandomKey_def)
next
  case False
  then consider "getRandomEntry hf rs d = Inr None"
    | l rs' d' k v where "getRandomEntry hf rs d = Inr (Some (Some l, rs', d'))" "rehash_keeps hf d d'"
      "loc_holds d' l k v"
    using getRandomEntry_spec [OF inv, of rs] by auto
  then show ?thesis
  proof cases
    case 1
    then show ?thesis using False by (simp add: getRandomKey_def)
  next
    case (2 l rs' d' k v)
    then have inv': "dict_inv hf d'" by (simp add: rehash_keeps_def)
    have gk: "getKey l d' = Inr k" using 2(3) inv' by (rule getKey_spec)
    have "dict_map d' k = Some v" using loc_holds_map 2(3) inv' by metis
    moreover have "dict_map d' = dict_map d" using rehash_keeps_map [OF inv 2(2)] .
    ultimately have "k \<in> dom (dict_map d)" by auto
    with 2 gk False show ?thesis by (auto simp: getRandomKey_def)
  qed
qed

lemma rehashMilliseconds_loop_spec:
  "dict_inv hf d \<Longrightarrow> 0 \<le> r \<Longrightarrow> r + 100 * int (length ts) \<le> INT_MAX \<Longrightarrow>
   rehashMilliseconds_loop hf start ms ts r d = Inr None \<or>
   (\<exists>n d'. rehashMilliseconds_loop hf start ms ts r d = Inr (Some (n, d')) \<and> rehash_keeps hf d d' \<and> r \<le> n)"
proof (induction ts arbitrary: r d)
  case Nil
  obtain c d1 where "rehash hf 100 d = Inr (c, d1)" "rehash_keeps hf d d1"
    using rehash_spec [OF Nil(1), of 100] by blast
  then show ?case by (cases "c = 0") auto
next
  case (Cons t ts)
  obtain c d1 where d1: "rehash hf 100 d = Inr (c, d1)" "rehash_keeps hf d d1"
    using rehash_spec [OF Cons.prems(1), of 100] by blast
  then have "dict_inv hf d1" by (simp add: rehash_keeps_def)
  moreover have r: "0 \<le> r + 100" "r + 100 + 100 * int (length ts) \<le> INT_MAX" "c_int (r + 100) = Inr (r + 100)"
    using Cons.prems(2,3) by (simp_all add: c_int_nonneg)
  ultimately consider
      "rehashMilliseconds_loop hf start ms ts (r + 100) d1 = Inr None"
    | n d' where "rehashMilliseconds_loop hf start ms ts (r + 100) d1 = Inr (Some (n, d'))"
      "rehash_keeps hf d1 d'" "r + 100 \<le> n" using Cons.IH [of d1 "r + 100"] by blast
  then show ?case using d1 r(3) rehash_keeps_trans [OF d1(2)]
    by cases (cases "c = 0"; cases "t - start > ms"; simp; blast?)+
qed

lemma dict_at_spec:
  assumes inv: "dict_inv hf d" and room: "dict_card d < 2 ^ 29"
  shows "\<exists>d'. dict_at hf dflt k d = Inr (case dict_map d k of Some v \<Rightarrow> v | None \<Rightarrow> dflt, d') \<and>
    dict_inv hf d' \<and>
    dict_map d' = (case dict_map d k of Some v \<Rightarrow> dict_map d | None \<Rightarrow> (dict_map d)(k \<mapsto> dflt))"
proof -
  obtain l d' where l: "dict_index hf dflt k d = Inr (l, d')" "dict_inv hf d'"
    "loc_holds d' l k (case dict_map d k of Some v \<Rightarrow> v | None \<Rightarrow> dflt)"
    "dict_map d' = (case dict_map d k of Some v \<Rightarrow> dict_map d | None \<Rightarrow> (dict_map d)(k \<mapsto> dflt))"
    using dict_index_spec [OF inv room, where k = k and dflt = dflt] by blast
  then show ?thesis using getValue_spec [OF l(3,2)] by (simp add: dict_at_def)
qed

lemma dict_assign_spec:
  assumes inv: "dict_inv hf d" and room: "dict_card d < 2 ^ 29"
  shows "\<exists>d'. dict_assign hf dflt k v d = Inr d' \<and> dict_inv hf d' \<and> dict_map d' = (dict_map d)(k \<mapsto> v)"
proof -
  obtain l d1 x where l: "dict_index hf dflt k d = Inr (l, d1)" "dict_inv hf d1" "loc_holds d1 l k x"
    "dict_map d1 = (case dict_map d k of Some v \<Rightarrow> dict_map d | None \<Rightarrow> (dict_map d)(k \<mapsto> dflt))"
    using dict_index_spec [OF inv room, where k = k and dflt = dflt] by blast
  then show ?thesis using setValue_spec [OF l(3,2), of v]
    by (auto simp: dict_assign_def split: option.splits)
qed

section \<open>Rehashing ends, and random entries cover the table\<close>

text \<open>\<open>n\<close> calls of \<open>rehash(1)\<close>.\<close>

fun rehash_times :: "('k \<Rightarrow> 64 word) \<Rightarrow> nat \<Rightarrow> ('k, 'v) dict \<Rightarrow> ('k, 'v) dict res" where
  "rehash_times hf 0 d = Inr d"
| "rehash_times hf (Suc n) d = bind_res (rehash hf 1 d) (\<lambda>(_, d1). rehash_times hf n d1)"

lemma rehash_times_keeps:
  "dict_inv hf d \<Longrightarrow> \<exists>d'. rehash_times hf n d = Inr d' \<and> rehash_keeps hf d d'"
proof (induction n arbitrary: d)
  case 0
  then show ?case by (simp add: rehash_keeps_refl)
next
  case (Suc n)
  obtain c d1 where d1: "rehash hf 1 d = Inr (c, d1)" "rehash_keeps hf d d1"
    using rehash_spec [OF Suc.prems, of 1] by blast
  moreover have "dict_inv hf d1" using d1 by (simp add: rehash_keeps_def)
  ultimately show ?case using Suc.IH [of d1] rehash_keeps_trans [of hf d d1] by auto
qed

lemma rehash_times_finishes:
  "dict_inv hf d \<Longrightarrow> (isRehashing d \<Longrightarrow> int (unat (ht_size (ht0 d))) - rehashidx d < int n) \<Longrightarrow>
   \<exists>d'. rehash_times hf n d = Inr d' \<and> rehash_keeps hf d d' \<and> \<not> isRehashing d'"
proof (induction n arbitrary: d)
  case 0
  have "\<not> isRehashing d"
  proof
    assume re: "isRehashing d"
    from rehashing_tables [OF 0(1) re] obtain t0 t1 where "ht_table (ht0 d) = Some t0" "rehashidx d \<le> int (length t0)"
      by (metis of_nat_le_iff)
    with 0 re show False using ht_wf_SomeD(1) dict_invD(1) by fastforce
  qed
  then show ?case using 0 by (simp add: rehash_keeps_refl)
next
  case (Suc n)
  obtain c d1 where d1: "rehash hf 1 d = Inr (c, d1)" "rehash_keeps hf d d1" and
    adv: "isRehashing d \<Longrightarrow> \<not> isRehashing d1 \<or> (ht_size (ht0 d1) = ht_size (ht0 d) \<and> rehashidx d < rehashidx d1)"
    using rehash_spec [OF Suc.prems(1), of 1] by auto
  have inv1: "dict_inv hf d1" using d1 by (simp add: rehash_keeps_def)
  have "int (unat (ht_size (ht0 d1))) - rehashidx d1 < int n" if re1: "isRehashing d1"
  proof -
    have "isRehashing d" using d1(1) re1 by (auto simp: rehash_def split: if_splits)
    then show ?thesis using adv re1 Suc.prems(2) by auto
  qed
  from Suc.IH [OF inv1 this] show ?case using d1 rehash_keeps_trans [of hf d d1] by auto
qed

lemma random_table_size:
  assumes "ht_wf hf h" "ht_table h = Some t"
  shows "unat (ht_size h) = length t" "length t \<le> 2 ^ 31" "0 < length t"
proof -
  obtain n where n: "n \<le> 31" "ht_size h = 2 ^ n" using ht_wf_SomeD(5) [OF assms] by blast
  then have "length t = 2 ^ n" using ht_wf_SomeD(1) [OF assms] by (simp add: unat_2_power)
  then show "length t \<le> 2 ^ 31" "0 < length t" using n power_increasing [of n 31 "2::nat"] by simp_all
  show "unat (ht_size h) = length t" using ht_wf_SomeD(1) [OF assms] by simp
qed

lemma random_bucket_covers:
  assumes inv: "dict_inv hf d" and t: "ht_table (get_ht t d) = Some tb" "t \<le> 1" "b < length tb"
    and ne: "tb ! b \<noteq> Nullptr"
  shows "\<exists>r. random_bucket r d = Inr (t, int b)"
proof -
  note wf = dict_invD [OF inv]
  have wft: "ht_wf hf (get_ht t d)" using wf by (simp add: get_ht_def)
  obtain n where n: "n \<le> 31" "ht_size (get_ht t d) = 2 ^ n" "length tb = 2 ^ n"
    using ht_wf_SomeD(1,5) [OF wft t(1)] by (auto simp: unat_2_power)
  then have b: "b < 2 ^ 31" using t(3) power_increasing [of n 31 "2::nat"] by simp
  show ?thesis
  proof (cases "isRehashing d")
    case False
    then have "ht1 d = dictht_empty" using inv by (simp add: dict_inv_def rehash_state_ok_def)
    then have t0: "t = 0" using t(1,2) by (cases t) auto
    let ?r = "word_of_nat b :: 64 word"
    have ub: "unat ?r = b" using b by (simp add: unat_of_nat64)
    have "ht_sizemask (ht0 d) = mask n"
      using ht_wf_SomeD(2) [OF wft t(1)] n t0 by (simp add: mask_eq_exp_minus_1)
    then have "?r AND ht_sizemask (ht0 d) = take_bit n ?r" by (simp add: take_bit_eq_mask)
    also have "\<dots> = ?r"
      using t(3) n(3) ub by (simp add: word_unat_eq_iff unsigned_take_bit_eq take_bit_nat_eq_self)
    finally have "ucast (?r AND ht_sizemask (ht0 d)) = (ucast ?r :: 32 word)" by simp
    moreover have "uint (ucast ?r :: 32 word) = int b"
      using unat_ucast_32(1) [of ?r] ub b uint_nat [of "ucast ?r :: 32 word"] by simp
    ultimately show ?thesis using False t0 by (intro exI [of _ ?r]) (simp add: random_bucket_def)
  next
    case True
    obtain t0 t1 x where tt: "ht_table (ht0 d) = Some t0" "ht_table (ht1 d) = Some t1"
      "rehashidx d = int x" "x \<le> length t0" "\<And>i. i < x \<Longrightarrow> t0 ! i = Nullptr"
      using rehashing_tables [OF inv True] by blast
    note s0 = random_table_size [OF wf(1) tt(1)] and s1 = random_table_size [OF wf(2) tt(2)]
    let ?S = "ht_size (ht0 d) + ht_size (ht1 d)"
    define h where "h = (if t = 0 then b else length t0 + b)"
    have h: "x \<le> h" "h < length t0 + length t1" "t = 0 \<longleftrightarrow> h < length t0"
      using t ne tt by (auto simp: h_def not_less [symmetric] get_ht_def split: if_splits)
    let ?r = "word_of_nat (h - x) :: 64 word"
    have sum: "unat ?S = length t0 + length t1"
      using s0 s1 by (subst unat_add_lem [THEN iffD1]) simp_all
    have "unat (?S - word_of_int (rehashidx d)) = length t0 + length t1 - x"
      using sum tt(3,4) unat_minus_n [of x ?S] by simp
    moreover have r: "unat ?r = h - x" using h s0 s1 by (intro unat_of_nat64) simp
    ultimately have mod: "?r mod (?S - word_of_int (rehashidx d)) = ?r"
      and nz: "?S - word_of_int (rehashidx d) \<noteq> 0"
      using h by (auto simp: word_unat_eq_iff unat_mod)
    have h64: "word_of_int (rehashidx d) + ?r = (word_of_nat h :: 64 word)"
      using h(1) tt(3) by (simp add: of_nat_diff)
    have uh: "unat (word_of_nat h :: 64 word) = h" using h s0 s1 by (intro unat_of_nat64) simp
    then have uh32: "unat (ucast (word_of_nat h :: 64 word) :: 32 word) = h"
      "unat (ucast (ucast (word_of_nat h :: 64 word) :: 32 word) :: 64 word) = h"
      using unat_ucast_32 [of "word_of_nat h"] h s0 s1 by simp_all
    show ?thesis
    proof (cases "t = 0")
      case t0: True
      then have "\<not> ucast (ucast (word_of_nat h :: 64 word) :: 32 word) \<ge> ht_size (ht0 d)"
        using uh32 h(3) s0 by (simp add: word_le_nat_alt)
      moreover have "uint (ucast (word_of_nat h :: 64 word) :: 32 word) = int h"
        using uh32(1) by (simp only: uint_nat)
      ultimately show ?thesis using True t0 mod nz h64
        by (intro exI [of _ ?r]) (simp add: random_bucket_def Let_def h_def)
    next
      case t1: False
      then have ge: "ucast (ucast (word_of_nat h :: 64 word) :: 32 word) \<ge> ht_size (ht0 d)"
        using uh32 h(3) s0 by (simp add: word_le_nat_alt)
      then have "unat (ucast (ucast (word_of_nat h :: 64 word) :: 32 word) - ht_size (ht0 d)) = b"
        using uh32(2) s0 t1 by (simp add: unat_sub_if_size word_le_nat_alt h_def)
      then have "uint (ucast (ucast (word_of_nat h :: 64 word) :: 32 word) - ht_size (ht0 d)) = int b"
        by (simp only: uint_nat)
      then show ?thesis using True t1 ge mod nz h64 t(2)
        by (intro exI [of _ ?r]) (simp add: random_bucket_def Let_def)
    qed
  qed
qed

text \<open>Every key of the table is the answer of some choice of the random numbers.\<close>

lemma getRandomEntry_covers:
  assumes inv: "dict_inv hf d" and k: "dict_map d k = Some v"
  shows "\<exists>rs l d'. getRandomEntry hf rs d = Inr (Some (Some l, [], d')) \<and> rehash_keeps hf d d' \<and>
    loc_holds d' l k v"
proof -
  obtain d1 where d1: "rehash_if_needed hf d = Inr d1" "rehash_keeps hf d d1"
    using rehash_if_needed_spec [OF inv] by blast
  then have inv1: "dict_inv hf d1" by (simp add: rehash_keeps_def)
  have "(k, v) \<in> set (dict_entries d1)"
    using k rehash_keeps_map [OF inv d1(2)] dict_map_mem [OF inv1] by simp
  then obtain t where t: "t \<le> 1" "(k, v) \<in> set (ht_entries (get_ht t d1))"
    by (metis Un_iff dict_entries_def get_ht_simps(1,2) le_refl set_append zero_le_one)
  then obtain tb c where tb: "ht_table (get_ht t d1) = Some tb" "c \<in> set tb" "(k, v) \<in> set (chain_list c)"
    by (cases "ht_table (get_ht t d1)") (auto simp: ht_entries_def)
  then obtain b p where b: "b < length tb" "tb ! b = c" and p: "p < length (chain_list c)"
    "chain_list c ! p = (k, v)" by (auto simp: in_set_conv_nth)
  then have ne: "tb ! b \<noteq> Nullptr" by auto
  have "ht_wf hf (get_ht t d1)" using dict_invD [OF inv1] by (simp add: get_ht_def)
  then have ok: "chain_ok c" using ht_wf_SomeD(3) tb(1) b by (auto simp: bucket_ok_def)
  obtain r where r: "random_bucket r d1 = Inr (t, int b)"
    using random_bucket_covers [OF inv1 tb(1) t(1) b(1) ne] by blast
  have "(k, v) \<in> set (dict_entries d)" using k dict_map_mem [OF inv] by simp
  then have sz: "dict_size d \<noteq> 0" using dict_size_eq [OF inv] by (auto simp: dict_card_def)
  have cl: "length (chain_list c) < 2 ^ 64" 
  proof -
    have "length (chain_list c) \<le> length (ht_entries (get_ht t d1))"
      using tb by (auto simp: ht_entries_def length_concat intro!: member_le_sum_list)
    then show ?thesis using dict_invD(4) [OF inv1] t(1) by (cases t) auto
  qed
  let ?rs = "[r, word_of_nat p]"
  have "unat (word_of_nat p :: 64 word) = p" using p cl by (intro unat_of_nat64) simp
  then have "getRandomEntry hf ?rs d = Inr (Some (Some (Loc t (int b) p), [], d1))"
    using sz d1(1) r tb(1) b ok ne p chain_length_ok [OF ok]
    by (auto simp: getRandomEntry_def split: dictEntry.splits)
  moreover have "loc_holds d1 (Loc t (int b) p) k v"
    using t tb b p by (auto simp: loc_holds_def)
  ultimately show ?thesis using d1(2) by blast
qed

text \<open>More random numbers than are drawn are left over.\<close>

lemma random_probe_more:
  "random_probe rs d = Inr (Some (t, i, he, rest)) \<Longrightarrow> random_probe (rs @ extra) d = Inr (Some (t, i, he, rest @ extra))"
  by (induction rs) (auto simp: bind_res_eq_Inr split: dictEntry.splits prod.splits)

lemma getRandomEntry_more:
  assumes "getRandomEntry hf rs d = Inr (Some (e, rest, d'))"
  shows "getRandomEntry hf (rs @ extra) d = Inr (Some (e, rest @ extra, d'))"
proof (cases "dict_size d = 0")
  case True
  then show ?thesis using assms by (simp add: getRandomEntry_def)
next
  case False
  then obtain d1 r where d1: "rehash_if_needed hf d = Inr d1" "random_probe rs d1 = Inr r"
    using assms by (auto simp: getRandomEntry_def bind_res_eq_Inr)
  then obtain t i he rs1 where r: "r = Some (t, i, he, rs1)" using assms False
    by (cases r) (auto simp: getRandomEntry_def)
  with d1 assms False obtain n r1 rs2 where "chain_length he = Inr n" "rs1 = r1 # rs2"
    by (cases rs1) (auto simp: getRandomEntry_def bind_res_eq_Inr)
  then show ?thesis using d1 r False assms random_probe_more [of rs d1] by (simp add: getRandomEntry_def)
qed

lemma getRandomValue_more:
  assumes "getRandomValue hf rs d = Inr (Some (v, rest, d'))"
  shows "getRandomValue hf (rs @ extra) d = Inr (Some (v, rest @ extra, d'))"
proof -
  obtain r where r: "getRandomEntry hf rs d = Inr r" using assms by (auto simp: getRandomValue_def bind_res_eq_Inr)
  then obtain e rs1 d1 where "r = Some (e, rs1, d1)" using assms by (cases r) (auto simp: getRandomValue_def)
  with r assms getRandomEntry_more [of hf rs d e rs1 d1 extra] show ?thesis
    by (cases e) (auto simp: getRandomValue_def bind_res_eq_Inr)
qed

end
