(* ===== verification/Table_Map.thy ===== *)
theory Table_Map
  imports Hash_Table
begin

text \<open>
  What class \<open>HashTable\<close> of \<open>src/hash.h\<close> promises to its users, and that the table keeps the promise.
  \<open>bounded_simulation\<close> is the interface for whole sequences of calls: every call answers as the same
  call on a finite map. \<open>key_store\<close> is the interface the connection pool of a worker relies on:
  \<open>operator[]\<close> read and assigned, \<open>erase\<close>, \<open>size\<close>, \<open>empty\<close> and \<open>getRandomValue\<close>; \<open>drawing_store\<close> adds that suitable random
  numbers make \<open>getRandomValue\<close> answer each value. All are interpreted on the operations of \<open>Hash_Table\<close>. The properties of the table follow.
\<close>

section \<open>Sequences of calls\<close>

fun run_calls :: "('op \<Rightarrow> 's \<Rightarrow> ('out \<times> 's) res) \<Rightarrow> 'op list \<Rightarrow> 's \<Rightarrow> ('out list \<times> 's) res" where
  "run_calls call [] s = Inr ([], s)"
| "run_calls call (x # xs) s =
     bind_res (call x s) (\<lambda>(r, s1). bind_res (run_calls call xs s1) (\<lambda>(rs, s2). Inr (r # rs, s2)))"

fun spec_calls :: "('op \<Rightarrow> 'a \<Rightarrow> 'out \<times> 'a) \<Rightarrow> 'op list \<Rightarrow> 'a \<Rightarrow> 'out list \<times> 'a" where
  "spec_calls spec [] a = ([], a)"
| "spec_calls spec (x # xs) a =
     (let (r, a1) = spec x a; (rs, a2) = spec_calls spec xs a1 in (r # rs, a2))"

locale bounded_simulation =
  fixes good :: "'s \<Rightarrow> bool" and view :: "'s \<Rightarrow> 'a" and call :: "'op \<Rightarrow> 's \<Rightarrow> ('out \<times> 's) res"
    and spec :: "'op \<Rightarrow> 'a \<Rightarrow> 'out \<times> 'a" and weight :: "'a \<Rightarrow> nat" and limit :: nat
  assumes call_sim: "good s \<Longrightarrow> weight (view s) < limit \<Longrightarrow>
      \<exists>r s'. call x s = Inr (r, s') \<and> good s' \<and> spec x (view s) = (r, view s')"
    and weight_step: "good s \<Longrightarrow> weight (snd (spec x (view s))) \<le> weight (view s) + 1"
begin

lemma run_sim:
  "good s \<Longrightarrow> weight (view s) + length xs \<le> limit \<Longrightarrow>
   \<exists>rs s'. run_calls call xs s = Inr (rs, s') \<and> good s' \<and> spec_calls spec xs (view s) = (rs, view s')"
proof (induction xs arbitrary: s)
  case Nil
  then show ?case by simp
next
  case (Cons x xs)
  from Cons.prems(2) have "weight (view s) < limit" by simp
  then obtain r s1 where s1: "call x s = Inr (r, s1)" "good s1" "spec x (view s) = (r, view s1)"
    using call_sim [OF Cons.prems(1)] by blast
  then have "weight (view s1) + length xs \<le> limit"
    using weight_step [OF Cons.prems(1), of x] Cons.prems(2) by simp
  with Cons.IH [OF s1(2)] obtain rs s' where "run_calls call xs s1 = Inr (rs, s')" "good s'"
    "spec_calls spec xs (view s1) = (rs, view s')" by blast
  with s1 show ?case by simp
qed

end

text \<open>The calls on a table. \<open>erase\<close> and the assignment have no result.\<close>

datatype ('k, 'v) table_op = Insert 'k 'v | At 'k | Assign 'k 'v | Erase 'k | Exist 'k | Size

datatype 'v table_out = Status int | Value 'v | Found bool | Number int | Void

fun table_call :: "('k \<Rightarrow> 64 word) \<Rightarrow> 'v \<Rightarrow> ('k, 'v) table_op \<Rightarrow> ('k, 'v) dict \<Rightarrow>
    ('v table_out \<times> ('k, 'v) dict) res" where
  "table_call hf dflt (Insert k v) d = bind_res (dict_insert hf dflt k v d) (\<lambda>(c, d'). Inr (Status c, d'))"
| "table_call hf dflt (At k) d = bind_res (dict_at hf dflt k d) (\<lambda>(v, d'). Inr (Value v, d'))"
| "table_call hf dflt (Assign k v) d = bind_res (dict_assign hf dflt k v d) (\<lambda>d'. Inr (Void, d'))"
| "table_call hf dflt (Erase k) d = bind_res (dict_erase hf k d) (\<lambda>d'. Inr (Void, d'))"
| "table_call hf dflt (Exist k) d = bind_res (dict_exist hf k d) (\<lambda>(b, d'). Inr (Found b, d'))"
| "table_call hf dflt Size d = Inr (Number (dict_size d), d)"

text \<open>The same calls on a map.\<close>

fun map_call :: "'v \<Rightarrow> ('k, 'v) table_op \<Rightarrow> ('k \<rightharpoonup> 'v) \<Rightarrow> 'v table_out \<times> ('k \<rightharpoonup> 'v)" where
  "map_call dflt (Insert k v) m = (case m k of None \<Rightarrow> (Status DICT_OK, m(k \<mapsto> v)) | Some x \<Rightarrow> (Status DICT_ERR, m))"
| "map_call dflt (At k) m = (case m k of None \<Rightarrow> (Value dflt, m(k \<mapsto> dflt)) | Some v \<Rightarrow> (Value v, m))"
| "map_call dflt (Assign k v) m = (Void, m(k \<mapsto> v))"
| "map_call dflt (Erase k) m = (Void, m(k := None))"
| "map_call dflt (Exist k) m = (Found (m k \<noteq> None), m)"
| "map_call dflt Size m = (Number (int (card (dom m))), m)"

lemma table_call_sim:
  assumes inv: "dict_inv hf d" and room: "card (dom (dict_map d)) < 2 ^ 29"
  shows "\<exists>r d'. table_call hf dflt x d = Inr (r, d') \<and> dict_inv hf d' \<and>
    map_call dflt x (dict_map d) = (r, dict_map d')"
proof -
  have room': "dict_card d < 2 ^ 29" using dict_card_dom [OF inv] room by simp
  show ?thesis
  proof (cases x)
    case (Insert k v)
    then show ?thesis using dict_insert_spec [OF inv room', of dflt k v]
      by (auto simp: domIff split: if_splits option.splits)
  next
    case (At k)
    then show ?thesis using dict_at_spec [OF inv room', of dflt k] by (auto split: option.splits)
  next
    case (Assign k v)
    then show ?thesis using dict_assign_spec [OF inv room', of dflt k v] by auto
  next
    case (Erase k)
    then show ?thesis using dict_erase_spec [OF inv, of k] by auto
  next
    case (Exist k)
    then show ?thesis using dict_exist_spec [OF inv, of k] rehash_keeps_map [OF inv]
      by (auto simp: rehash_keeps_def domIff)
  next
    case Size
    then show ?thesis using dict_size_eq [OF inv] dict_card_dom [OF inv] inv by auto
  qed
qed

lemma dict_finite: "finite (dom (dict_map d))"
  by (simp add: dict_map_def finite_dom_map_of)

lemma map_call_card:
  "finite (dom m) \<Longrightarrow> card (dom (snd (map_call dflt x m))) \<le> card (dom m) + 1"
  by (cases x) (auto simp: card_insert_if card_Diff1_le le_SucI split: option.splits)

interpretation tab: bounded_simulation "dict_inv hf" dict_map "table_call hf dflt" "map_call dflt"
    "\<lambda>m. card (dom m)" "2 ^ 29" for hf dflt
  by unfold_locales (erule (1) table_call_sim, rule map_call_card [OF dict_finite])

section \<open>The store behind a connection pool\<close>

locale key_store =
  fixes good :: "'s \<Rightarrow> bool" and view :: "'s \<Rightarrow> 'k \<rightharpoonup> 'v" and null :: 'v and limit :: nat
    and at :: "'k \<Rightarrow> 's \<Rightarrow> ('v \<times> 's) res" and assign :: "'k \<Rightarrow> 'v \<Rightarrow> 's \<Rightarrow> 's res"
    and erase :: "'k \<Rightarrow> 's \<Rightarrow> 's res" and size :: "'s \<Rightarrow> int"
    and random :: "'r \<Rightarrow> 's \<Rightarrow> ('v \<times> 'r \<times> 's) option res"
  assumes finite_view: "good s \<Longrightarrow> finite (dom (view s))"
    and at_law: "good s \<Longrightarrow> card (dom (view s)) < limit \<Longrightarrow>
      \<exists>s'. at k s = Inr (case view s k of Some v \<Rightarrow> v | None \<Rightarrow> null, s') \<and> good s' \<and>
        view s' = (case view s k of Some v \<Rightarrow> view s | None \<Rightarrow> (view s)(k \<mapsto> null))"
    and assign_law: "good s \<Longrightarrow> card (dom (view s)) < limit \<Longrightarrow>
      \<exists>s'. assign k v s = Inr s' \<and> good s' \<and> view s' = (view s)(k \<mapsto> v)"
    and erase_law: "good s \<Longrightarrow> \<exists>s'. erase k s = Inr s' \<and> good s' \<and> view s' = (view s)(k := None)"
    and size_law: "good s \<Longrightarrow> size s = int (card (dom (view s)))"
    and random_law: "good s \<Longrightarrow>
      (if view s = Map.empty then random rs s = Inl Null_Deref
       else random rs s = Inr None \<or> (\<exists>v rs' s'. random rs s = Inr (Some (v, rs', s')) \<and> good s' \<and>
              view s' = view s \<and> v \<in> ran (view s)))"
begin

lemma at_present:
  assumes "good s" "card (dom (view s)) < limit" "view s k = Some v"
  shows "\<exists>s'. at k s = Inr (v, s') \<and> good s' \<and> view s' = view s"
  using at_law [OF assms(1,2), of k] assms(3) by simp

lemma at_absent:
  assumes "good s" "card (dom (view s)) < limit" "view s k = None"
  shows "\<exists>s'. at k s = Inr (null, s') \<and> good s' \<and> view s' = (view s)(k \<mapsto> null)"
  using at_law [OF assms(1,2), of k] assms(3) by simp

text \<open>Reading back what was assigned, and losing what was erased.\<close>

lemma assign_at:
  assumes "good s" "card (dom (view s)) + 1 < limit"
  shows "\<exists>s1 s2. assign k v s = Inr s1 \<and> at k s1 = Inr (v, s2) \<and> view s2 = (view s)(k \<mapsto> v)"
proof -
  from assms(2) have "card (dom (view s)) < limit" by simp
  then obtain s1 where s1: "assign k v s = Inr s1" "good s1" "view s1 = (view s)(k \<mapsto> v)"
    using assign_law [OF assms(1)] by blast
  have "card (dom (view s1)) \<le> card (dom (view s)) + 1"
    using s1(3) finite_view [OF assms(1)] by (simp add: card_insert_if)
  with assms(2) have "card (dom (view s1)) < limit" by simp
  from at_present [OF s1(2) this, of k v] s1 show ?thesis by auto
qed

lemma size_erase_le: "good s \<Longrightarrow> erase k s = Inr s' \<Longrightarrow> size s' \<le> size s"
proof -
  assume s: "good s" "erase k s = Inr s'"
  then have s': "good s'" "view s' = (view s)(k := None)" using erase_law [OF s(1), of k] by auto
  have "dom (view s') \<subseteq> dom (view s)" using s'(2) by auto
  then show ?thesis using size_law s(1) s'(1) finite_view [OF s(1)] by (simp add: card_mono)
qed

lemma empty_iff: "good s \<Longrightarrow> size s = 0 \<longleftrightarrow> view s = Map.empty"
  using size_law [of s] finite_view [of s] by simp

text \<open>A random value of a non-empty store is one of its values.\<close>

lemma random_member:
  assumes "good s" "view s \<noteq> Map.empty" "random rs s = Inr (Some (v, rs', s'))"
  shows "good s'" "view s' = view s" "v \<in> ran (view s)"
  using random_law [OF assms(1), of rs] assms(2,3) by auto

end

interpretation pool: key_store "dict_inv hf" dict_map dflt "2 ^ 29" "dict_at hf dflt" "dict_assign hf dflt"
    "dict_erase hf" dict_size "getRandomValue hf" for hf dflt
proof unfold_locales
  fix d :: "('a, 'b) dict" and k v rs
  assume inv: "dict_inv hf d"
  show "finite (dom (dict_map d))" by (rule dict_finite)
  show "\<exists>d'. dict_erase hf k d = Inr d' \<and> dict_inv hf d' \<and> dict_map d' = (dict_map d)(k := None)"
    using dict_erase_spec [OF inv] by blast
  show "dict_size d = int (card (dom (dict_map d)))" using dict_size_eq [OF inv] dict_card_dom [OF inv] by simp
  show "if dict_map d = Map.empty then getRandomValue hf rs d = Inl Null_Deref
    else getRandomValue hf rs d = Inr None \<or> (\<exists>v rs' d'. getRandomValue hf rs d = Inr (Some (v, rs', d')) \<and>
      dict_inv hf d' \<and> dict_map d' = dict_map d \<and> v \<in> ran (dict_map d))"
    using getRandomValue_spec [OF inv, of rs] rehash_keeps_map [OF inv] by (auto simp: rehash_keeps_def)
  assume "card (dom (dict_map d)) < 2 ^ 29"
  then have room: "dict_card d < 2 ^ 29" using dict_card_dom [OF inv] by simp
  show "\<exists>d'. dict_at hf dflt k d = Inr (case dict_map d k of Some v \<Rightarrow> v | None \<Rightarrow> dflt, d') \<and> dict_inv hf d' \<and>
      dict_map d' = (case dict_map d k of Some v \<Rightarrow> dict_map d | None \<Rightarrow> (dict_map d)(k \<mapsto> dflt))"
    using dict_at_spec [OF inv room] .
  show "\<exists>d'. dict_assign hf dflt k v d = Inr d' \<and> dict_inv hf d' \<and> dict_map d' = (dict_map d)(k \<mapsto> v)"
    using dict_assign_spec [OF inv room] .
qed

lemma getRandomValue_covers:
  assumes "dict_inv hf d" "dict_map d k = Some v"
  shows "\<exists>rs d'. getRandomValue hf rs d = Inr (Some (v, [], d'))"
proof -
  obtain ss l d' where d': "getRandomEntry hf ss d = Inr (Some (Some l, [], d'))" "rehash_keeps hf d d'"
    "loc_holds d' l k v" using getRandomEntry_covers [OF assms] by blast
  then have "getValue l d' = Inr v" by (intro getValue_spec) (auto simp: rehash_keeps_def)
  with d' show ?thesis by (intro exI [of _ ss] exI [of _ d']) (simp add: getRandomValue_def)
qed

text \<open>A store whose random choice draws from a list: what is not needed is left, and every value can be drawn.\<close>

locale drawing_store = key_store good view null limit at assign erase size random
  for good :: "'s \<Rightarrow> bool" and view :: "'s \<Rightarrow> 'k \<rightharpoonup> 'v" and null limit at assign erase size
    and random :: "'r list \<Rightarrow> 's \<Rightarrow> ('v \<times> 'r list \<times> 's) option res" +
  assumes random_more: "random rs s = Inr (Some (v, rest, s')) \<Longrightarrow> random (rs @ extra) s = Inr (Some (v, rest @ extra, s'))"
    and random_covers: "good s \<Longrightarrow> view s k = Some v \<Longrightarrow> \<exists>rs s'. random rs s = Inr (Some (v, [], s'))"
begin

lemma random_draws:
  assumes "good s" "view s k = Some v"
  shows "\<exists>ss s'. good s' \<and> view s' = view s \<and> (\<forall>rs. random (ss @ rs) s = Inr (Some (v, rs, s')))"
proof -
  obtain ss s' where r: "random ss s = Inr (Some (v, [], s'))" using random_covers [OF assms] by blast
  have "view s \<noteq> Map.empty" using assms(2) by auto
  from random_member [OF assms(1) this r] random_more [OF r] show ?thesis by auto
qed

end

interpretation draw: drawing_store "dict_inv hf" dict_map dflt "2 ^ 29" "dict_at hf dflt" "dict_assign hf dflt"
    "dict_erase hf" dict_size "getRandomValue hf" for hf dflt
  by unfold_locales (erule getRandomValue_more, rule getRandomValue_covers)

section \<open>Properties of the hash table\<close>

text \<open>A table caught in the middle of rehashing, from 4 to 8 buckets: the first bucket has been moved.\<close>

definition sample_table :: "(64 word, int) dict" where
  "sample_table = \<lparr>
     ht0 = \<lparr>ht_table = Some [Nullptr, Entry 1 10 (Entry 5 50 Nullptr), Nullptr, Entry 3 30 Nullptr],
            ht_size = 4, ht_sizemask = 3, ht_used = 3\<rparr>,
     ht1 = \<lparr>ht_table = Some [Nullptr, Nullptr, Nullptr, Nullptr, Entry 4 40 Nullptr, Nullptr, Nullptr, Nullptr],
            ht_size = 8, ht_sizemask = 7, ht_used = 1\<rparr>,
     rehashidx = 1, iterators = 0\<rparr>"

definition empty_table :: "(64 word, int) dict" where "empty_table = dict_new"

lemma empty_table_facts: "dict_inv id empty_table" "dict_map empty_table = Map.empty"
  by (simp_all add: empty_table_def dict_new_inv)

lemma sample_table_facts: "dict_inv id sample_table" "isRehashing sample_table"
    "card (dom (dict_map sample_table)) = 4"
    "dict_map sample_table = [1 \<mapsto> 10, 5 \<mapsto> 50, 3 \<mapsto> 30, 4 \<mapsto> 40]"
proof -
  have p: "\<exists>n\<le>31. (4 :: 64 word) = 2 ^ n" "\<exists>n\<le>31. (8 :: 64 word) = 2 ^ n"
    by (rule exI [of _ 2], simp, rule exI [of _ 3], simp)
  have "ht_wf id (ht0 sample_table)" "ht_wf id (ht1 sample_table)"
    using p by (simp_all add: sample_table_def ht_wf_def ht_entries_def bucket_ok_def bucket_index_def
        hash32_def less_Suc_eq nth_Cons' all_conj_distrib)
  then show i: "dict_inv id sample_table"
    by (simp add: dict_inv_def sample_table_def rehash_state_ok_def isRehashing_def dict_entries_def ht_entries_def
        nth_Cons')
  show "isRehashing sample_table" by (simp add: sample_table_def isRehashing_def)
  show m: "dict_map sample_table = [1 \<mapsto> 10, 5 \<mapsto> 50, 3 \<mapsto> 30, 4 \<mapsto> 40]"
    by (simp add: dict_map_def sample_table_def dict_entries_def ht_entries_def fun_eq_iff)
  show "card (dom (dict_map sample_table)) = 4" unfolding m by simp
qed

text \<open>C1: Any sequence of insert, operator[], assignment through operator[], erase, exist and size calls on a
  well-formed table, rehashing or not, answers exactly as the same sequence on a finite map, without any
  undefined behaviour, and leaves a well-formed table that holds that map.\<close>

theorem table_calls_refine_map:
  assumes "dict_inv hf d" "card (dom (dict_map d)) + length ops \<le> 2 ^ 29"
  shows "\<exists>rs d'. run_calls (table_call hf dflt) ops d = Inr (rs, d') \<and> dict_inv hf d' \<and>
    spec_calls (map_call dflt) ops (dict_map d) = (rs, dict_map d')"
  using tab.run_sim [OF assms] .

lemma table_calls_refine_map_witness:
  "\<exists>rs d'. run_calls (table_call id 0) [Insert 9 90, At 5, Erase 1, Exist 1, Assign 1 11, Size] sample_table = Inr (rs, d') \<and>
     rs = [Status 0, Value 50, Void, Found False, Void, Number 5] \<and> dict_inv id d'"
  using table_calls_refine_map [of id sample_table "[Insert 9 90, At 5, Erase 1, Exist 1, Assign 1 11, Size]" 0]
    sample_table_facts by (auto simp: DICT_OK_def DICT_ERR_def insert_commute)


text \<open>C20: Incremental rehashing ends. As many rehash(1) calls as buckets of the old table are left, plus one, finish
  it; no entry is lost or duplicated on the way, and the old table is gone at the end.\<close>

theorem rehash_finishes:
  assumes "dict_inv hf d" "isRehashing d" "int (unat (ht_size (ht0 d))) - rehashidx d < int n"
  shows "\<exists>d'. rehash_times hf n d = Inr d' \<and> dict_inv hf d' \<and> \<not> isRehashing d' \<and> ht1 d' = dictht_empty \<and>
    mset (dict_entries d') = mset (dict_entries d) \<and> dict_map d' = dict_map d"
proof -
  obtain d' where d': "rehash_times hf n d = Inr d'" "rehash_keeps hf d d'" "\<not> isRehashing d'"
    using rehash_times_finishes [OF assms(1,3)] by blast
  then have "dict_inv hf d'" by (simp add: rehash_keeps_def)
  with d' rehash_keeps_map [OF assms(1) d'(2)] show ?thesis
    by (auto simp: rehash_keeps_def dict_inv_def rehash_state_ok_def)
qed

lemma rehash_finishes_witness:
  "\<exists>d'. rehash_times id 4 sample_table = Inr d' \<and> \<not> isRehashing d' \<and>
    dict_map d' = [1 \<mapsto> 10, 5 \<mapsto> 50, 3 \<mapsto> 30, 4 \<mapsto> 40]"
proof -
  have "int (unat (ht_size (ht0 sample_table))) - rehashidx sample_table < int 4"
    by (simp add: sample_table_def)
  from rehash_finishes [OF sample_table_facts(1,2) this] sample_table_facts(4) show ?thesis by auto
qed

text \<open>A table that is due to grow: 24 entries in 4 buckets.\<close>

definition loaded_chain :: "64 word \<Rightarrow> (64 word, int) dictEntry" where
  "loaded_chain k = Entry k 0 (Entry (k + 4) 0 (Entry (k + 8) 0 (Entry (k + 12) 0 (Entry (k + 16) 0 (Entry (k + 20) 0 Nullptr)))))"

definition loaded_table :: "(64 word, int) dict" where
  "loaded_table = \<lparr>
     ht0 = \<lparr>ht_table = Some (map loaded_chain [0, 1, 2, 3]), ht_size = 4, ht_sizemask = 3, ht_used = 24\<rparr>,
     ht1 = dictht_empty, rehashidx = - 1, iterators = 0\<rparr>"

lemma loaded_table_facts: "dict_inv id loaded_table" "\<not> isRehashing loaded_table" "card (dom (dict_map loaded_table)) = 24"
proof -
  have "\<exists>n\<le>31. (4 :: 64 word) = 2 ^ n" by (rule exI [of _ 2]) simp
  then have "ht_wf id (ht0 loaded_table)"
    by (simp add: loaded_table_def loaded_chain_def ht_wf_def ht_entries_def bucket_ok_def bucket_index_def
        hash32_def less_Suc_eq nth_Cons' all_conj_distrib)
  then show i: "dict_inv id loaded_table"
    by (simp add: dict_inv_def loaded_table_def loaded_chain_def rehash_state_ok_def isRehashing_def dict_entries_def ht_entries_def)
  show "\<not> isRehashing loaded_table" by (simp add: loaded_table_def isRehashing_def)
  show "card (dom (dict_map loaded_table)) = 24" using dict_card_dom [OF i]
    by (simp add: dict_card_def loaded_table_def loaded_chain_def dict_entries_def ht_entries_def)
qed

text \<open>C38: When and how the table grows. On a well-formed table of less than \<open>2 ^ 29\<close> entries expandIfNeeded answers DICT_OK and keeps
  the entries: nothing changes while a rehash is under way; a table without buckets gets 4; a table with at least 6 entries per
  bucket starts to rehash, with as many buckets as the power of two that is at least twice and less than four times the
  number of entries; with fewer entries per bucket nothing changes.\<close>

theorem expand_decision:
  assumes "dict_inv hf d" "card (dom (dict_map d)) < 2 ^ 29"
  shows "\<exists>d'. expandIfNeeded d = Inr (DICT_OK, d') \<and> dict_inv hf d' \<and> dict_map d' = dict_map d \<and>
    (if isRehashing d then d' = d
     else if unat (ht_size (ht0 d)) = 0 then d' = d\<lparr>ht0 := dictht_alloc 4\<rparr>
     else if unat (ht_used (ht0 d)) < 6 * unat (ht_size (ht0 d)) then d' = d
     else \<exists>j. 2 * unat (ht_used (ht0 d)) \<le> 2 ^ j \<and> 2 ^ j < 4 * unat (ht_used (ht0 d)) \<and>
            d' = d\<lparr>ht1 := dictht_alloc (2 ^ j), rehashidx := 0\<rparr>)"
proof -
  have "length (dict_entries d) < 2 ^ 29"
    using assms dict_card_dom [OF assms(1)] by (simp add: dict_card_def)
  from expandIfNeeded_spec [OF assms(1) this] obtain d' where
    d': "expandIfNeeded d = Inr (DICT_OK, d')" "rehash_keeps hf d d'" "grow_decision d d'" by blast
  then show ?thesis using rehash_keeps_map [OF assms(1) d'(2)]
    unfolding grow_decision_def rehash_keeps_def by blast
qed

lemma expand_decision_witness:
  "expandIfNeeded loaded_table = Inr (DICT_OK, loaded_table\<lparr>ht1 := dictht_alloc 64, rehashidx := 0\<rparr>) \<and>
   expandIfNeeded sample_table = Inr (DICT_OK, sample_table) \<and>
   expandIfNeeded empty_table = Inr (DICT_OK, empty_table\<lparr>ht0 := dictht_alloc 4\<rparr>)"
proof -
  have "(2 :: 64 word) ^ j = 64" if "48 \<le> (2::nat) ^ j" "(2::nat) ^ j < 96" for j
  proof -
    have "5 < j" using that(1) power_increasing [of j 5 "2::nat"] by (cases "j \<le> 5") auto
    moreover have "j < 7" using that(2) power_increasing [of 7 j "2::nat"] by (cases "7 \<le> j") auto
    ultimately have "j = 6" by simp
    then show ?thesis by simp
  qed
  then have "expandIfNeeded loaded_table = Inr (DICT_OK, loaded_table\<lparr>ht1 := dictht_alloc 64, rehashidx := 0\<rparr>)"
    using expand_decision [OF loaded_table_facts(1)] loaded_table_facts(2,3) by (auto simp: loaded_table_def)
  moreover have "expandIfNeeded sample_table = Inr (DICT_OK, sample_table)"
    using expand_decision [OF sample_table_facts(1)] sample_table_facts(2,3) by auto
  moreover have "expandIfNeeded empty_table = Inr (DICT_OK, empty_table\<lparr>ht0 := dictht_alloc 4\<rparr>)"
    using expand_decision [OF empty_table_facts(1)] empty_table_facts(2) by (auto simp: empty_table_def dict_new_def isRehashing_def)
  ultimately show ?thesis by blast
qed

text \<open>nextPower gives the least power of two that is at least 4 and at least the requested size.\<close>

lemma nextPower_least:
  assumes "sz < LONG_MAX"
  shows "\<exists>j. nextPower sz = Inr (2 ^ j) \<and> 2 \<le> j \<and> j \<le> 63 \<and> unat sz \<le> 2 ^ j \<and>
    (\<forall>i. 2 \<le> i \<and> unat sz \<le> 2 ^ i \<longrightarrow> j \<le> i)"
proof -
  obtain j where j: "nextPower sz = Inr (2 ^ j)" "2 \<le> j" "j \<le> 63" "unat sz \<le> 2 ^ j"
    "j = 2 \<or> 2 ^ (j - 1) < unat sz" using nextPower_spec [OF assms] by blast
  have "j \<le> i" if i: "2 \<le> i" "unat sz \<le> 2 ^ i" for i
  proof (rule ccontr)
    assume "\<not> j \<le> i"
    then have "i \<le> j - 1" "j \<noteq> 2" using i(1) by simp_all
    then have "unat sz \<le> 2 ^ (j - 1)" using i(2) power_increasing [of i "j - 1" "2::nat"]
      by (meson le_trans one_le_numeral)
    with j(5) \<open>j \<noteq> 2\<close> show False by simp
  qed
  with j show ?thesis by blast
qed

lemma nextPower_least_witness: "\<exists>j. nextPower 48 = Inr (2 ^ j) \<and> j = 6"
proof -
  have "(48 :: 64 word) < LONG_MAX" by (simp add: LONG_MAX_def)
  from nextPower_least [OF this] obtain j where j: "nextPower 48 = Inr (2 ^ j)" "2 \<le> j" "48 \<le> (2::nat) ^ j"
    "\<forall>i. 2 \<le> i \<and> 48 \<le> (2::nat) ^ i \<longrightarrow> j \<le> i" by auto
  from j(4) have "j \<le> 6" by simp
  moreover have "\<not> j \<le> 5" using j(3) power_increasing [of j 5 "2::nat"] by auto
  ultimately show ?thesis using j(1) by (intro exI [of _ j]) simp
qed

text \<open>getRandomValue answers a value that is in the table, whatever the random numbers are, and every entry of
  the table is the answer for some random numbers; the table still holds the same map.\<close>

lemma random_value_member_and_complete:
  assumes "dict_inv hf d"
  shows "(\<forall>rs v rs' d'. getRandomValue hf rs d = Inr (Some (v, rs', d')) \<longrightarrow>
      v \<in> ran (dict_map d) \<and> dict_inv hf d' \<and> dict_map d' = dict_map d) \<and>
    (\<forall>w \<in> ran (dict_map d). \<exists>ss d'. getRandomValue hf ss d = Inr (Some (w, [], d')))"
proof (intro conjI allI impI ballI)
  fix rs v rs' d'
  assume r: "getRandomValue hf rs d = Inr (Some (v, rs', d'))"
  then have "dict_map d \<noteq> Map.empty" using pool.random_law [OF assms, of rs] by auto
  with pool.random_member [OF assms this r] show "v \<in> ran (dict_map d)" "dict_inv hf d'" "dict_map d' = dict_map d"
    by simp_all
next
  fix w assume "w \<in> ran (dict_map d)"
  then show "\<exists>ss d'. getRandomValue hf ss d = Inr (Some (w, [], d'))"
    using getRandomValue_covers [OF assms] by (auto simp: ran_def)
qed

lemma random_value_member_and_complete_witness:
  "\<exists>ss d'. getRandomValue id ss sample_table = Inr (Some (50, [], d'))"
proof -
  have "dict_map sample_table 5 = Some 50" unfolding sample_table_facts(4) by simp
  then have "50 \<in> ran (dict_map sample_table)" by (rule ranI)
  then show ?thesis using random_value_member_and_complete [OF sample_table_facts(1)] by blast
qed

text \<open>On an empty table getRandomValue and getRandomKey dereference the null pointer that getRandomEntry returns.\<close>

lemma random_on_empty_table_null:
  assumes "dict_inv hf d" "dict_map d = Map.empty"
  shows "getRandomEntry hf rs d = Inr (Some (None, rs, d)) \<and> getRandomValue hf rs d = Inl Null_Deref \<and>
    getRandomKey hf rs d = Inl Null_Deref"
  using getRandomEntry_spec [OF assms(1), of rs] getRandomValue_spec [OF assms(1), of rs]
    getRandomKey_spec [OF assms(1), of rs] assms(2) by simp

text \<open>C39: replace on a key that is present and last in its chain replaces the value. If other entries follow it in
  the chain, it frees them: the chain then ends in a dangling pointer, and looking for any key that was behind is a use
  after free.\<close>

theorem replace_frees_rest_of_chain:
  assumes "dict_inv hf d" "card (dom (dict_map d)) < 2 ^ 29"
    "insertRaw hf dflt k d = Inr (None, Some l, d1)" "loc_chain l d1 = Inr c"
  shows "\<exists>d'. dict_replace hf dflt k v d = Inr (0, d') \<and>
    (if Suc (loc_pos l) = length (chain_list c)
     then dict_inv hf d' \<and> dict_map d' = (dict_map d)(k \<mapsto> v)
     else \<exists>c'. loc_chain l d' = Inr c' \<and>
       (\<forall>k' n. k' \<notin> fst ` set (take (Suc (loc_pos l)) (chain_list c)) \<longrightarrow>
          find_chain k' n c' = Inl Use_After_Free))"
  using dict_replace_existing [OF assms(1) _ assms(3,4)] assms(2) dict_card_dom [OF assms(1)] by simp

text \<open>Keys 0 and 4 collide in a table of four buckets; 4 was inserted last, so 0 is behind it.\<close>

definition colliding_table :: "(64 word, int) dict" where
  "colliding_table = \<lparr>
     ht0 = \<lparr>ht_table = Some [Entry 4 40 (Entry 0 7 Nullptr), Nullptr, Nullptr, Nullptr],
            ht_size = 4, ht_sizemask = 3, ht_used = 2\<rparr>,
     ht1 = dictht_empty, rehashidx = -1, iterators = 0\<rparr>"

lemma colliding_table_inv: "dict_inv id colliding_table" "card (dom (dict_map colliding_table)) = 2"
proof -
  have p: "\<exists>n\<le>31. (4 :: 64 word) = 2 ^ n" by (rule exI [of _ 2]) simp
  then have "ht_wf id (ht0 colliding_table)"
    by (simp add: colliding_table_def ht_wf_def ht_entries_def bucket_ok_def bucket_index_def
        hash32_def less_Suc_eq nth_Cons')
  then show "dict_inv id colliding_table"
    by (simp add: dict_inv_def colliding_table_def rehash_state_ok_def isRehashing_def dict_entries_def
        ht_entries_def)
  have "dict_map colliding_table = [0 \<mapsto> 7, 4 \<mapsto> 40]"
    by (simp add: dict_map_def colliding_table_def dict_entries_def ht_entries_def fun_eq_iff)
  then show "card (dom (dict_map colliding_table)) = 2" by simp
qed

declare nextPower_loop.simps [code]

lemma colliding_table_built:
  "run_calls (table_call id 0) [Insert 0 7, Insert 4 40] empty_table = Inr ([Status 0, Status 0], colliding_table)"
  by code_simp

lemma replace_frees_rest_of_chain_witness:
  "\<exists>d' c'. dict_replace id 0 4 41 colliding_table = Inr (0, d') \<and> loc_chain (Loc 0 0 0) d' = Inr c' \<and>
    find_chain 0 0 c' = Inl Use_After_Free"
proof -
  have "insertRaw id 0 4 colliding_table = Inr (None, Some (Loc 0 0 0), colliding_table)" by code_simp
  moreover have "loc_chain (Loc 0 0 0) colliding_table = Inr (Entry 4 40 (Entry 0 7 Nullptr))" by code_simp
  ultimately show ?thesis
    using replace_frees_rest_of_chain [OF colliding_table_inv(1), of 0 4 "Loc 0 0 0" colliding_table
        "Entry 4 40 (Entry 0 7 Nullptr)" 41] colliding_table_inv(2) by auto
qed

end
