(* ===== verification/Utilities.thy ===== *)
theory Utilities
  imports Prelude
begin

text \<open>
  The string helpers of \<open>src/utilities.cpp\<close> (\<open>ltrim\<close>, \<open>rtrim\<close>, \<open>trim\<close>, \<open>split\<close>, the uses of \<open>format\<close>,
  \<open>getDateAsString\<close>, the clock functions) with the C library functions they call (\<open>strsep\<close>, \<open>atoi\<close>),
  and \<open>convertToKB\<close> and the time stamp of \<open>src/tcpServer.cpp\<close>. Strings are lists of characters. The
  time of day is an argument.
\<close>

section \<open>Trimming\<close>

text \<open>\<open>while (iter != s.end() && isspace(*iter++));\<close> from position \<open>i\<close>: the final position of \<open>iter\<close>.\<close>

function ltrim_loop :: "string \<Rightarrow> nat \<Rightarrow> nat" where
  "ltrim_loop s i = (if i \<ge> length s then i
     else if isspace (s ! i) then ltrim_loop s (i + 1) else i + 1)"
  by pat_completeness auto
termination by (relation "measure (\<lambda>(s, i). length s - i)") auto

definition ltrim :: "string \<Rightarrow> string" where
  "ltrim s = (if s = [] then s else drop (ltrim_loop s 0 - 1) s)"

text \<open>\<open>while (iter != s.begin() && isspace(*--iter));\<close> from position \<open>i\<close>.\<close>

fun rtrim_loop :: "string \<Rightarrow> nat \<Rightarrow> nat" where
  "rtrim_loop s 0 = 0"
| "rtrim_loop s (Suc i) = (if isspace (s ! i) then rtrim_loop s i else i)"

definition rtrim :: "string \<Rightarrow> string" where
  "rtrim s = (if s = [] then s else take (rtrim_loop s (length s) + 1) s)"

definition trim :: "string \<Rightarrow> string" where
  "trim s = rtrim (ltrim s)"

declare ltrim_loop.simps [simp del]

lemma ltrim_loop_spec:
  "i \<le> length s \<Longrightarrow> ltrim_loop s i =
     (if \<forall>c \<in> set (drop i s). isspace c then length s
      else Suc (i + length (takeWhile isspace (drop i s))))"
proof (induction s i rule: ltrim_loop.induct)
  case (1 s i)
  show ?case
  proof (cases "i = length s")
    case True
    then show ?thesis by (simp add: ltrim_loop.simps)
  next
    case False
    with 1(2) have i: "i < length s" by simp
    then have d: "drop i s = s ! i # drop (Suc i) s" by (simp add: Cons_nth_drop_Suc)
    show ?thesis
    proof (cases "isspace (s ! i)")
      case True
      then show ?thesis using 1(1) i by (subst ltrim_loop.simps) (auto simp: d)
    next
      case False
      then show ?thesis using i by (subst ltrim_loop.simps) (auto simp: d)
    qed
  qed
qed

lemma ltrim_eq:
  "ltrim s = (if s \<noteq> [] \<and> (\<forall>c \<in> set s. isspace c) then [last s] else dropWhile isspace s)"
proof (cases "s = []")
  case False
  then have "drop (length s - 1) s = [last s]"
    by (metis append_butlast_last_id append_eq_conv_conj length_butlast)
  then show ?thesis using False ltrim_loop_spec [of 0 s]
    by (auto simp: ltrim_def dropWhile_eq_drop)
qed (simp add: ltrim_def)

lemma rtrim_loop_spec:
  "i \<le> length s \<Longrightarrow> rtrim_loop s i \<le> i \<and>
    (if \<forall>c \<in> set (take i s). isspace c then rtrim_loop s i = 0
     else rtrim_loop s i < i \<and> \<not> isspace (s ! rtrim_loop s i) \<and>
       (\<forall>j. rtrim_loop s i < j \<and> j < i \<longrightarrow> isspace (s ! j)))"
proof (induction i)
  case (Suc i)
  then have t: "take (Suc i) s = take i s @ [s ! i]" by (simp add: take_Suc_conv_app_nth)
  show ?case
  proof (cases "isspace (s ! i)")
    case True
    have IH: "rtrim_loop s i \<le> i" "if \<forall>c \<in> set (take i s). isspace c then rtrim_loop s i = 0
     else rtrim_loop s i < i \<and> \<not> isspace (s ! rtrim_loop s i) \<and>
       (\<forall>j. rtrim_loop s i < j \<and> j < i \<longrightarrow> isspace (s ! j))" using Suc by simp_all
    have eq: "rtrim_loop s (Suc i) = rtrim_loop s i" using True by simp
    show ?thesis
    proof (cases "\<forall>c \<in> set (take i s). isspace c")
      case sp: True
      then show ?thesis using IH True unfolding eq t by simp
    next
      case nsp: False
      then have "\<not> (\<forall>c \<in> set (take i s @ [s ! i]). isspace c)" by simp
      then show ?thesis using IH nsp True unfolding eq t by (auto simp: less_Suc_eq)
    qed
  next
    case False
    then show ?thesis by (auto simp: t)
  qed
qed simp

text \<open>What is left is the string without its leading and trailing white space.\<close>

definition stripped :: "string \<Rightarrow> string" where
  "stripped s = rev (dropWhile isspace (rev (dropWhile isspace s)))"

lemma rtrim_eq:
  assumes "\<exists>c \<in> set s. \<not> isspace c"
  shows "rtrim s = rev (dropWhile isspace (rev s))"
proof -
  let ?j = "rtrim_loop s (length s)"
  have j: "?j < length s" "\<not> isspace (s ! ?j)" "\<And>k. ?j < k \<Longrightarrow> k < length s \<Longrightarrow> isspace (s ! k)"
    using rtrim_loop_spec [of "length s" s] assms by (auto split: if_splits)
  have "s = take ?j s @ s ! ?j # drop (Suc ?j) s" using j(1) by (simp add: id_take_nth_drop)
  then have r: "rev s = rev (drop (Suc ?j) s) @ s ! ?j # rev (take ?j s)" by (metis append.assoc append_Cons append_Nil rev.simps(2) rev_append)
  have "\<forall>c \<in> set (rev (drop (Suc ?j) s)). isspace c"
    using j(3) by (auto simp: in_set_conv_nth)
  then have "dropWhile isspace (rev s) = s ! ?j # rev (take ?j s)"
    unfolding r using j(2) by (rule dropWhile_all_append)
  then have "rev (dropWhile isspace (rev s)) = take (Suc ?j) s"
    using j(1) by (simp add: take_Suc_conv_app_nth)
  moreover have "s \<noteq> []" using assms by auto
  ultimately show ?thesis by (simp add: rtrim_def)
qed

lemma trim_eq:
  "trim s = (if s \<noteq> [] \<and> (\<forall>c \<in> set s. isspace c) then [last s] else stripped s)"
proof (cases "\<forall>c \<in> set s. isspace c")
  case True
  then show ?thesis by (auto simp: trim_def ltrim_eq rtrim_def stripped_def)
next
  case False
  then have "\<exists>c \<in> set (dropWhile isspace s). \<not> isspace c"
    by (metis dropWhile_eq_Nil_conv hd_dropWhile hd_in_set)
  then show ?thesis using False by (auto simp: trim_def ltrim_eq rtrim_eq stripped_def)
qed

section \<open>Splitting\<close>

text \<open>\<open>strsep(&str, delim)\<close> on the string at \<open>str\<close> (\<open>None\<close> is a null pointer): the token and the new \<open>str\<close>.\<close>

definition strsep :: "string option \<Rightarrow> string \<Rightarrow> (string \<times> string option) option" where
  "strsep str delim = (case str of None \<Rightarrow> None
     | Some s \<Rightarrow> let t = takeWhile (\<lambda>c. c \<notin> set delim) s
         in Some (t, if length t = length s then None else Some (drop (length t + 1) s)))"

lemma rest_shorter: "length (takeWhile P s) \<noteq> length s \<Longrightarrow> length s - Suc n < length s"
  by (cases s) auto

text \<open>The loop of \<open>split\<close>: the tokens and the final \<open>str\<close>, which \<open>delete[]\<close> is applied to.\<close>

function split_loop :: "string option \<Rightarrow> string \<Rightarrow> string list \<Rightarrow> string list \<times> string option" where
  "split_loop str d v = (case strsep str d of None \<Rightarrow> (v, str)
     | Some (t, str') \<Rightarrow> split_loop str' d (v @ [t]))"
  by pat_completeness auto
termination
  by (relation "measure (\<lambda>(str, _, _). case str of None \<Rightarrow> 0 | Some s \<Rightarrow> Suc (length s))")
    (auto simp: strsep_def Let_def rest_shorter split: option.splits if_splits)

declare split_loop.simps [simp del]

definition split_str :: "string \<Rightarrow> string \<Rightarrow> string list" where
  "split_str s d = fst (split_loop (Some (c_str s)) (c_str d) [])"

text \<open>Specification: the fields between delimiters.\<close>

fun field_list :: "(char \<Rightarrow> bool) \<Rightarrow> string \<Rightarrow> string list" where
  "field_list P [] = [[]]"
| "field_list P (c # cs) = (if P c then [] # field_list P cs
     else case field_list P cs of [] \<Rightarrow> [[c]] | f # fs \<Rightarrow> (c # f) # fs)"

lemma fields_not_Nil [simp]: "field_list P s \<noteq> []"
  by (cases s) (auto split: list.splits)

lemma fields_takeWhile:
  "field_list P s = takeWhile (\<lambda>c. \<not> P c) s #
     (if \<exists>c \<in> set s. P c then field_list P (drop (Suc (length (takeWhile (\<lambda>c. \<not> P c) s))) s) else [])"
  by (induction s) auto

lemma field_list_single: "\<forall>c \<in> set s. \<not> P c \<Longrightarrow> field_list P s = [s]"
  by (induction s) auto

lemma takeWhile_length_eq: "length (takeWhile P s) = length s \<longleftrightarrow> (\<forall>c \<in> set s. P c)"
  by (induction s) auto

lemma split_loop_eq:
  "split_loop (Some s) d v = (v @ field_list (\<lambda>c. c \<in> set d) s, None)"
proof (induction "length s" arbitrary: s v rule: less_induct)
  case less
  let ?t = "takeWhile (\<lambda>c. c \<notin> set d) s"
  show ?case
  proof (cases "\<exists>c \<in> set s. c \<in> set d")
    case False
    then have eq: "?t = s" by (auto simp: takeWhile_eq_all_conv)
    have "strsep (Some s) d = Some (s, None)" by (simp add: strsep_def Let_def eq)
    then have "split_loop (Some s) d v = split_loop None d (v @ [s])"
      by (subst split_loop.simps) simp
    also have "\<dots> = (v @ [s], None)" by (subst split_loop.simps) (simp add: strsep_def)
    finally show ?thesis using False by (simp add: field_list_single)
  next
    case True
    then have nl: "length ?t \<noteq> length s" by (auto simp: takeWhile_length_eq)
    then have lt: "length (drop (Suc (length ?t)) s) < length s" using True by (cases s) simp_all
    have "split_loop (Some s) d v = split_loop (Some (drop (Suc (length ?t)) s)) d (v @ [?t])"
      using nl by (subst split_loop.simps) (simp add: strsep_def Let_def)
    also have "\<dots> = (v @ [?t] @ field_list (\<lambda>c. c \<in> set d) (drop (Suc (length ?t)) s), None)"
      using less [OF lt] by simp
    finally show ?thesis using True by (subst fields_takeWhile) simp
  qed
qed

lemma split_str_eq: "split_str s d = field_list (\<lambda>c. c \<in> set (c_str d)) (c_str s)"
  by (simp add: split_str_def split_loop_eq)

text \<open>Joining the fields with the delimiter gives the string back.\<close>

fun join_with :: "char \<Rightarrow> string list \<Rightarrow> string" where
  "join_with c [] = []"
| "join_with c [f] = f"
| "join_with c (f # fs) = f @ c # join_with c fs"

lemma join_with_Cons: "fs \<noteq> [] \<Longrightarrow> join_with c (f # fs) = f @ c # join_with c fs"
  by (cases fs) simp_all

lemma join_fields: "join_with c (field_list (\<lambda>x. x = c) s) = s"
proof (induction s)
  case (Cons a s)
  obtain f fs where f: "field_list (\<lambda>x. x = c) s = f # fs" by (meson fields_not_Nil list.exhaust)
  then show ?case using Cons by (cases fs) auto
qed simp

lemma fields_free: "f \<in> set (field_list P s) \<Longrightarrow> \<forall>c \<in> set f. \<not> P c"
proof (induction s arbitrary: f)
  case (Cons a s)
  obtain g gs where g: "field_list P s = g # gs" by (meson fields_not_Nil list.exhaust)
  show ?case
  proof (cases "P a \<or> f \<in> set gs")
    case True
    then show ?thesis using Cons g by (cases "P a") auto
  next
    case False
    then have "f = a # g" "\<not> P a" using Cons.prems(1) g by (auto split: if_splits)
    moreover have "\<forall>x \<in> set g. \<not> P x" using Cons.IH [of g] g by simp
    ultimately show ?thesis by simp
  qed
qed simp

lemma fields_cut: "\<forall>x \<in> set f. \<not> P x \<Longrightarrow> P c \<Longrightarrow> field_list P (f @ c # s) = f # field_list P s"
  by (induction f) auto

lemma length_field_list: "length (field_list P s) = Suc (length (filter P s))"
proof (induction s)
  case (Cons a s)
  obtain f fs where "field_list P s = f # fs" by (meson fields_not_Nil list.exhaust)
  with Cons show ?case by auto
qed simp

section \<open>Numbers\<close>

text \<open>\<open>atoi\<close>: white space, an optional sign, digits. A value outside \<open>int\<close> is undefined.\<close>

definition atoi :: "string \<Rightarrow> int res" where
  "atoi s = (let t = dropWhile isspace (c_str s);
                 neg = (t \<noteq> [] \<and> hd t = CHR ''-'');
                 ds = (if t \<noteq> [] \<and> (hd t = CHR ''-'' \<or> hd t = CHR ''+'') then tl t else t);
                 v = dec_val 0 (takeWhile isdigit ds)
             in c_int (if neg then - v else v))"

lemma show_nat_first: "\<not> isspace (hd (show_nat n)) \<and> hd (show_nat n) \<noteq> CHR ''-'' \<and> hd (show_nat n) \<noteq> CHR ''+''"
  using show_nat_digits [of n] isdigit_not_space isdigit_not_special
  by (metis hd_in_set show_nat_not_Nil)

lemma c_str_digits: "\<forall>c \<in> set ds. isdigit c \<Longrightarrow> c_str (ds @ NUL # r) = ds"
  by (simp add: c_str_def) (rule takeWhile_all_append, auto)

lemma atoi_show_nat:
  assumes "int n \<le> INT_MAX" "r = [] \<or> \<not> isdigit (hd r)" "NUL \<notin> set r"
  shows "atoi (show_nat n @ r) = Inr (int n)"
proof -
  have "NUL \<notin> set (show_nat n)" using show_nat_digits [of n] by auto
  then have c: "c_str (show_nat n @ r) = show_nat n @ r" using assms(3) by (simp add: c_str_no_NUL)
  have d: "dropWhile isspace (show_nat n @ r) = show_nat n @ r"
    using show_nat_first [of n] by (cases "show_nat n") auto
  have t: "takeWhile isdigit (show_nat n @ r) = show_nat n"
    using show_nat_digits [of n] assms(2) by (cases r) (auto simp: takeWhile_all_append)
  have "INT_MIN \<le> int n" by (simp add: INT_MIN_def)
  then show ?thesis using show_nat_first [of n] assms(1)
    by (simp add: atoi_def c d t dec_val_show_nat c_int_def)
qed

text \<open>\<open>convertToKB(value)\<close> of \<open>tcpServer.cpp\<close>: \<open>value.back()\<close> and \<open>value[size - 1]\<close> need a non-empty string.
  The last character is overwritten with NUL, whether or not it is a unit.\<close>

definition convertToKB :: "string \<Rightarrow> int res" where
  "convertToKB value =
     (if value = [] then Inl Out_Of_Bounds
      else let c = last value;
               factor = (if c = CHR ''K'' then 1 else if c = CHR ''M'' then 1024
                         else if c = CHR ''G'' then 1024 * 1024 else 0)
           in bind_res (atoi (value[length value - 1 := NUL])) (\<lambda>n. c_int (factor * n)))"

lemma convertToKB_snoc:
  "convertToKB (show_nat n @ [u]) = (if int n \<le> INT_MAX
     then c_int ((if u = CHR ''K'' then 1 else if u = CHR ''M'' then 1024 else if u = CHR ''G'' then 1024 * 1024 else 0) * int n)
     else Inl Signed_Overflow)"
proof -
  have upd: "(show_nat n @ [u])[length (show_nat n @ [u]) - 1 := NUL] = show_nat n @ [NUL]" by simp
  have "NUL \<notin> set (show_nat n)" using show_nat_digits [of n] by auto
  then have c: "c_str (show_nat n @ [NUL]) = show_nat n" by (simp add: c_str_no_NUL)
  have "atoi (show_nat n @ [NUL]) = atoi (show_nat n)"
    using \<open>NUL \<notin> set (show_nat n)\<close> by (simp add: atoi_def c c_str_no_NUL)
  also have "\<dots> = (if int n \<le> INT_MAX then Inr (int n) else Inl Signed_Overflow)"
  proof (cases "int n \<le> INT_MAX")
    case True
    then show ?thesis using atoi_show_nat [of n "[]"] by simp
  next
    case False
    have tw: "takeWhile isdigit (show_nat n) = show_nat n"
      using show_nat_digits by (simp add: takeWhile_eq_all_conv)
    have "dropWhile isspace (show_nat n) = show_nat n"
      using show_nat_first [of n] by (cases "show_nat n") auto
    then show ?thesis using False show_nat_first [of n] \<open>NUL \<notin> set (show_nat n)\<close>
      by (simp add: atoi_def c_str_no_NUL dec_val_show_nat c_int_def Let_def tw)
  qed
  finally have "atoi (show_nat n @ [NUL]) = (if int n \<le> INT_MAX then Inr (int n) else Inl Signed_Overflow)" .
  then show ?thesis by (simp add: convertToKB_def upd del: list_update_append)
qed

section \<open>Dates and clocks\<close>

text \<open>\<open>struct tm\<close>, as \<open>localtime\<close> fills it in.\<close>

record tm =
  tm_year :: int
  tm_mon :: int
  tm_mday :: int
  tm_hour :: int
  tm_min :: int
  tm_sec :: int

text \<open>\<open>%4d\<close> and \<open>%02d\<close>.\<close>

definition fmt_4d :: "int \<Rightarrow> string" where
  "fmt_4d i = replicate (4 - length (show_int i)) CHR '' '' @ show_int i"

definition fmt_02d :: "int \<Rightarrow> string" where
  "fmt_02d i = (if i < 0 then CHR ''-'' # replicate (1 - length (show_nat (nat (- i)))) CHR ''0'' @ show_nat (nat (- i))
     else replicate (2 - length (show_nat (nat i))) CHR ''0'' @ show_nat (nat i))"

definition getDateAsString :: "tm \<Rightarrow> string" where
  "getDateAsString now = fmt_4d (tm_year now + 1900) @ ''/'' @ fmt_02d (tm_mon now + 1) @ ''/'' @ fmt_02d (tm_mday now)"

text \<open>\<open>TcpServer::updateTime\<close>: \<open>sprintf\<close> into \<open>char timeBuffer[20]\<close>, then the string in it.\<close>

definition updateTime :: "tm \<Rightarrow> string res" where
  "updateTime t =
     (let s = getDateAsString t @ '' '' @ fmt_02d (tm_hour t) @ '':'' @ fmt_02d (tm_min t) @ '':'' @ fmt_02d (tm_sec t)
      in if length s + 1 > 20 then Inl Out_Of_Bounds
         else Inr (c_str ((s @ replicate (20 - length s) NUL)[19 := NUL])))"

text \<open>The clock functions convert \<open>tv_sec\<close> and \<open>tv_usec\<close> to \<open>int\<close>.\<close>

definition getTimeInSecond :: "64 word \<Rightarrow> int" where
  "getTimeInSecond tv_sec = sint (ucast tv_sec :: 32 word)"

definition getTimeInMicroSecond :: "64 word \<Rightarrow> int" where
  "getTimeInMicroSecond tv_usec = sint (ucast tv_usec :: 32 word)"

definition getTimeInMilliSecond :: "64 word \<Rightarrow> int" where
  "getTimeInMilliSecond tv_usec = getTimeInMicroSecond tv_usec sdiv 1000"

text \<open>Number of decimal digits.\<close>

lemma show_nat_len:
  "0 < k \<Longrightarrow> n < 10 ^ k \<Longrightarrow> length (show_nat n) \<le> k"
proof (induction n arbitrary: k rule: show_nat.induct)
  case (1 n)
  show ?case
  proof (cases "n < 10")
    case True
    then show ?thesis using 1(2) by (subst show_nat.simps) simp
  next
    case False
    with 1(2,3) obtain j where j: "k = Suc j" "0 < j"
      by (cases k; cases "k - 1") auto
    then have "n div 10 < 10 ^ j" using 1(3) by (simp add: less_mult_imp_div_less mult.commute)
    with 1(1) [OF False j(2)] j(1) show ?thesis using False by (subst show_nat.simps) simp
  qed
qed

lemma show_nat_long: "10 ^ k \<le> n \<Longrightarrow> k < length (show_nat n)"
proof (induction k arbitrary: n)
  case (Suc k)
  have "10 * 1 \<le> 10 * (10::nat) ^ k" by (intro mult_le_mono2) simp
  also have "\<dots> \<le> n" using Suc.prems by simp
  finally have "10 \<le> n" by simp
  moreover have "10 ^ k \<le> n div 10" using Suc.prems by (simp add: less_eq_div_iff_mult_less_eq mult.commute)
  ultimately show ?case using Suc.IH [of "n div 10"] by (subst show_nat.simps) simp
qed simp

lemma fmt_02d_len: "0 \<le> i \<Longrightarrow> i < 100 \<Longrightarrow> length (fmt_02d i) = 2"
  using show_nat_len [of 2 "nat i"] show_nat_not_Nil [of "nat i"]
  by (simp add: fmt_02d_def nat_less_iff)

lemma fmt_4d_len: "0 \<le> i \<Longrightarrow> i < 10000 \<Longrightarrow> length (fmt_4d i) = 4"
  using show_nat_len [of 4 "nat i"] by (simp add: fmt_4d_def show_int_def nat_less_iff)

lemma fmt_no_NUL: "NUL \<notin> set (fmt_02d i)" "NUL \<notin> set (fmt_4d i)"
  using show_nat_digits [of "nat i"] show_nat_digits [of "nat (- i)"]
  by (auto simp: fmt_02d_def fmt_4d_def show_int_def)

definition tm_ok :: "tm \<Rightarrow> bool" where
  "tm_ok t \<longleftrightarrow> 0 \<le> tm_mon t \<and> tm_mon t \<le> 11 \<and> 1 \<le> tm_mday t \<and> tm_mday t \<le> 31 \<and> 0 \<le> tm_hour t \<and> tm_hour t \<le> 23 \<and>
     0 \<le> tm_min t \<and> tm_min t \<le> 59 \<and> 0 \<le> tm_sec t \<and> tm_sec t \<le> 60"

section \<open>Properties\<close>

text \<open>trim removes exactly the leading and trailing white space; but of a string of white space only it leaves the
  last character.\<close>

lemma trim_spec:
  "trim s = (if s \<noteq> [] \<and> (\<forall>c \<in> set s. isspace c) then [last s] else stripped s)"
  by (rule trim_eq)

lemma trim_spec_witness: "trim ''  '' = '' '' \<and> trim '' a b '' = ''a b''"
  using trim_spec [of "''  ''"] trim_spec [of "'' a b ''"] by (simp add: isspace_def stripped_def)

text \<open>split cuts a C string at every delimiter character and nowhere else: no field contains a delimiter, and for one
  delimiter joining the fields with it gives the string back (up to its first NUL).\<close>

lemma split_roundtrip:
  assumes "d \<noteq> NUL"
  shows "join_with d (split_str s [d]) = c_str s \<and> (\<forall>f \<in> set (split_str s [d]). d \<notin> set f)"
proof -
  have d: "c_str [d] = [d]" using assms by (simp add: c_str_def)
  have eq: "split_str s [d] = field_list (\<lambda>c. c = d) (c_str s)" by (simp add: split_str_eq d)
  have "\<forall>f \<in> set (field_list (\<lambda>c. c = d) (c_str s)). d \<notin> set f" using fields_free by fast
  then show ?thesis unfolding eq by (simp add: join_fields)
qed

lemma split_roundtrip_witness:
  "join_with CHR ''='' (split_str ''a=b='' ''='') = ''a=b'' @ ''='' \<and> split_str ''a=b='' ''='' = [''a'', ''b'', []]"
  using split_roundtrip [of "CHR ''=''" "''a=b=''"] by (simp add: split_str_eq c_str_def)

text \<open>convertToKB of a decimal number followed by one unit character is the number of kilobytes; any other last
  character, also a digit, gives 0 (a size without a unit is lost), and a product outside int overflows.\<close>

lemma convertToKB_units:
  "convertToKB (show_nat n @ [u]) =
     (if int n > INT_MAX then Inl Signed_Overflow
      else if u = CHR ''K'' then Inr (int n)
      else if u = CHR ''M'' then c_int (1024 * int n)
      else if u = CHR ''G'' then c_int (1048576 * int n)
      else Inr 0)"
  by (simp add: convertToKB_snoc c_int_nonneg c_int_def INT_MIN_def INT_MAX_def)

text \<open>A time stamp fills the 20 bytes of timeBuffer exactly for the years 0 to 9999; a later year writes past its
  end.\<close>

lemma updateTime_fits:
  assumes "tm_ok t" "0 \<le> tm_year t + 1900"
  shows "if tm_year t + 1900 < 10000 then \<exists>s. updateTime t = Inr s \<and> length s = 19
    else updateTime t = Inl Out_Of_Bounds"
proof -
  let ?s = "getDateAsString t @ '' '' @ fmt_02d (tm_hour t) @ '':'' @ fmt_02d (tm_min t) @ '':'' @ fmt_02d (tm_sec t)"
  have len: "length ?s = length (fmt_4d (tm_year t + 1900)) + 15"
    using assms(1) by (simp add: getDateAsString_def tm_ok_def fmt_02d_len)
  show ?thesis
  proof (cases "tm_year t + 1900 < 10000")
    case True
    then have l: "length ?s = 19" using len fmt_4d_len assms(2) by simp
    have "NUL \<notin> set ?s" using fmt_no_NUL by (simp add: getDateAsString_def)
    then have "c_str ((?s @ [NUL])[19 := NUL]) = ?s" using l by (simp add: list_update_append c_str_no_NUL del: append_assoc)
    then have "updateTime t = Inr ?s" using l unfolding updateTime_def Let_def by (simp del: append_assoc)
    with l True show ?thesis by simp
  next
    case False
    then have "4 < length (show_nat (nat (tm_year t + 1900)))" using show_nat_long [of 4 "nat (tm_year t + 1900)"] by simp
    then have "length ?s > 19" using len False by (simp add: fmt_4d_def show_int_def)
    then show ?thesis using False unfolding updateTime_def Let_def by simp
  qed
qed

lemma updateTime_fits_witness:
  "\<exists>s. updateTime \<lparr>tm_year = 124, tm_mon = 1, tm_mday = 29, tm_hour = 12, tm_min = 30, tm_sec = 5\<rparr> = Inr s \<and> length s = 19"
  using updateTime_fits [of "\<lparr>tm_year = 124, tm_mon = 1, tm_mday = 29, tm_hour = 12, tm_min = 30, tm_sec = 5\<rparr>"]
  by (simp add: tm_ok_def)

end
