(* ===== verification/Config.thy ===== *)
theory Config
  imports Utilities
begin

text \<open>
  The configuration of the server, \<open>TcpServer::loadConfig\<close> of \<open>src/tcpServer.cpp\<close>, and the shipped file
  \<open>src/yeyj.config\<close>. A member that the constructor does not initialise is \<open>None\<close> until the file sets it; reading it
  then is the error \<open>Uninitialised_Read\<close>. \<open>_loadBalance\<close> is an \<open>std::function\<close>, empty until set, and
  \<open>_log_file_name_prefix\<close> is a string, empty until set. The messages printed while loading are left out.
\<close>

section \<open>Members of the server that the file sets\<close>

definition MAX_TCP_EVICTION_NONE :: int where "MAX_TCP_EVICTION_NONE = 0"
definition MAX_TCP_EVICTION_RANDOM :: int where "MAX_TCP_EVICTION_RANDOM = 1"
definition MAX_TCP_EVICTION_INACTIVE :: int where "MAX_TCP_EVICTION_INACTIVE = 2"
definition INACTIVE_TCP_EVICTION_NONE :: int where "INACTIVE_TCP_EVICTION_NONE = 0"
definition INACTIVE_TCP_EVICTION_CLOSE :: int where "INACTIVE_TCP_EVICTION_CLOSE = 1"
definition LOG_FILE_ROLLING_NONE :: int where "LOG_FILE_ROLLING_NONE = 0"
definition LOG_FILE_ROLLING_SIZE :: int where "LOG_FILE_ROLLING_SIZE = 1"
definition LOG_FILE_ROLLING_DAILY :: int where "LOG_FILE_ROLLING_DAILY = 2"
definition LOG_FILE_ROLLING_SIZEDAILY :: int where "LOG_FILE_ROLLING_SIZEDAILY = 3"

datatype balance = RoundRobin | Random | MinConnection | IPHash

record config =
  listenning_port :: "int option"
  max_tcp :: "int option"
  max_tcp_per_worker :: "int option"
  max_tcp_eviction_rule :: "int option"
  inactive_tcp_timeout :: "int option"
  inactive_tcp_eviction_rule :: "int option"
  max_vm_kb :: "int option"
  max_rss_kb :: "int option"
  eviction_pool_size :: "int option"
  loadBalance :: "balance option"
  tcp_read_buffer_init_size_bytes :: "int option"
  tcp_read_buffer_max_size_bytes :: "int option"
  tcp_write_buffer_init_size_bytes :: "int option"
  tcp_write_buffer_max_size_bytes :: "int option"
  log_file_name_prefix :: string
  log_file_rolling :: "int option"
  log_file_max_size_bytes :: "int option"
  log_flush_interval_second :: "int option"
  log_high_watermask :: "int option"

definition config_unset :: config where
  "config_unset = \<lparr>listenning_port = None, max_tcp = None, max_tcp_per_worker = None,
     max_tcp_eviction_rule = None, inactive_tcp_timeout = None, inactive_tcp_eviction_rule = None,
     max_vm_kb = None, max_rss_kb = None, eviction_pool_size = None, loadBalance = None,
     tcp_read_buffer_init_size_bytes = None, tcp_read_buffer_max_size_bytes = None,
     tcp_write_buffer_init_size_bytes = None, tcp_write_buffer_max_size_bytes = None,
     log_file_name_prefix = [], log_file_rolling = None, log_file_max_size_bytes = None,
     log_flush_interval_second = None, log_high_watermask = None\<rparr>"

text \<open>Reading a member.\<close>

definition get_set :: "'a option \<Rightarrow> 'a res" where
  "get_set x = (case x of None \<Rightarrow> Inl Uninitialised_Read | Some v \<Rightarrow> Inr v)"

lemma get_set_simps [simp]: "get_set None = Inl Uninitialised_Read" "get_set (Some v) = Inr v"
  by (simp_all add: get_set_def)

section \<open>Loading\<close>

text \<open>\<open>1024 * convertToKB(value)\<close>\<close>

definition size_bytes :: "string \<Rightarrow> int res" where
  "size_bytes v = bind_res (convertToKB v) (\<lambda>n. c_int (1024 * n))"

text \<open>The chain of \<open>if (key == ...)\<close>. An unknown rule or balance name leaves the member as it is, and so does an unknown
  key. After \<open>log-file-rolling\<close> the member itself is printed, so it is read.\<close>

definition config_entry :: "string \<Rightarrow> string \<Rightarrow> config \<Rightarrow> config res" where
  "config_entry key value c =
     (if key = ''listening-port'' then bind_res (atoi value) (\<lambda>n. Inr (c\<lparr>listenning_port := Some n\<rparr>))
      else if key = ''max-tcp'' then bind_res (atoi value) (\<lambda>n. Inr (c\<lparr>max_tcp := Some n\<rparr>))
      else if key = ''max-tcp-per-worker'' then bind_res (atoi value) (\<lambda>n. Inr (c\<lparr>max_tcp_per_worker := Some n\<rparr>))
      else if key = ''max-tcp-eviction-rule'' then Inr
        (if value = ''none'' then c\<lparr>max_tcp_eviction_rule := Some MAX_TCP_EVICTION_NONE\<rparr>
         else if value = ''random'' then c\<lparr>max_tcp_eviction_rule := Some MAX_TCP_EVICTION_RANDOM\<rparr>
         else if value = ''inactive'' then c\<lparr>max_tcp_eviction_rule := Some MAX_TCP_EVICTION_INACTIVE\<rparr>
         else c)
      else if key = ''inactive-tcp-timeout'' then bind_res (atoi value) (\<lambda>n. Inr (c\<lparr>inactive_tcp_timeout := Some n\<rparr>))
      else if key = ''inactive-tcp-eviction-rule'' then Inr
        (if value = ''none'' then c\<lparr>inactive_tcp_eviction_rule := Some INACTIVE_TCP_EVICTION_NONE\<rparr>
         else if value = ''close'' then c\<lparr>inactive_tcp_eviction_rule := Some INACTIVE_TCP_EVICTION_CLOSE\<rparr>
         else c)
      else if key = ''max-vm-memory'' then bind_res (convertToKB value) (\<lambda>n. Inr (c\<lparr>max_vm_kb := Some n\<rparr>))
      else if key = ''max-rss'' then bind_res (convertToKB value) (\<lambda>n. Inr (c\<lparr>max_rss_kb := Some n\<rparr>))
      else if key = ''eviction-pool-size'' then bind_res (atoi value) (\<lambda>n. Inr (c\<lparr>eviction_pool_size := Some n\<rparr>))
      else if key = ''load-balance'' then Inr
        (if value = ''round-robin'' then c\<lparr>loadBalance := Some RoundRobin\<rparr>
         else if value = ''random'' then c\<lparr>loadBalance := Some Random\<rparr>
         else if value = ''min-connection'' then c\<lparr>loadBalance := Some MinConnection\<rparr>
         else if value = ''ip-hash'' then c\<lparr>loadBalance := Some IPHash\<rparr>
         else c)
      else if key = ''tcp-read-buffer-init-size-bytes'' then
        bind_res (size_bytes value) (\<lambda>n. Inr (c\<lparr>tcp_read_buffer_init_size_bytes := Some n\<rparr>))
      else if key = ''tcp-write-buffer-init-size-bytes'' then
        bind_res (size_bytes value) (\<lambda>n. Inr (c\<lparr>tcp_write_buffer_init_size_bytes := Some n\<rparr>))
      else if key = ''tcp-read-buffer-max-size-bytes'' then
        bind_res (size_bytes value) (\<lambda>n. Inr (c\<lparr>tcp_read_buffer_max_size_bytes := Some n\<rparr>))
      else if key = ''tcp-write-buffer-max-size-bytes'' then
        bind_res (size_bytes value) (\<lambda>n. Inr (c\<lparr>tcp_write_buffer_max_size_bytes := Some n\<rparr>))
      else if key = ''log-file-name-prefix'' then Inr (c\<lparr>log_file_name_prefix := value\<rparr>)
      else if key = ''log-file-rolling'' then
        let c' = (if value = ''none'' then c\<lparr>log_file_rolling := Some LOG_FILE_ROLLING_NONE\<rparr>
           else if value = ''size'' then c\<lparr>log_file_rolling := Some LOG_FILE_ROLLING_SIZE\<rparr>
           else if value = ''daily'' then c\<lparr>log_file_rolling := Some LOG_FILE_ROLLING_DAILY\<rparr>
           else if value = ''size & daily'' then c\<lparr>log_file_rolling := Some LOG_FILE_ROLLING_SIZEDAILY\<rparr>
           else c)
        in bind_res (get_set (log_file_rolling c')) (\<lambda>_. Inr c')
      else if key = ''log-file-max-size'' then
        bind_res (size_bytes value) (\<lambda>n. Inr (c\<lparr>log_file_max_size_bytes := Some n\<rparr>))
      else if key = ''log-flush-interval-second'' then
        bind_res (atoi value) (\<lambda>n. Inr (c\<lparr>log_flush_interval_second := Some n\<rparr>))
      else if key = ''log-high-watermask'' then
        bind_res (atoi value) (\<lambda>n. Inr (c\<lparr>log_high_watermask := Some n\<rparr>))
      else Inr c)"

text \<open>\<open>getline\<close> gives the characters up to the next newline and sets \<open>eof\<close> when there is none.\<close>

abbreviation NEWLINE :: char where "NEWLINE \<equiv> CHR 0x0A"

definition getline :: "string \<Rightarrow> string \<times> string option" where
  "getline s = (let l = takeWhile (\<lambda>c. c \<noteq> NEWLINE) s
     in (l, if length l = length s then None else Some (drop (length l + 1) s)))"

text \<open>The body of the loop for one line: \<open>None\<close> is the \<open>break\<close>.\<close>

definition config_line :: "string \<Rightarrow> config \<Rightarrow> config option res" where
  "config_line line c =
     (if line = [] then Inr (Some c)
      else if hd line = CHR ''#'' then Inr (Some c)
      else let currentLine = split_str line ''=''
           in if length currentLine \<noteq> 2 then Inr None
              else bind_res (config_entry (trim (currentLine ! 0)) (trim (currentLine ! 1)) c) (\<lambda>c'. Inr (Some c')))"

text \<open>The loop, on the unread rest of the file (\<open>None\<close>: \<open>eof\<close>).\<close>

function config_loop :: "string option \<Rightarrow> config \<Rightarrow> config res" where
  "config_loop None c = Inr c"
| "config_loop (Some s) c =
     bind_res (config_line (fst (getline s)) c) (\<lambda>r. case r of
       None \<Rightarrow> Inr c
     | Some c' \<Rightarrow> config_loop (snd (getline s)) c')"
  by pat_completeness auto
termination
  by (relation "measure (\<lambda>(str, _). case str of None \<Rightarrow> 0 | Some s \<Rightarrow> Suc (length s))")
    (auto simp: getline_def Let_def rest_shorter split: option.splits)

declare config_loop.simps(2) [simp del]

text \<open>\<open>loadConfig\<close>; \<open>None\<close> is a file that cannot be opened.\<close>

definition loadConfig :: "string option \<Rightarrow> config \<Rightarrow> config res" where
  "loadConfig file c = (case file of None \<Rightarrow> Inr c | Some s \<Rightarrow> config_loop (Some s) c)"

section \<open>Files as lists of lines\<close>

fun config_lines :: "string list \<Rightarrow> config \<Rightarrow> config res" where
  "config_lines [] c = Inr c"
| "config_lines (l # ls) c = bind_res (config_line l c) (\<lambda>r. case r of None \<Rightarrow> Inr c | Some c' \<Rightarrow> config_lines ls c')"

lemma config_loop_lines:
  "config_loop (Some s) c = config_lines (field_list (\<lambda>x. x = NEWLINE) s) c"
proof (induction "length s" arbitrary: s c rule: less_induct)
  case less
  let ?t = "takeWhile (\<lambda>x. x \<noteq> NEWLINE) s"
  show ?case
  proof (cases "\<exists>x \<in> set s. x = NEWLINE")
    case False
    then have "length ?t = length s" by (auto simp: takeWhile_length_eq)
    then show ?thesis using False
      by (subst fields_takeWhile)
        (auto simp: config_loop.simps(2) getline_def Let_def bind_res_def split: sum.splits option.splits)
  next
    case True
    then have nl: "length ?t \<noteq> length s" by (auto simp: takeWhile_length_eq)
    then have lt: "length (drop (Suc (length ?t)) s) < length s" using True by (cases s) simp_all
    let ?r = "drop (Suc (length ?t)) s"
    have "config_loop (Some ?r) = config_lines (field_list (\<lambda>x. x = NEWLINE) ?r)" using less [OF lt] by auto
    then show ?thesis using True nl
      by (subst fields_takeWhile) (simp add: config_loop.simps(2) getline_def Let_def)
  qed
qed

lemma fields_join:
  assumes "\<forall>l \<in> set ls. c \<notin> set l" "ls \<noteq> []"
  shows "field_list (\<lambda>x. x = c) (join_with c ls) = ls"
  using assms
proof (induction ls)
  case (Cons l ls)
  show ?case
  proof (cases "ls = []")
    case True
    then show ?thesis using Cons.prems field_list_single [of l "\<lambda>x. x = c"] by auto
  next
    case False
    have "field_list (\<lambda>x. x = c) (l @ c # s) = l # field_list (\<lambda>x. x = c) s" for s
      using Cons.prems by (intro fields_cut) auto
    then show ?thesis using Cons False by (simp add: join_with_Cons)
  qed
qed simp

text \<open>Loading a file of lines.\<close>

lemma loadConfig_lines:
  assumes "\<forall>l \<in> set ls. NEWLINE \<notin> set l" "ls \<noteq> []"
  shows "loadConfig (Some (join_with NEWLINE ls)) c = config_lines ls c"
  using assms by (simp add: loadConfig_def config_loop_lines fields_join)

lemma config_lines_append:
  "config_lines ls c = Inr c' \<Longrightarrow> (\<forall>l \<in> set ls. \<forall>c. config_line l c \<noteq> Inr None) \<Longrightarrow>
   config_lines (ls @ ls') c = config_lines ls' c'"
proof (induction ls arbitrary: c)
  case (Cons l ls)
  then obtain r where r: "config_line l c = Inr r" by (cases "config_line l c") auto
  with Cons.prems(2) obtain d where "r = Some d" by (cases r) auto
  with Cons r show ?case by simp
qed simp

text \<open>A line \<open>key = value\<close>.\<close>

definition clean :: "string \<Rightarrow> bool" where
  "clean s \<longleftrightarrow> NUL \<notin> set s \<and> CHR ''='' \<notin> set s \<and> NEWLINE \<notin> set s \<and> stripped s = s \<and> (\<exists>c \<in> set s. \<not> isspace c)"

definition entry_line :: "string \<times> string \<Rightarrow> string" where
  "entry_line kv = fst kv @ '' = '' @ snd kv"

lemma dropWhile_space_snoc: "\<exists>c \<in> set s. \<not> isspace c \<Longrightarrow> dropWhile isspace (s @ t) = dropWhile isspace s @ t"
  by (induction s) auto

lemma trim_padded:
  assumes "clean s"
  shows "trim (s @ '' '') = s" "trim ('' '' @ s) = s"
proof -
  have ns: "\<exists>c \<in> set s. \<not> isspace c" and st: "stripped s = s" using assms by (simp_all add: clean_def)
  have sp: "isspace CHR '' ''" by (simp add: isspace_def)
  have "stripped (s @ '' '') = s"
    using ns st sp dropWhile_space_snoc [OF ns, of "'' ''"] by (simp add: stripped_def)
  then show "trim (s @ '' '') = s" using ns by (auto simp: trim_eq)
  have "stripped ('' '' @ s) = s" using st sp by (simp add: stripped_def)
  then show "trim ('' '' @ s) = s" using ns by (auto simp: trim_eq)
qed

lemma config_line_entry:
  assumes "clean k" "clean v" "hd k \<noteq> CHR ''#''"
  shows "config_line (entry_line (k, v)) c = bind_res (config_entry k v c) (\<lambda>c'. Inr (Some c'))"
proof -
  have k: "k \<noteq> []" using assms(1) by (auto simp: clean_def)
  have nn: "NUL \<notin> set (entry_line (k, v))" using assms(1,2) by (auto simp: clean_def entry_line_def)
  have e: "c_str ''='' = ''=''" by (simp add: c_str_def)
  have "entry_line (k, v) = (k @ '' '') @ CHR ''='' # ('' '' @ v)" by (simp add: entry_line_def)
  moreover have "field_list (\<lambda>x. x \<in> set ''='') ((k @ '' '') @ CHR ''='' # ('' '' @ v)) = [k @ '' '', '' '' @ v]"
  proof (subst fields_cut)
    show "\<forall>x \<in> set (k @ '' ''). x \<notin> set ''=''" using assms(1) by (auto simp: clean_def)
    have "field_list (\<lambda>x. x \<in> set ''='') ('' '' @ v) = ['' '' @ v]"
      using assms(2) by (intro field_list_single) (auto simp: clean_def)
    then show "(k @ '' '') # field_list (\<lambda>x. x \<in> set ''='') ('' '' @ v) = [k @ '' '', '' '' @ v]" by simp
  qed simp
  ultimately have "split_str (entry_line (k, v)) ''='' = [k @ '' '', '' '' @ v]"
    unfolding split_str_eq c_str_no_NUL [OF nn] e by metis
  then show ?thesis using trim_padded assms k by (simp add: config_line_def entry_line_def)
qed

section \<open>The getters of the server\<close>

text \<open>The workers read the settings through them.\<close>

definition getMaxTcpConnectionPerWorker :: "config \<Rightarrow> int res" where
  [simp]: "getMaxTcpConnectionPerWorker c = get_set (max_tcp_per_worker c)"
definition getMaxTcpEvictionRule :: "config \<Rightarrow> int res" where
  [simp]: "getMaxTcpEvictionRule c = get_set (max_tcp_eviction_rule c)"
definition getInactiveTcpTimeOut :: "config \<Rightarrow> int res" where
  [simp]: "getInactiveTcpTimeOut c = get_set (inactive_tcp_timeout c)"
definition getInactiveTcpEvictionRule :: "config \<Rightarrow> int res" where
  [simp]: "getInactiveTcpEvictionRule c = get_set (inactive_tcp_eviction_rule c)"
definition getEvictionPoolSize :: "config \<Rightarrow> int res" where
  [simp]: "getEvictionPoolSize c = get_set (eviction_pool_size c)"

section \<open>The shipped file\<close>

text \<open>The lines of \<open>src/yeyj.config\<close>. The file does not end with a newline.\<close>

definition yeyj_config_lines :: "string list" where
  "yeyj_config_lines = [
    ''#listenning-port = 44350'',
    [],
    ''# some comments'',
    ''# ...'',
    ''max-tcp-= 100'',
    [],
    ''max-tcp-per-worker = 100'',
    [],
    ''# none | random | inactive'',
    ''max-tcp-eviction-rule = inactive'',
    [],
    ''inactive-tcp-timeout = 10'',
    [],
    ''# none | close'',
    ''inactive-tcp-eviction-rule = none'',
    [],
    ''# nK | nM | nG'',
    ''max-vm-memory = 100M'',
    [],
    ''# nK | nM | nG'',
    ''max-rss = 100M'',
    [],
    ''eviction-pool-size = 5'',
    [],
    ''# round-robin | random | min-connection | ip-hash'',
    ''load-balance = ip-hash'',
    [],
    ''# nK | nM | nG'',
    ''tcp-read-buffer-init-size-bytes = 1M'',
    ''tcp-read-buffer-max-size-bytes = 10M'',
    [],
    ''# nK | nM | nG'',
    ''tcp-write-buffer-init-size-bytes = 1M'',
    ''tcp-write-buffer-max-size-bytes = 10M'',
    [],
    ''log-file-name-prefix = yeyjlogfile'',
    [],
    ''# none | size | daily | size & daily'',
    ''log-file-rolling = size & daily'',
    ''log-file-max-size = 1K'',
    [],
    ''log-flush-interval-second = 1'',
    ''log-high-watermask = 1000'']"

definition yeyj_config :: string where "yeyj_config = join_with NEWLINE yeyj_config_lines"

definition shipped_config :: config where
  "shipped_config = \<lparr>listenning_port = None, max_tcp = None, max_tcp_per_worker = Some 100,
     max_tcp_eviction_rule = Some 2, inactive_tcp_timeout = Some 10, inactive_tcp_eviction_rule = Some 0,
     max_vm_kb = Some 102400, max_rss_kb = Some 102400, eviction_pool_size = Some 5, loadBalance = Some IPHash,
     tcp_read_buffer_init_size_bytes = Some 1048576, tcp_read_buffer_max_size_bytes = Some 10485760,
     tcp_write_buffer_init_size_bytes = Some 1048576, tcp_write_buffer_max_size_bytes = Some 10485760,
     log_file_name_prefix = ''yeyjlogfile'', log_file_rolling = Some 3, log_file_max_size_bytes = Some 1024,
     log_flush_interval_second = Some 1, log_high_watermask = Some 1000\<rparr>"

lemma shipped_lines: "config_lines yeyj_config_lines config_unset = Inr shipped_config"
  by code_simp

section \<open>Types of the members\<close>

text \<open>A number that has been set is an \<open>int\<close>, and a rule is one of its named values.\<close>

definition INT_opt :: "int option \<Rightarrow> bool" where
  "INT_opt x \<longleftrightarrow> (\<forall>n. x = Some n \<longrightarrow> INT_MIN \<le> n \<and> n \<le> INT_MAX)"

definition config_typed :: "config \<Rightarrow> bool" where
  "config_typed c \<longleftrightarrow> (\<forall>x \<in> {listenning_port c, max_tcp c, max_tcp_per_worker c, inactive_tcp_timeout c, max_vm_kb c, max_rss_kb c,
       eviction_pool_size c, tcp_read_buffer_init_size_bytes c, tcp_read_buffer_max_size_bytes c,
       tcp_write_buffer_init_size_bytes c, tcp_write_buffer_max_size_bytes c, log_file_max_size_bytes c,
       log_flush_interval_second c, log_high_watermask c}. INT_opt x) \<and>
     max_tcp_eviction_rule c \<in> {None, Some MAX_TCP_EVICTION_NONE, Some MAX_TCP_EVICTION_RANDOM, Some MAX_TCP_EVICTION_INACTIVE} \<and>
     inactive_tcp_eviction_rule c \<in> {None, Some INACTIVE_TCP_EVICTION_NONE, Some INACTIVE_TCP_EVICTION_CLOSE} \<and>
     log_file_rolling c \<in> {None, Some LOG_FILE_ROLLING_NONE, Some LOG_FILE_ROLLING_SIZE, Some LOG_FILE_ROLLING_DAILY,
       Some LOG_FILE_ROLLING_SIZEDAILY}"

lemma c_int_opt: "c_int x = Inr n \<Longrightarrow> INT_opt (Some n)"
  by (auto simp: c_int_def INT_opt_def split: if_splits)

lemma number_opts:
  "atoi v = Inr n \<Longrightarrow> INT_opt (Some n)" "convertToKB v = Inr n \<Longrightarrow> INT_opt (Some n)" "size_bytes v = Inr n \<Longrightarrow> INT_opt (Some n)"
  by (auto simp: atoi_def convertToKB_def size_bytes_def Let_def bind_res_eq_Inr dest: c_int_opt split: if_splits)

text \<open>A result is well-typed when it is an error or a well-typed configuration; one rule for each shape of a branch.\<close>

definition typed_res :: "config res \<Rightarrow> bool" where
  "typed_res m \<longleftrightarrow> (\<forall>c. m = Inr c \<longrightarrow> config_typed c)"

lemma typed_res_if: "typed_res x \<Longrightarrow> typed_res y \<Longrightarrow> typed_res (if b then x else y)"
  by simp

lemma typed_res_Inr: "config_typed c \<Longrightarrow> typed_res (Inr c)"
  by (simp add: typed_res_def)

lemma typed_if: "config_typed x \<Longrightarrow> config_typed y \<Longrightarrow> config_typed (if b then x else y)"
  by simp

lemma typed_res_number:
  "(\<And>n. INT_opt (Some n) \<Longrightarrow> typed_res (f n)) \<Longrightarrow> typed_res (bind_res (atoi v) f)"
  "(\<And>n. INT_opt (Some n) \<Longrightarrow> typed_res (f n)) \<Longrightarrow> typed_res (bind_res (convertToKB v) f)"
  "(\<And>n. INT_opt (Some n) \<Longrightarrow> typed_res (f n)) \<Longrightarrow> typed_res (bind_res (size_bytes v) f)"
  by (auto simp: typed_res_def bind_res_eq_Inr dest: number_opts)

lemma typed_res_set: "config_typed c \<Longrightarrow> typed_res (bind_res (get_set x) (\<lambda>_. Inr c))"
  by (simp add: typed_res_def bind_res_eq_Inr)

lemma typed_update:
  assumes "config_typed c"
  shows
    "INT_opt (Some n) \<Longrightarrow> config_typed (c\<lparr>listenning_port := Some n\<rparr>)"
    "INT_opt (Some n) \<Longrightarrow> config_typed (c\<lparr>max_tcp := Some n\<rparr>)"
    "INT_opt (Some n) \<Longrightarrow> config_typed (c\<lparr>max_tcp_per_worker := Some n\<rparr>)"
    "INT_opt (Some n) \<Longrightarrow> config_typed (c\<lparr>inactive_tcp_timeout := Some n\<rparr>)"
    "INT_opt (Some n) \<Longrightarrow> config_typed (c\<lparr>max_vm_kb := Some n\<rparr>)"
    "INT_opt (Some n) \<Longrightarrow> config_typed (c\<lparr>max_rss_kb := Some n\<rparr>)"
    "INT_opt (Some n) \<Longrightarrow> config_typed (c\<lparr>eviction_pool_size := Some n\<rparr>)"
    "INT_opt (Some n) \<Longrightarrow> config_typed (c\<lparr>tcp_read_buffer_init_size_bytes := Some n\<rparr>)"
    "INT_opt (Some n) \<Longrightarrow> config_typed (c\<lparr>tcp_read_buffer_max_size_bytes := Some n\<rparr>)"
    "INT_opt (Some n) \<Longrightarrow> config_typed (c\<lparr>tcp_write_buffer_init_size_bytes := Some n\<rparr>)"
    "INT_opt (Some n) \<Longrightarrow> config_typed (c\<lparr>tcp_write_buffer_max_size_bytes := Some n\<rparr>)"
    "INT_opt (Some n) \<Longrightarrow> config_typed (c\<lparr>log_file_max_size_bytes := Some n\<rparr>)"
    "INT_opt (Some n) \<Longrightarrow> config_typed (c\<lparr>log_flush_interval_second := Some n\<rparr>)"
    "INT_opt (Some n) \<Longrightarrow> config_typed (c\<lparr>log_high_watermask := Some n\<rparr>)"
    "config_typed (c\<lparr>max_tcp_eviction_rule := Some MAX_TCP_EVICTION_NONE\<rparr>)"
    "config_typed (c\<lparr>max_tcp_eviction_rule := Some MAX_TCP_EVICTION_RANDOM\<rparr>)"
    "config_typed (c\<lparr>max_tcp_eviction_rule := Some MAX_TCP_EVICTION_INACTIVE\<rparr>)"
    "config_typed (c\<lparr>inactive_tcp_eviction_rule := Some INACTIVE_TCP_EVICTION_NONE\<rparr>)"
    "config_typed (c\<lparr>inactive_tcp_eviction_rule := Some INACTIVE_TCP_EVICTION_CLOSE\<rparr>)"
    "config_typed (c\<lparr>log_file_rolling := Some LOG_FILE_ROLLING_NONE\<rparr>)"
    "config_typed (c\<lparr>log_file_rolling := Some LOG_FILE_ROLLING_SIZE\<rparr>)"
    "config_typed (c\<lparr>log_file_rolling := Some LOG_FILE_ROLLING_DAILY\<rparr>)"
    "config_typed (c\<lparr>log_file_rolling := Some LOG_FILE_ROLLING_SIZEDAILY\<rparr>)"
    "config_typed (c\<lparr>loadBalance := Some b\<rparr>)" "config_typed (c\<lparr>log_file_name_prefix := v\<rparr>)"
  using assms by (simp_all add: config_typed_def)

lemma config_entry_typed:
  assumes "config_typed c"
  shows "typed_res (config_entry k v c)"
  unfolding config_entry_def Let_def
  by (rule typed_res_if typed_res_number typed_res_set typed_res_Inr typed_if typed_update assms | assumption)+

lemma config_loop_typed: "config_typed c \<Longrightarrow> typed_res (config_loop s c)"
proof (induction s c rule: config_loop.induct)
  case (1 c)
  then show ?case by (simp add: typed_res_Inr)
next
  case (2 s c)
  have line: "config_typed d" if "config_line (fst (getline s)) c = Inr (Some d)" for d
    using config_entry_typed [OF 2(2)] 2(2) that
    by (auto simp: config_line_def Let_def typed_res_def bind_res_eq_Inr split: if_splits)
  show ?case
  proof (cases "config_line (fst (getline s)) c")
    case (Inr r)
    then show ?thesis using 2 line by (cases r) (simp_all add: config_loop.simps(2) typed_res_Inr)
  qed (simp add: config_loop.simps(2) typed_res_def)
qed

section \<open>Properties\<close>

text \<open>The entries of a file, applied in order.\<close>

fun config_entries :: "(string \<times> string) list \<Rightarrow> config \<Rightarrow> config res" where
  "config_entries [] c = Inr c"
| "config_entries (kv # kvs) c = bind_res (config_entry (fst kv) (snd kv) c) (config_entries kvs)"

definition skipped :: "string \<Rightarrow> bool" where
  "skipped l \<longleftrightarrow> l = [] \<or> hd l = CHR ''#''"

lemma config_lines_filter: "config_lines ls c = config_lines (filter (\<lambda>l. \<not> skipped l) ls) c"
proof (induction ls arbitrary: c)
  case (Cons l ls)
  show ?case
  proof (cases "skipped l")
    case True
    then have "config_line l c = Inr (Some c)" by (auto simp: skipped_def config_line_def)
    with True Cons show ?thesis by simp
  next
    case False
    have "config_lines ls = config_lines (filter (\<lambda>l. \<not> skipped l) ls)" using Cons by auto
    with False show ?thesis by simp
  qed
qed simp

lemma config_lines_entries:
  "\<forall>kv \<in> set kvs. clean (fst kv) \<and> clean (snd kv) \<and> hd (fst kv) \<noteq> CHR ''#'' \<Longrightarrow>
   config_lines (map entry_line kvs) c = config_entries kvs c"
proof (induction kvs arbitrary: c)
  case (Cons kv kvs)
  then have "config_line (entry_line kv) c = bind_res (config_entry (fst kv) (snd kv) c) (\<lambda>c'. Inr (Some c'))"
    using config_line_entry [of "fst kv" "snd kv"] by simp
  moreover have "config_lines (map entry_line kvs) = config_entries kvs" using Cons by auto
  ultimately show ?case by (simp add: bind_res_assoc)
qed simp

text \<open>C30: A file of lines key = value, with comment lines and empty lines anywhere, applies its entries in order: the last
  entry of a key wins and the first value that is undefined to convert ends the loading.\<close>

theorem loadConfig_applies_entries:
  assumes "\<forall>l \<in> set ls. NEWLINE \<notin> set l" "ls \<noteq> []"
    "filter (\<lambda>l. \<not> skipped l) ls = map entry_line kvs"
    "\<forall>kv \<in> set kvs. clean (fst kv) \<and> clean (snd kv) \<and> hd (fst kv) \<noteq> CHR ''#''"
  shows "loadConfig (Some (join_with NEWLINE ls)) c = config_entries kvs c"
  using loadConfig_lines [OF assms(1,2)] config_lines_filter [of ls] config_lines_entries [OF assms(4)]
    assms(3) by simp

lemma loadConfig_applies_entries_witness:
  "loadConfig (Some (join_with NEWLINE [''# memory'', ''max-rss = 2M'', [], ''max-rss = 3K''])) config_unset =
     Inr (config_unset\<lparr>max_rss_kb := Some 3\<rparr>)"
proof -
  have "loadConfig (Some (join_with NEWLINE [''# memory'', ''max-rss = 2M'', [], ''max-rss = 3K''])) config_unset =
      config_entries [(''max-rss'', ''2M''), (''max-rss'', ''3K'')] config_unset"
    by (rule loadConfig_applies_entries)
      (auto simp: skipped_def entry_line_def clean_def stripped_def isspace_def)
  also have "\<dots> = Inr (config_unset\<lparr>max_rss_kb := Some 3\<rparr>)" by code_simp
  finally show ?thesis .
qed

text \<open>A line that is neither empty nor a comment and does not have exactly one equals sign, for example a line of blanks
  or a value with an equals sign, silently ends the loading: what the file says after it is never applied.\<close>

lemma malformed_line_ends_loading:
  assumes "\<forall>l \<in> set (ls @ bad # rest). NEWLINE \<notin> set l"
    "\<not> skipped bad" "length (filter (\<lambda>c. c = CHR ''='') (c_str bad)) \<noteq> 1"
  shows "loadConfig (Some (join_with NEWLINE (ls @ bad # rest))) c = config_lines ls c"
proof -
  have "c_str ''='' = ''=''" by (simp add: c_str_def)
  then have "length (split_str bad ''='') \<noteq> 2"
    using assms(3) by (simp add: split_str_eq length_field_list)
  then have bad: "config_line bad c = Inr None" for c
    using assms(2) by (simp add: config_line_def skipped_def Let_def)
  have "config_lines (ls @ bad # rest) c = config_lines ls c" for c
  proof (induction ls arbitrary: c)
    case (Cons l ls)
    then have "config_lines (ls @ bad # rest) = config_lines ls" by auto
    then show ?case by simp
  qed (simp add: bad)
  then show ?thesis using loadConfig_lines [OF assms(1)] by simp
qed

lemma malformed_line_ends_loading_witness:
  "loadConfig (Some (join_with NEWLINE [''max-tcp = 7'', '' '', ''max-rss = 3K''])) config_unset =
     Inr (config_unset\<lparr>max_tcp := Some 7\<rparr>)"
proof -
  have "loadConfig (Some (join_with NEWLINE ([''max-tcp = 7''] @ '' '' # [''max-rss = 3K'']))) config_unset =
      config_lines [''max-tcp = 7''] config_unset"
    by (rule malformed_line_ends_loading) (simp_all add: skipped_def c_str_def)
  also have "\<dots> = Inr (config_unset\<lparr>max_tcp := Some 7\<rparr>)" by code_simp
  finally show ?thesis by simp
qed

text \<open>The shipped yeyj.config loads to the end and sets every member it names, except that its key max-tcp- is not the
  max-tcp the code looks for: _max_tcp stays uninitialised.\<close>

lemma shipped_config_loaded:
  "loadConfig (Some yeyj_config) config_unset = Inr shipped_config \<and> max_tcp shipped_config = None"
proof -
  have "\<forall>l \<in> set yeyj_config_lines. NEWLINE \<notin> set l" "yeyj_config_lines \<noteq> []"
    by (simp_all add: yeyj_config_lines_def)
  from loadConfig_lines [OF this] shipped_lines show ?thesis
    by (simp add: yeyj_config_def) (simp add: shipped_config_def)
qed

text \<open>Whatever the file holds, a configuration that has been loaded is well-typed.\<close>

lemma loaded_config_typed:
  assumes "loadConfig file config_unset = Inr c"
  shows "config_typed c"
proof -
  have "config_typed config_unset" by (simp add: config_typed_def config_unset_def INT_opt_def)
  then show ?thesis using assms config_loop_typed
    by (auto simp: loadConfig_def typed_res_def split: option.splits)
qed

section \<open>Writing a configuration\<close>

text \<open>A configuration as the entries of a file: numbers in decimal, sizes with the largest unit that is exact, rules by their names.\<close>

definition size_text :: "int \<Rightarrow> string" where
  "size_text kb = (if 1048576 dvd kb then show_int (kb div 1048576) @ ''G''
     else if 1024 dvd kb then show_int (kb div 1024) @ ''M'' else show_int kb @ ''K'')"

definition bytes_text :: "int \<Rightarrow> string" where "bytes_text n = size_text (n div 1024)"

definition max_tcp_rule_text :: "int \<Rightarrow> string" where
  "max_tcp_rule_text r = (if r = 0 then ''none'' else if r = 1 then ''random'' else ''inactive'')"

definition inactive_rule_text :: "int \<Rightarrow> string" where
  "inactive_rule_text r = (if r = 0 then ''none'' else ''close'')"

definition rolling_text :: "int \<Rightarrow> string" where
  "rolling_text r = (if r = 0 then ''none'' else if r = 1 then ''size'' else if r = 2 then ''daily'' else ''size & daily'')"

definition balance_text :: "balance \<Rightarrow> string" where
  "balance_text b = (case b of RoundRobin \<Rightarrow> ''round-robin'' | Random \<Rightarrow> ''random'' | MinConnection \<Rightarrow> ''min-connection''
     | IPHash \<Rightarrow> ''ip-hash'')"

definition opt_pair :: "string \<Rightarrow> ('a \<Rightarrow> string) \<Rightarrow> 'a option \<Rightarrow> (string \<times> string) list" where
  "opt_pair key f x = (case x of None \<Rightarrow> [] | Some v \<Rightarrow> [(key, f v)])"

definition config_pairs :: "config \<Rightarrow> (string \<times> string) list" where
  "config_pairs c = opt_pair ''listening-port'' show_int (listenning_port c) @ opt_pair ''max-tcp'' show_int (max_tcp c) @
     opt_pair ''max-tcp-per-worker'' show_int (max_tcp_per_worker c) @
     opt_pair ''max-tcp-eviction-rule'' max_tcp_rule_text (max_tcp_eviction_rule c) @
     opt_pair ''inactive-tcp-timeout'' show_int (inactive_tcp_timeout c) @
     opt_pair ''inactive-tcp-eviction-rule'' inactive_rule_text (inactive_tcp_eviction_rule c) @
     opt_pair ''max-vm-memory'' size_text (max_vm_kb c) @ opt_pair ''max-rss'' size_text (max_rss_kb c) @
     opt_pair ''eviction-pool-size'' show_int (eviction_pool_size c) @ opt_pair ''load-balance'' balance_text (loadBalance c) @
     opt_pair ''tcp-read-buffer-init-size-bytes'' bytes_text (tcp_read_buffer_init_size_bytes c) @
     opt_pair ''tcp-read-buffer-max-size-bytes'' bytes_text (tcp_read_buffer_max_size_bytes c) @
     opt_pair ''tcp-write-buffer-init-size-bytes'' bytes_text (tcp_write_buffer_init_size_bytes c) @
     opt_pair ''tcp-write-buffer-max-size-bytes'' bytes_text (tcp_write_buffer_max_size_bytes c) @
     (if log_file_name_prefix c = [] then [] else [(''log-file-name-prefix'', log_file_name_prefix c)]) @
     opt_pair ''log-file-rolling'' rolling_text (log_file_rolling c) @
     opt_pair ''log-file-max-size'' bytes_text (log_file_max_size_bytes c) @
     opt_pair ''log-flush-interval-second'' show_int (log_flush_interval_second c) @
     opt_pair ''log-high-watermask'' show_int (log_high_watermask c)"

definition config_text :: "config \<Rightarrow> string" where
  "config_text c = join_with NEWLINE (''# yeyjTcpServer'' # map entry_line (config_pairs c))"

text \<open>What can be written: numbers of the machine, sizes that are not negative and whole kilobytes, named rules, a prefix without
  blanks at its ends.\<close>

definition KB_opt :: "int option \<Rightarrow> bool" where "KB_opt x \<longleftrightarrow> (\<forall>n. x = Some n \<longrightarrow> 0 \<le> n \<and> n \<le> INT_MAX)"
definition bytes_opt :: "int option \<Rightarrow> bool" where "bytes_opt x \<longleftrightarrow> KB_opt x \<and> (\<forall>n. x = Some n \<longrightarrow> 1024 dvd n)"

definition writable :: "config \<Rightarrow> bool" where
  "writable c \<longleftrightarrow> config_typed c \<and> KB_opt (max_vm_kb c) \<and> KB_opt (max_rss_kb c) \<and>
     bytes_opt (tcp_read_buffer_init_size_bytes c) \<and> bytes_opt (tcp_read_buffer_max_size_bytes c) \<and>
     bytes_opt (tcp_write_buffer_init_size_bytes c) \<and> bytes_opt (tcp_write_buffer_max_size_bytes c) \<and>
     bytes_opt (log_file_max_size_bytes c) \<and> (log_file_name_prefix c = [] \<or> clean (log_file_name_prefix c))"

lemma clean_simple: "s \<noteq> [] \<Longrightarrow> \<forall>c \<in> set s. \<not> isspace c \<and> c \<noteq> NUL \<and> c \<noteq> CHR ''='' \<Longrightarrow> clean s"
proof -
  assume a: "s \<noteq> []" "\<forall>c \<in> set s. \<not> isspace c \<and> c \<noteq> NUL \<and> c \<noteq> CHR ''=''"
  have dw: "dropWhile isspace t = t" if "\<forall>c \<in> set t. \<not> isspace c" for t using that by (cases t) simp_all
  have "stripped s = s" using a(2) dw [of s] dw [of "rev s"] by (simp add: stripped_def)
  moreover have "isspace NEWLINE" by (simp add: isspace_def)
  moreover have "\<exists>c \<in> set s. \<not> isspace c" using a by (cases s) simp_all
  ultimately show ?thesis using a(2) unfolding clean_def by blast
qed

lemma show_int_chars: "c \<in> set (show_int i) \<Longrightarrow> isdigit c \<or> c = CHR ''-''" "show_int i \<noteq> []"
  using show_nat_digits by (auto simp: show_int_def split: if_splits)

lemma digit_plain: "isdigit c \<Longrightarrow> \<not> isspace c \<and> c \<noteq> NUL \<and> c \<noteq> CHR ''=''"
  using isdigit_not_space isdigit_not_special by (auto simp: isdigit_def)

lemma show_int_plain: "c \<in> set (show_int i) \<Longrightarrow> \<not> isspace c \<and> c \<noteq> NUL \<and> c \<noteq> CHR ''=''"
  using show_int_chars(1) [of c i] digit_plain [of c] by (auto simp: isspace_def)

lemma clean_numbers: "clean (show_int i)" "u \<in> {CHR ''K'', CHR ''M'', CHR ''G''} \<Longrightarrow> clean (show_int i @ [u])"
proof -
  show "clean (show_int i)" using show_int_plain show_int_chars(2) by (intro clean_simple) auto
  show "clean (show_int i @ [u])" if "u \<in> {CHR ''K'', CHR ''M'', CHR ''G''}"
    using show_int_plain that by (intro clean_simple) (auto simp: isspace_def)
qed

lemma atoi_show_int: "INT_MIN \<le> i \<Longrightarrow> i \<le> INT_MAX \<Longrightarrow> atoi (show_int i) = Inr i"
proof (cases "i < 0")
  case True
  assume r: "INT_MIN \<le> i" "i \<le> INT_MAX"
  have d: "NUL \<notin> set (show_nat (nat (- i)))" using show_nat_digits [of "nat (- i)"] by auto
  have tw: "takeWhile isdigit (show_nat (nat (- i))) = show_nat (nat (- i))"
    using show_nat_digits by (simp add: takeWhile_eq_all_conv)
  show ?thesis using True r d
    by (simp add: atoi_def show_int_def c_str_no_NUL isspace_def dec_val_show_nat c_int_def tw Let_def)
next
  case False
  assume r: "INT_MIN \<le> i" "i \<le> INT_MAX"
  then show ?thesis using False atoi_show_nat [of "nat i" "[]"] by (simp add: show_int_def)
qed

lemma convertToKB_size: "0 \<le> n \<Longrightarrow> n \<le> INT_MAX \<Longrightarrow> convertToKB (size_text n) = Inr n"
proof -
  assume n: "0 \<le> n" "n \<le> INT_MAX"
  have "k * (n div k) = n \<and> 0 \<le> n div k \<and> n div k \<le> INT_MAX" if "k dvd n" "0 < k" for k
  proof -
    have "n div k \<le> n div 1" using n(1) that(2) by (intro zdiv_mono2) simp_all
    then show ?thesis using n that by (simp add: pos_imp_zdiv_nonneg_iff)
  qed
  note k = this
  have snoc: "convertToKB (show_int m @ [u]) =
      c_int ((if u = CHR ''K'' then 1 else if u = CHR ''M'' then 1024 else if u = CHR ''G'' then 1024 * 1024 else 0) * m)"
    if "0 \<le> m" "m \<le> INT_MAX" for m u
    using convertToKB_snoc [of "nat m" u] that by (simp add: show_int_def)
  have val: "c_int n = Inr n" using n by (simp add: c_int_nonneg)
  show ?thesis using k [of 1048576] k [of 1024] n val by (auto simp: size_text_def snoc)
qed

lemma size_bytes_text: "0 \<le> n \<Longrightarrow> n \<le> INT_MAX \<Longrightarrow> 1024 dvd n \<Longrightarrow> size_bytes (bytes_text n) = Inr n"
proof -
  assume n: "0 \<le> n" "n \<le> INT_MAX" "1024 dvd n"
  then have "convertToKB (bytes_text n) = Inr (n div 1024)" unfolding bytes_text_def by (intro convertToKB_size) auto
  then show ?thesis using n by (simp add: size_bytes_def c_int_nonneg)
qed

text \<open>Each entry sets its member.\<close>

lemma config_entries_append:
  "config_entries (xs @ ys) c = bind_res (config_entries xs c) (config_entries ys)"
proof (induction xs arbitrary: c)
  case (Cons x xs)
  then have "config_entries (xs @ ys) = (\<lambda>c. bind_res (config_entries xs c) (config_entries ys))" by auto
  then show ?case by (simp add: bind_res_assoc)
qed simp

definition set_opt :: "'a option \<Rightarrow> 'a option \<Rightarrow> 'a option" where "set_opt x y = (if x = None then y else x)"

lemma set_opt_simps [simp]: "set_opt None y = y" "set_opt (Some v) y = Some v" "set_opt x None = x"
  by (simp_all add: set_opt_def)

lemma numbers_set:
  assumes "INT_opt x"
  shows "config_entries (opt_pair ''listening-port'' show_int x) d = Inr (d\<lparr>listenning_port := set_opt x (listenning_port d)\<rparr>)"
    "config_entries (opt_pair ''max-tcp'' show_int x) d = Inr (d\<lparr>max_tcp := set_opt x (max_tcp d)\<rparr>)"
    "config_entries (opt_pair ''max-tcp-per-worker'' show_int x) d = Inr (d\<lparr>max_tcp_per_worker := set_opt x (max_tcp_per_worker d)\<rparr>)"
    "config_entries (opt_pair ''inactive-tcp-timeout'' show_int x) d = Inr (d\<lparr>inactive_tcp_timeout := set_opt x (inactive_tcp_timeout d)\<rparr>)"
    "config_entries (opt_pair ''eviction-pool-size'' show_int x) d = Inr (d\<lparr>eviction_pool_size := set_opt x (eviction_pool_size d)\<rparr>)"
    "config_entries (opt_pair ''log-flush-interval-second'' show_int x) d =
       Inr (d\<lparr>log_flush_interval_second := set_opt x (log_flush_interval_second d)\<rparr>)"
    "config_entries (opt_pair ''log-high-watermask'' show_int x) d = Inr (d\<lparr>log_high_watermask := set_opt x (log_high_watermask d)\<rparr>)"
  using assms by (cases x; simp add: opt_pair_def config_entry_def atoi_show_int INT_opt_def)+

lemma sizes_set:
  shows "KB_opt x \<Longrightarrow> config_entries (opt_pair ''max-vm-memory'' size_text x) d = Inr (d\<lparr>max_vm_kb := set_opt x (max_vm_kb d)\<rparr>)"
    "KB_opt x \<Longrightarrow> config_entries (opt_pair ''max-rss'' size_text x) d = Inr (d\<lparr>max_rss_kb := set_opt x (max_rss_kb d)\<rparr>)"
    "bytes_opt x \<Longrightarrow> config_entries (opt_pair ''tcp-read-buffer-init-size-bytes'' bytes_text x) d =
       Inr (d\<lparr>tcp_read_buffer_init_size_bytes := set_opt x (tcp_read_buffer_init_size_bytes d)\<rparr>)"
    "bytes_opt x \<Longrightarrow> config_entries (opt_pair ''tcp-read-buffer-max-size-bytes'' bytes_text x) d =
       Inr (d\<lparr>tcp_read_buffer_max_size_bytes := set_opt x (tcp_read_buffer_max_size_bytes d)\<rparr>)"
    "bytes_opt x \<Longrightarrow> config_entries (opt_pair ''tcp-write-buffer-init-size-bytes'' bytes_text x) d =
       Inr (d\<lparr>tcp_write_buffer_init_size_bytes := set_opt x (tcp_write_buffer_init_size_bytes d)\<rparr>)"
    "bytes_opt x \<Longrightarrow> config_entries (opt_pair ''tcp-write-buffer-max-size-bytes'' bytes_text x) d =
       Inr (d\<lparr>tcp_write_buffer_max_size_bytes := set_opt x (tcp_write_buffer_max_size_bytes d)\<rparr>)"
    "bytes_opt x \<Longrightarrow> config_entries (opt_pair ''log-file-max-size'' bytes_text x) d =
       Inr (d\<lparr>log_file_max_size_bytes := set_opt x (log_file_max_size_bytes d)\<rparr>)"
  by (cases x; simp add: opt_pair_def config_entry_def convertToKB_size size_bytes_text KB_opt_def bytes_opt_def)+

lemma names_set:
  shows "x \<in> {None, Some MAX_TCP_EVICTION_NONE, Some MAX_TCP_EVICTION_RANDOM, Some MAX_TCP_EVICTION_INACTIVE} \<Longrightarrow>
      config_entries (opt_pair ''max-tcp-eviction-rule'' max_tcp_rule_text x) d =
        Inr (d\<lparr>max_tcp_eviction_rule := set_opt x (max_tcp_eviction_rule d)\<rparr>)"
    "x \<in> {None, Some INACTIVE_TCP_EVICTION_NONE, Some INACTIVE_TCP_EVICTION_CLOSE} \<Longrightarrow>
      config_entries (opt_pair ''inactive-tcp-eviction-rule'' inactive_rule_text x) d =
        Inr (d\<lparr>inactive_tcp_eviction_rule := set_opt x (inactive_tcp_eviction_rule d)\<rparr>)"
    "x \<in> {None, Some LOG_FILE_ROLLING_NONE, Some LOG_FILE_ROLLING_SIZE, Some LOG_FILE_ROLLING_DAILY,
       Some LOG_FILE_ROLLING_SIZEDAILY} \<Longrightarrow>
      config_entries (opt_pair ''log-file-rolling'' rolling_text x) d = Inr (d\<lparr>log_file_rolling := set_opt x (log_file_rolling d)\<rparr>)"
  by (auto simp: opt_pair_def config_entry_def max_tcp_rule_text_def inactive_rule_text_def rolling_text_def Let_def
      MAX_TCP_EVICTION_NONE_def MAX_TCP_EVICTION_RANDOM_def MAX_TCP_EVICTION_INACTIVE_def INACTIVE_TCP_EVICTION_NONE_def
      INACTIVE_TCP_EVICTION_CLOSE_def LOG_FILE_ROLLING_NONE_def LOG_FILE_ROLLING_SIZE_def LOG_FILE_ROLLING_DAILY_def
      LOG_FILE_ROLLING_SIZEDAILY_def)

lemma balance_set: "config_entries (opt_pair ''load-balance'' balance_text x) d = Inr (d\<lparr>loadBalance := set_opt x (loadBalance d)\<rparr>)"
  by (cases x; simp add: opt_pair_def config_entry_def balance_text_def split: balance.split)

lemma prefix_set:
  "config_entries (if p = [] then [] else [(''log-file-name-prefix'', p)]) d =
     Inr (if p = [] then d else d\<lparr>log_file_name_prefix := p\<rparr>)"
  by (simp add: config_entry_def)

lemma config_pairs_set:
  assumes "writable c"
  shows "config_entries (config_pairs c) config_unset = Inr c"
proof -
  have t: "config_typed c" using assms by (simp add: writable_def)
  show ?thesis using assms t unfolding config_typed_def writable_def
    by (simp add: config_pairs_def config_entries_append numbers_set sizes_set names_set balance_set prefix_set config_unset_def)
qed

lemma opt_pair_clean:
  assumes "kv \<in> set (opt_pair k f x)" "\<forall>v. clean (f v)"
  shows "fst kv = k \<and> clean (snd kv)"
  using assms by (auto simp: opt_pair_def split: option.splits)

lemma clean_texts:
  "clean (show_int n)" "clean (size_text n)" "clean (bytes_text n)" "clean (max_tcp_rule_text n)" "clean (inactive_rule_text n)"
  "clean (rolling_text n)" "clean (balance_text b)"
proof -
  show "clean (show_int n)" by (rule clean_numbers)
  show "clean (size_text n)" by (simp add: size_text_def clean_numbers)
  then show "clean (bytes_text n)" by (simp add: bytes_text_def size_text_def clean_numbers)
  show "clean (max_tcp_rule_text n)" "clean (inactive_rule_text n)" "clean (rolling_text n)" "clean (balance_text b)"
    by (auto simp: max_tcp_rule_text_def inactive_rule_text_def rolling_text_def balance_text_def clean_def stripped_def isspace_def
        split: balance.split)
qed

definition config_keys :: "string list" where
  "config_keys = [''listening-port'', ''max-tcp'', ''max-tcp-per-worker'', ''max-tcp-eviction-rule'', ''inactive-tcp-timeout'',
     ''inactive-tcp-eviction-rule'', ''max-vm-memory'', ''max-rss'', ''eviction-pool-size'', ''load-balance'',
     ''tcp-read-buffer-init-size-bytes'', ''tcp-read-buffer-max-size-bytes'', ''tcp-write-buffer-init-size-bytes'',
     ''tcp-write-buffer-max-size-bytes'', ''log-file-name-prefix'', ''log-file-rolling'', ''log-file-max-size'',
     ''log-flush-interval-second'', ''log-high-watermask'']"

lemma config_keys_clean: "k \<in> set config_keys \<Longrightarrow> clean k \<and> hd k \<noteq> CHR ''#''"
  by (auto simp: config_keys_def clean_def stripped_def isspace_def)

lemma config_pairs_clean:
  assumes "writable c" "kv \<in> set (config_pairs c)"
  shows "clean (fst kv) \<and> clean (snd kv) \<and> hd (fst kv) \<noteq> CHR ''#''"
proof -
  have "fst kv \<in> set config_keys \<and> clean (snd kv)"
    using assms unfolding config_pairs_def set_append Un_iff writable_def
    by (elim disjE) (auto simp: config_keys_def clean_texts dest!: opt_pair_clean split: if_splits)
  then show ?thesis using config_keys_clean by blast
qed

text \<open>C36: Every configuration can be written down, and is read back as it was: the file that names each member that is set by its
  documented key, numbers in decimal, sizes in the largest of the units K, M and G that is exact, rules and the load balance by
  their names, loads to exactly this configuration, with no other member set. The numbers are ints of the machine, the sizes
  not negative and whole kilobytes, and the name of the log file has no equals sign and no blank at its ends.\<close>

theorem config_roundtrip:
  assumes "writable c"
  shows "loadConfig (Some (config_text c)) config_unset = Inr c"
proof -
  let ?ls = "''# yeyjTcpServer'' # map entry_line (config_pairs c)"
  have clean: "\<forall>kv \<in> set (config_pairs c). clean (fst kv) \<and> clean (snd kv) \<and> hd (fst kv) \<noteq> CHR ''#''"
    using config_pairs_clean [OF assms] by blast
  then have nl: "\<forall>l \<in> set ?ls. NEWLINE \<notin> set l" by (auto simp: entry_line_def clean_def)
  have "config_line ''# yeyjTcpServer'' config_unset = Inr (Some config_unset)" by (simp add: config_line_def)
  then have "config_lines ?ls config_unset = Inr c"
    using config_lines_entries [OF clean] config_pairs_set [OF assms] by simp
  then show ?thesis using loadConfig_lines [OF nl] by (simp add: config_text_def)
qed

definition full_config :: config where
  "full_config = shipped_config\<lparr>listenning_port := Some 44350, max_tcp := Some (- 1), max_rss_kb := Some 2097152,
     max_vm_kb := Some 1025, loadBalance := Some MinConnection\<rparr>"

lemma config_roundtrip_witness:
  "loadConfig (Some (config_text full_config)) config_unset = Inr full_config \<and> max_tcp full_config = Some (- 1) \<and>
     config_pairs (config_unset\<lparr>max_rss_kb := Some 2097152, max_vm_kb := Some 1025\<rparr>) = [(''max-vm-memory'', ''1025K''), (''max-rss'', ''2G'')]"
proof -
  have "writable full_config"
    by (simp add: writable_def full_config_def shipped_config_def config_typed_def INT_opt_def KB_opt_def bytes_opt_def INT_MAX_def
        INT_MIN_def MAX_TCP_EVICTION_INACTIVE_def INACTIVE_TCP_EVICTION_NONE_def LOG_FILE_ROLLING_SIZEDAILY_def
        clean_def stripped_def isspace_def)
  then have "loadConfig (Some (config_text full_config)) config_unset = Inr full_config" by (rule config_roundtrip)
  moreover have "max_tcp full_config = Some (- 1)" by (simp add: full_config_def)
  moreover have "config_pairs (config_unset\<lparr>max_rss_kb := Some 2097152, max_vm_kb := Some 1025\<rparr>) =
      [(''max-vm-memory'', ''1025K''), (''max-rss'', ''2G'')]" by code_simp
  ultimately show ?thesis by blast
qed

end
