(* ===== verification/Sock_Addr.thy ===== *)
theory Sock_Addr
  imports Utilities
begin

unbundle bit_operations_syntax

text \<open>
  \<open>InetSockAddr\<close> of \<open>src/inetSockAddr.h\<close>, the log line of \<open>TcpServer::log\<close> in \<open>src/tcpServer.cpp\<close>, and the
  deadline of \<open>Condition::waitForSeconds\<close> in \<open>src/condition.h\<close>. The host is little-endian, as the machines the
  program is built for, so \<open>htons\<close> and \<open>htonl\<close> reverse the bytes.
\<close>

section \<open>Addresses\<close>

definition htons :: "16 word \<Rightarrow> 16 word" where
  "htons x = push_bit 8 x OR drop_bit 8 x"

definition htonl :: "32 word \<Rightarrow> 32 word" where
  "htonl x = push_bit 24 x OR push_bit 8 (x AND 0x0000FF00) OR drop_bit 8 (x AND 0x00FF0000) OR drop_bit 24 x"

record sockaddr_in =
  sin_family :: "16 word"
  sin_port :: "16 word"
  s_addr :: "32 word"

text \<open>\<open>InetSockAddr(family, addr, port)\<close>; \<open>addr\<close> is an \<open>unsigned long\<close>.\<close>

definition InetSockAddr :: "16 word \<Rightarrow> 64 word \<Rightarrow> 16 word \<Rightarrow> sockaddr_in" where
  "InetSockAddr family addr port = \<lparr>sin_family = family, sin_port = htons port, s_addr = htonl (ucast addr)\<rparr>"

definition getFamily :: "sockaddr_in \<Rightarrow> int" where "getFamily a = uint (sin_family a)"
definition getIP :: "sockaddr_in \<Rightarrow> 32 word" where "getIP a = s_addr a"
definition getPort :: "sockaddr_in \<Rightarrow> 16 word" where "getPort a = sin_port a"

text \<open>\<open>inet_ntoa\<close> writes the four bytes of the address in memory order, in decimal with dots.\<close>

definition word_bytes :: "32 word \<Rightarrow> nat list" where
  "word_bytes w = map (\<lambda>i. unat (ucast (drop_bit (8 * i) w) :: 8 word)) [0, 1, 2, 3]"

definition dotted :: "nat list \<Rightarrow> string" where
  "dotted bs = join_with CHR ''.'' (map show_nat bs)"

definition getIpAsString :: "sockaddr_in \<Rightarrow> string" where
  "getIpAsString a = dotted (word_bytes (s_addr a))"

text \<open>The C string of it, and the constructor from a \<open>sockaddr_in\<close>.\<close>

definition getIpAsChar :: "sockaddr_in \<Rightarrow> string" where
  "getIpAsChar a = getIpAsString a @ [NUL]"

definition InetSockAddr_of :: "sockaddr_in \<Rightarrow> sockaddr_in" where
  "InetSockAddr_of sockAddrIn = sockAddrIn"

text \<open>The line \<open>TcpServer::log\<close> appends to the log. \<open>threadID\<close> is printed with \<open>%u\<close>; the strings are printed with \<open>%s\<close>, so
  up to their first NUL.\<close>

definition server_log_line :: "string \<Rightarrow> 32 word \<Rightarrow> string \<Rightarrow> string \<Rightarrow> 32 word \<Rightarrow> 16 word \<Rightarrow> string \<Rightarrow> string" where
  "server_log_line level threadID threadName timeString ip port msg =
     c_str level @ '' '' @ show_nat (unat threadID) @ '' '' @ c_str threadName @ '' '' @ c_str timeString @ '' '' @
     show_int (sint (ip AND 0x000000FF)) @ ''.'' @
     show_int (sint (drop_bit 8 (ip AND 0x0000FF00))) @ ''.'' @
     show_int (sint (drop_bit 16 (ip AND 0x00FF0000))) @ ''.'' @
     show_int (sint (drop_bit 24 (ip AND 0xFF000000))) @ '':'' @
     show_int (int (unat port)) @ '' '' @ c_str msg"

text \<open>Byte \<open>n\<close> of a word, by mask and shift or by conversion.\<close>

lemma byte_of_mask:
  "n \<le> 24 \<Longrightarrow> drop_bit n (w AND push_bit n 0xFF) = (ucast (ucast (drop_bit n w) :: 8 word) :: 32 word)"
proof -
  assume "n \<le> 24"
  then have "drop_bit n (w AND push_bit n (mask 8)) = (ucast (ucast (drop_bit n w) :: 8 word) :: 32 word)"
    by (intro bit_word_eqI) (auto simp: bit_simps)
  moreover have "(mask 8 :: 32 word) = 0xFF" by (simp add: mask_eq_exp_minus_1)
  ultimately show ?thesis by simp
qed

lemma byte_masks:
  "w AND 0x000000FF = (ucast (ucast w :: 8 word) :: 32 word)"
  "drop_bit 8 (w AND 0x0000FF00) = (ucast (ucast (drop_bit 8 w) :: 8 word) :: 32 word)"
  "drop_bit 16 (w AND 0x00FF0000) = (ucast (ucast (drop_bit 16 w) :: 8 word) :: 32 word)"
  "drop_bit 24 (w AND 0xFF000000) = (ucast (ucast (drop_bit 24 w) :: 8 word) :: 32 word)"
  using byte_of_mask [of 0 w] byte_of_mask [of 8 w] byte_of_mask [of 16 w] byte_of_mask [of 24 w]
  by simp_all

lemma sint_byte: "sint (ucast (b :: 8 word) :: 32 word) = int (unat b)"
proof -
  have b: "0 \<le> uint b" "uint b < 256" using unsigned_less [of b, where 'a = int] by simp_all
  have "sint (ucast b :: 32 word) = signed_take_bit 31 (uint b)"
    by (simp add: signed_ucast_eq)
  also have "\<dots> = uint b"
  proof (rule signed_take_bit_int_eq_self)
    show "- (2 ^ 31) \<le> uint b" using b(1) by (rule order_trans [rotated]) simp
    show "uint b < 2 ^ 31" using b(2) by simp
  qed
  finally show ?thesis by simp
qed

lemma show_int_nat [simp]: "show_int (int n) = show_nat n"
  by (simp add: show_int_def)

lemma htons_bits: "bit (htons x) n \<longleftrightarrow> n < 16 \<and> (if n < 8 then bit x (n + 8) else bit x (n - 8))"
  by (auto simp: htons_def bit_simps add.commute dest: bit_imp_le_length)

lemma htons_htons: "htons (htons x) = x"
  by (rule bit_word_eqI) (auto simp: htons_bits)

lemma htons_fixpoint: "htons x = x \<longleftrightarrow> (ucast x :: 8 word) = ucast (drop_bit 8 x)"
proof
  assume h: "htons x = x"
  show "(ucast x :: 8 word) = ucast (drop_bit 8 x)"
  proof (rule bit_word_eqI)
    fix n assume "n < LENGTH(8)"
    then show "bit (ucast x :: 8 word) n = bit (ucast (drop_bit 8 x) :: 8 word) n"
      using htons_bits [of x n] h by (simp add: bit_simps add.commute)
  qed
next
  assume h: "(ucast x :: 8 word) = ucast (drop_bit 8 x)"
  have low: "bit x n = bit x (n + 8)" if "n < 8" for n
    using arg_cong [OF h, of "\<lambda>w. bit w n"] that by (simp add: bit_simps add.commute)
  show "htons x = x"
  proof (rule bit_word_eqI)
    fix n assume "n < LENGTH(16)"
    then show "bit (htons x) n = bit x n"
      using low [of n] low [of "n - 8"] by (simp add: htons_bits)
  qed
qed

section \<open>Waiting\<close>

record timespec =
  tv_sec :: int
  tv_nsec :: int

definition NanoSecondsPerSecond :: int where "NanoSecondsPerSecond = 1000000000"

text \<open>The deadline \<open>waitForSeconds\<close> computes from the current time. \<open>tv_nsec\<close> is changed after it has been used for
  \<open>tv_sec\<close>, with \<open>+=\<close>.\<close>

definition wait_deadline :: "int \<Rightarrow> timespec \<Rightarrow> timespec" where
  "wait_deadline second abstime =
     (let nanoSeconds = second * NanoSecondsPerSecond;
          a1 = abstime\<lparr>tv_sec := tv_sec abstime + (tv_nsec abstime + nanoSeconds) sdiv NanoSecondsPerSecond\<rparr>
      in a1\<lparr>tv_nsec := tv_nsec a1 + (tv_nsec a1 + nanoSeconds) smod NanoSecondsPerSecond\<rparr>)"

text \<open>\<open>pthread_cond_timedwait\<close> rejects (\<open>EINVAL\<close>, without waiting) a deadline whose nanoseconds are not below one second.\<close>

definition timespec_ok :: "timespec \<Rightarrow> bool" where
  "timespec_ok t \<longleftrightarrow> 0 \<le> tv_nsec t \<and> tv_nsec t < NanoSecondsPerSecond"

definition waitForSeconds_waits :: "int \<Rightarrow> timespec \<Rightarrow> bool" where
  "waitForSeconds_waits second now \<longleftrightarrow> timespec_ok (wait_deadline second now)"

lemma sdiv_nonneg: "0 \<le> a \<Longrightarrow> 0 < b \<Longrightarrow> a sdiv b = a div (b::int)"
  by (cases "a = 0") (simp_all add: signed_divide_int_def)

lemma wait_deadline_eq:
  assumes "0 \<le> second" "timespec_ok now"
  shows "wait_deadline second now = \<lparr>tv_sec = tv_sec now + second, tv_nsec = 2 * tv_nsec now\<rparr>"
proof -
  have "(tv_nsec now + second * 1000000000) sdiv 1000000000 = second"
    "(tv_nsec now + second * 1000000000) smod 1000000000 = tv_nsec now"
    using assms by (simp_all add: timespec_ok_def NanoSecondsPerSecond_def smod_nonneg sdiv_nonneg)
  then show ?thesis by (simp add: wait_deadline_def Let_def NanoSecondsPerSecond_def)
qed

section \<open>Properties\<close>

text \<open>The four numbers TcpServer::log prints for an address are the dotted quad of getIpAsString, so the log shows the
  client address right.\<close>

lemma log_line_shows_address:
  "server_log_line level tid tname time (getIP a) (getPort a) msg =
     c_str level @ '' '' @ show_nat (unat tid) @ '' '' @ c_str tname @ '' '' @ c_str time @ '' '' @
     getIpAsString a @ '':'' @ show_nat (unat (getPort a)) @ '' '' @ c_str msg"
  by (simp add: server_log_line_def getIP_def getIpAsString_def dotted_def word_bytes_def byte_masks sint_byte
      del: of_nat_unat)

text \<open>The port that getPort returns, and the log prints, is the port with its two bytes swapped: right only when both
  bytes are the same.\<close>

lemma getPort_byte_swapped:
  "getPort (InetSockAddr family addr port) = htons port \<and> htons (getPort (InetSockAddr family addr port)) = port \<and>
   (getPort (InetSockAddr family addr port) = port) =
     ((ucast port :: 8 word) = ucast (drop_bit 8 port))"
  by (simp add: getPort_def InetSockAddr_def htons_htons htons_fixpoint)

text \<open>waitForSeconds adds the current nanoseconds twice. In the first half of every second the wait lasts up to half
  a second too long; in the second half the deadline is invalid and the call returns at once instead of waiting.\<close>

lemma waitForSeconds_half_the_time:
  assumes "0 \<le> second" "timespec_ok now"
  shows "(if 2 * tv_nsec now < NanoSecondsPerSecond
     then waitForSeconds_waits second now \<and> tv_sec (wait_deadline second now) = tv_sec now + second \<and>
       tv_nsec (wait_deadline second now) = tv_nsec now + tv_nsec now
     else \<not> waitForSeconds_waits second now)"
  using assms wait_deadline_eq [OF assms] by (auto simp: waitForSeconds_waits_def timespec_ok_def)

lemma waitForSeconds_half_the_time_witness:
  "\<not> waitForSeconds_waits 1 \<lparr>tv_sec = 100, tv_nsec = 700000000\<rparr> \<and>
   waitForSeconds_waits 1 \<lparr>tv_sec = 100, tv_nsec = 300000000\<rparr>"
  using waitForSeconds_half_the_time [of 1 "\<lparr>tv_sec = 100, tv_nsec = 700000000\<rparr>"]
    waitForSeconds_half_the_time [of 1 "\<lparr>tv_sec = 100, tv_nsec = 300000000\<rparr>"]
  by (simp add: timespec_ok_def NanoSecondsPerSecond_def)

end
