(* ===== verification/Connection.thy ===== *)
theory Connection
  imports Buffer Sock_Addr
begin

text \<open>
  Class \<open>TcpConnection\<close> of \<open>src/tcpConnection.h\<close> and \<open>src/tcpConnection.cpp\<close>, and the callbacks of
  \<open>src/main.cpp\<close>. The socket is the environment: what the successive \<open>read\<close> and \<open>write\<close> calls on it do is an
  argument of the event handlers, and so is the time. Messages printed on the standard output are left out. The
  callbacks stored in the server are arguments; an empty \<open>std::function\<close> is \<open>None\<close>. A callback gives the connection it
  leaves behind and the lines it logs through \<open>TcpConnection::log\<close>.
\<close>

section \<open>The connection\<close>

definition EPOLLIN :: "32 word" where "EPOLLIN = 1"
definition EPOLLOUT :: "32 word" where "EPOLLOUT = 4"
definition EPOLLERR :: "32 word" where "EPOLLERR = 8"
definition EPOLLHUP :: "32 word" where "EPOLLHUP = 16"
definition EPOLLET :: "32 word" where "EPOLLET = 0x80000000"

record connection =
  conn_id :: "64 word"
  connfd :: int
  epoll_events :: "32 word"
  peerAddr :: sockaddr_in
  readBuffer :: buffer
  writeBuffer :: buffer
  lastActiveTime :: int
  conn_closed :: bool

type_synonym log_line = "string \<times> string"
type_synonym callback = "connection \<Rightarrow> (connection \<times> log_line list) res"

record callbacks =
  connectionCallback :: "callback option"
  disconnectionCallback :: "callback option"
  messageCallback :: "callback option"

definition invoke :: "callback option \<Rightarrow> connection \<Rightarrow> (connection \<times> log_line list) res" where
  "invoke cb c = (case cb of None \<Rightarrow> Inl Bad_Function_Call | Some f \<Rightarrow> f c)"

text \<open>The constructor; \<open>flags\<close> and \<open>setfl\<close> are the results of the two \<open>fcntl\<close> calls.\<close>

definition TcpConnection_new :: "64 word \<Rightarrow> int \<Rightarrow> sockaddr_in \<Rightarrow> int \<Rightarrow> int \<Rightarrow> int \<Rightarrow> int \<Rightarrow> int \<Rightarrow> int \<Rightarrow> int \<Rightarrow>
    connection res" where
  "TcpConnection_new i fd peer rinit rmax winit wmax flags setfl now =
     bind_res (Buffer_new rinit rmax float_1_5) (\<lambda>rb.
     bind_res (Buffer_new winit wmax float_1_5) (\<lambda>wb.
       if \<not> flags \<ge> 0 then Inl Assert_Failed
       else if \<not> setfl \<ge> 0 then Inl Assert_Failed
       else Inr \<lparr>conn_id = i, connfd = fd, epoll_events = EPOLLIN OR EPOLLOUT OR EPOLLET, peerAddr = peer,
                 readBuffer = rb, writeBuffer = wb, lastActiveTime = now, conn_closed = False\<rparr>))"

definition updateEpollEvent :: "connection \<Rightarrow> connection" where
  "updateEpollEvent c =
     (if conn_closed c then c
      else if \<not> buf_empty (writeBuffer c) then c\<lparr>epoll_events := epoll_events c OR EPOLLOUT\<rparr>
      else c\<lparr>epoll_events := epoll_events c AND NOT EPOLLOUT\<rparr>)"

section \<open>Sending and receiving\<close>

text \<open>A \<open>const char *\<close> argument is the memory it points to.\<close>

definition sendRaw :: "string \<Rightarrow> connection \<Rightarrow> connection res" where
  "sendRaw str c = bind_res (buf_write_string str (writeBuffer c)) (\<lambda>(_, wb). Inr (c\<lparr>writeBuffer := wb\<rparr>))"

definition sendRaw_n :: "string \<Rightarrow> int \<Rightarrow> connection \<Rightarrow> connection res" where
  "sendRaw_n str n c = bind_res (buf_write str n (writeBuffer c)) (\<lambda>(_, wb). Inr (c\<lparr>writeBuffer := wb\<rparr>))"

definition sendRaw_cstr :: "string \<Rightarrow> connection \<Rightarrow> connection res" where
  "sendRaw_cstr str c = bind_res (strlen str) (\<lambda>n. sendRaw_n str (int_of_size n) c)"

text \<open>\<open>format("%d %s", n, str)\<close>\<close>

definition message_frame :: "int \<Rightarrow> string \<Rightarrow> string" where
  "message_frame n str = show_int n @ '' '' @ c_str str"

definition sendMessage :: "string \<Rightarrow> connection \<Rightarrow> connection res" where
  "sendMessage str c =
     bind_res (buf_write_string (message_frame (int_of_size (length str)) str) (writeBuffer c)) (\<lambda>(_, wb).
       Inr (c\<lparr>writeBuffer := wb\<rparr>))"

definition sendMessage_n :: "string \<Rightarrow> int \<Rightarrow> connection \<Rightarrow> connection res" where
  "sendMessage_n str n c =
     bind_res (strlen str) (\<lambda>_.
     bind_res (buf_write_string (message_frame n str) (writeBuffer c)) (\<lambda>(_, wb).
       Inr (c\<lparr>writeBuffer := wb\<rparr>)))"

definition sendMessage_cstr :: "string \<Rightarrow> connection \<Rightarrow> connection res" where
  "sendMessage_cstr str c = bind_res (strlen str) (\<lambda>n. sendMessage_n str (int_of_size n) c)"

definition receiveRawAsString :: "connection \<Rightarrow> (string \<times> connection) res" where
  "receiveRawAsString c = bind_res (readAsString (readBuffer c)) (\<lambda>(s, rb). Inr (s, c\<lparr>readBuffer := rb\<rparr>))"

definition receiveRawAsString_n :: "int \<Rightarrow> connection \<Rightarrow> (string \<times> connection) res" where
  "receiveRawAsString_n len c =
     bind_res (readAsString_n len (readBuffer c)) (\<lambda>(s, rb). Inr (s, c\<lparr>readBuffer := rb\<rparr>))"

definition receiveRaw :: "string \<Rightarrow> connection \<Rightarrow> (int \<times> string \<times> connection) res" where
  "receiveRaw dst c = bind_res (buf_read_all dst (readBuffer c)) (\<lambda>(n, dst', rb). Inr (n, dst', c\<lparr>readBuffer := rb\<rparr>))"

definition receiveRaw_n :: "string \<Rightarrow> int \<Rightarrow> connection \<Rightarrow> (int \<times> string \<times> connection) res" where
  "receiveRaw_n dst len c =
     bind_res (buf_read dst len (readBuffer c)) (\<lambda>(n, dst', rb). Inr (n, dst', c\<lparr>readBuffer := rb\<rparr>))"

text \<open>The delimiter of \<open>peekIntWithLength\<close> is its default, a blank.\<close>

definition receiveMessageAsString :: "connection \<Rightarrow> (string \<times> connection) res" where
  "receiveMessageAsString c =
     bind_res (peekIntWithLength CHR '' '' (readBuffer c)) (\<lambda>(ret, temp, tempLen).
       if ret \<noteq> 0
       then bind_res (c_int (tempLen + 1 + temp)) (\<lambda>need.
         if buf_size (readBuffer c) \<ge> need
         then bind_res (skipHead (tempLen + 1) (readBuffer c)) (\<lambda>rb.
                receiveRawAsString_n temp (c\<lparr>readBuffer := rb\<rparr>))
         else Inr ([], c))
       else Inr ([], c))"

definition receiveMessage :: "string \<Rightarrow> connection \<Rightarrow> (int \<times> string \<times> connection) res" where
  "receiveMessage dst c =
     bind_res (peekIntWithLength CHR '' '' (readBuffer c)) (\<lambda>(ret, temp, tempLen).
       if ret \<noteq> 0
       then bind_res (c_int (tempLen + 1 + temp)) (\<lambda>need.
         if buf_size (readBuffer c) \<ge> need
         then bind_res (skipHead (tempLen + 1) (readBuffer c)) (\<lambda>rb.
                receiveRaw_n dst temp (c\<lparr>readBuffer := rb\<rparr>))
         else Inr (0, dst, c))
       else Inr (0, dst, c))"

section \<open>Events\<close>

definition onConnection :: "callbacks \<Rightarrow> connection \<Rightarrow> (connection \<times> log_line list) res" where
  "onConnection cbs c = invoke (connectionCallback cbs) c"

definition onDisconnection :: "callbacks \<Rightarrow> connection \<Rightarrow> (connection \<times> log_line list) res" where
  "onDisconnection cbs c =
     bind_res (invoke (disconnectionCallback cbs) c) (\<lambda>(c1, ls). Inr (c1\<lparr>conn_closed := True\<rparr>, ls))"

definition onMessage :: "callbacks \<Rightarrow> connection \<Rightarrow> (connection \<times> log_line list) res" where
  "onMessage cbs c = invoke (messageCallback cbs) c"

text \<open>What waits on the socket: chunks of data, the end of the stream, or an error. \<open>read(2)\<close> with no room returns 0;
  otherwise it returns bytes of the first chunk, at most as many as there is room for.\<close>

datatype incoming = Data string | Eof | Fail int

definition EAGAIN :: int where "EAGAIN = 11"

fun sys_read :: "incoming list \<Rightarrow> nat \<Rightarrow> int \<times> string \<times> incoming list" where
  "sys_read ins 0 = (0, [], ins)"
| "sys_read [] n = (-1, [], [])"
| "sys_read (Eof # ins) n = (0, [], Eof # ins)"
| "sys_read (Fail e # ins) n = (-1, [], ins)"
| "sys_read (Data s # ins) n = (int (min n (length s)), take n s, if length s \<le> n then ins else Data (drop n s) # ins)"

text \<open>\<open>while((ret = read(_connfd, buffer + totalRead, space)) > 0)\<close>, with the bytes read so far.\<close>

function recv_loop :: "incoming list \<Rightarrow> nat \<Rightarrow> string \<Rightarrow> string \<times> incoming list" where
  "recv_loop ins space got =
     (let (ret, bytes, ins') = sys_read ins space
      in if ret > 0 then recv_loop ins' (space - nat ret) (got @ bytes) else (got, ins'))"
  by pat_completeness auto
termination
proof (relation "measure (\<lambda>(_, space, _). space)", goal_cases)
  case (2 ins space got x ret y bytes ins')
  then show ?case by (cases "(ins, space)" rule: sys_read.cases) auto
qed simp

declare recv_loop.simps [simp del]

text \<open>\<open>onReadableEvent\<close>: the connection, what is left on the socket, the lines logged.\<close>

definition onReadableEvent :: "callbacks \<Rightarrow> int \<Rightarrow> incoming list \<Rightarrow> connection \<Rightarrow>
    (connection \<times> incoming list \<times> log_line list) res" where
  "onReadableEvent cbs now ins c0 =
     (let c = c0\<lparr>lastActiveTime := now\<rparr>; space = getMaxSpace (readBuffer c)
      in if space \<le> 0 then Inl Process_Exit
         else let (got, ins') = recv_loop ins (nat space) []; totalRead = int (length got)
              in if totalRead \<le> 0
                 then bind_res (onDisconnection cbs c) (\<lambda>(c1, ls). Inr (c1, ins', ls))
                 else bind_res (buf_write (got @ replicate (nat (space - totalRead)) NUL) totalRead (readBuffer c)) (\<lambda>(_, rb).
                      bind_res (onMessage cbs (c\<lparr>readBuffer := rb\<rparr>)) (\<lambda>(c1, ls). Inr (c1, ins', ls))))"

text \<open>How many bytes the successive \<open>write(2)\<close> calls accept; when the list ends, \<open>EAGAIN\<close>. A write to a socket whose peer has gone raises
  \<open>SIGPIPE\<close>, which the program does not ignore: then there is no result, and the process ends. In \<open>Whole_Server\<close> that is the action
  \<open>Peer_Gone\<close>.\<close>

fun send_loop :: "nat list \<Rightarrow> string \<Rightarrow> nat \<Rightarrow> nat" where
  "send_loop [] buffer totalWrite = totalWrite"
| "send_loop (k # ks) buffer totalWrite =
     (let ret = min k (length buffer - totalWrite)
      in if ret > 0 then send_loop ks buffer (totalWrite + ret) else totalWrite)"

text \<open>\<open>onWritableEvent\<close>: the connection and the bytes the socket took.\<close>

definition onWritableEvent :: "int \<Rightarrow> nat list \<Rightarrow> connection \<Rightarrow> (connection \<times> string) res" where
  "onWritableEvent now ks c0 =
     (let c = c0\<lparr>lastActiveTime := now\<rparr>; size = getSize (writeBuffer c)
      in if size \<le> 0 then Inr (c, [])
         else bind_res (buf_copy (replicate (nat size) NUL) size (writeBuffer c)) (\<lambda>(_, buffer).
              let totalWrite = send_loop ks buffer 0
              in if totalWrite = 0 then Inr (c, [])
                 else bind_res (skipHead (int totalWrite) (writeBuffer c)) (\<lambda>wb.
                   Inr (c\<lparr>writeBuffer := wb\<rparr>, take totalWrite buffer))))"

section \<open>The callbacks of main.cpp\<close>

definition LOG_DEBUG :: string where "LOG_DEBUG = ''DEBUG''"
definition LOG_ERROR :: string where "LOG_ERROR = ''ERROR''"
definition LOG_INFO :: string where "LOG_INFO = ''INFO''"
definition LOG_TRACE :: string where "LOG_TRACE = ''TRACE''"
definition LOG_WARN :: string where "LOG_WARN = ''WARN''"

definition main_onConnection :: callback where "main_onConnection c = Inr (c, [])"
definition main_onDisconnection :: callback where "main_onDisconnection c = Inr (c, [])"

definition main_onMessage :: callback where
  "main_onMessage c =
     bind_res (receiveRawAsString c) (\<lambda>(data, c1).
     bind_res (sendRaw data c1) (\<lambda>c2. Inr (c2, [(LOG_DEBUG, data)])))"

definition main_callbacks :: callbacks where
  "main_callbacks = \<lparr>connectionCallback = Some main_onConnection,
     disconnectionCallback = Some main_onDisconnection, messageCallback = Some main_onMessage\<rparr>"

section \<open>Well-formed connections\<close>

definition conn_ok :: "connection \<Rightarrow> bool" where
  "conn_ok c \<longleftrightarrow> buf_ok (readBuffer c) \<and> buf_ok (writeBuffer c)"

text \<open>Bytes received and not read yet, bytes to send.\<close>

definition inbox :: "connection \<Rightarrow> string" where "inbox c = contents (readBuffer c)"
definition outbox :: "connection \<Rightarrow> string" where "outbox c = contents (writeBuffer c)"

definition out_room :: "connection \<Rightarrow> nat" where "out_room c = nat (getMaxSpace (writeBuffer c))"
definition in_room :: "connection \<Rightarrow> nat" where "in_room c = nat (getMaxSpace (readBuffer c))"

lemma Buffer_new_ok:
  assumes "2 \<le> init" "init \<le> mx" "mx \<le> 2 ^ 30"
  shows "\<exists>b. Buffer_new init mx float_1_5 = Inr b \<and> buf_ok b \<and> contents b = [] \<and> maxSize b = mx"
  using assms by (simp add: Buffer_new_def new_chars0_def buf_ok_def buf_inv_def contents_def INT_MAX_def)

lemma TcpConnection_new_fields:
  assumes "2 \<le> rinit" "rinit \<le> rmax" "rmax \<le> 2 ^ 30" "2 \<le> winit" "winit \<le> wmax" "wmax \<le> 2 ^ 30"
    "0 \<le> flags" "0 \<le> setfl"
  shows "\<exists>c. TcpConnection_new i fd peer rinit rmax winit wmax flags setfl now = Inr c \<and> conn_ok c \<and>
    inbox c = [] \<and> outbox c = [] \<and> conn_id c = i \<and> \<not> conn_closed c \<and> maxSize (readBuffer c) = rmax \<and>
    maxSize (writeBuffer c) = wmax \<and> lastActiveTime c = now \<and> connfd c = fd"
proof -
  obtain rb where rb: "Buffer_new rinit rmax float_1_5 = Inr rb" "buf_ok rb" "contents rb = []" "maxSize rb = rmax"
    using Buffer_new_ok assms by blast
  obtain wb where wb: "Buffer_new winit wmax float_1_5 = Inr wb" "buf_ok wb" "contents wb = []" "maxSize wb = wmax"
    using Buffer_new_ok assms by blast
  from rb wb assms show ?thesis by (simp add: TcpConnection_new_def conn_ok_def inbox_def outbox_def)
qed

lemma buf_okE: "buf_ok b \<Longrightarrow> maxSize b \<le> 2 ^ 30 \<and> 0 \<le> bufCount b \<and> bufCount b \<le> maxSize b \<and> buf_inv b"
  using buf_inv_bounds [of b] by (auto simp: buf_ok_def)

lemma buf_ok_count: "buf_ok b \<Longrightarrow> bufCount b = int (length (contents b))"
  using buf_okE [of b] by simp

lemma outbox_write:
  assumes "conn_ok c" "length (outbox c) + length s \<le> 2 ^ 30"
  obtains n wb where "buf_write_string s (writeBuffer c) = Inr (n, wb)" "conn_ok (c\<lparr>writeBuffer := wb\<rparr>)"
    "outbox (c\<lparr>writeBuffer := wb\<rparr>) = outbox c @ take (out_room c) s" "maxSize wb = maxSize (writeBuffer c)"
proof -
  have wb: "buf_ok (writeBuffer c)" using assms(1) by (simp add: conn_ok_def)
  have "bufCount (writeBuffer c) + int (length s) \<le> 2 ^ 30"
    using assms(2) buf_okE [OF wb] by (simp add: outbox_def)
  from buf_write_string_spec [OF wb this] that assms(1) show ?thesis
    by (auto simp: conn_ok_def outbox_def out_room_def)
qed

lemma sendRaw_spec:
  assumes "conn_ok c" "length (outbox c) + length str \<le> 2 ^ 30"
  shows "\<exists>c'. sendRaw str c = Inr c' \<and> conn_ok c' \<and> outbox c' = outbox c @ take (out_room c) str \<and>
    c' = c\<lparr>writeBuffer := writeBuffer c'\<rparr> \<and> maxSize (writeBuffer c') = maxSize (writeBuffer c)"
  using outbox_write [OF assms] by (fastforce simp: sendRaw_def)

lemma sendMessage_spec:
  assumes "conn_ok c" "length (outbox c) + length (message_frame (int_of_size (length str)) str) \<le> 2 ^ 30"
  shows "\<exists>c'. sendMessage str c = Inr c' \<and> conn_ok c' \<and>
    outbox c' = outbox c @ take (out_room c) (message_frame (int_of_size (length str)) str) \<and>
    c' = c\<lparr>writeBuffer := writeBuffer c'\<rparr>"
  using outbox_write [OF assms] by (fastforce simp: sendMessage_def)

lemma sendMessage_max:
  assumes "conn_ok c" "length (outbox c) + length (message_frame (int_of_size (length str)) str) \<le> 2 ^ 30"
    "length (message_frame (int_of_size (length str)) str) \<le> out_room c"
  shows "\<exists>c'. sendMessage str c = Inr c' \<and> conn_ok c' \<and>
    outbox c' = outbox c @ message_frame (int_of_size (length str)) str \<and>
    maxSize (writeBuffer c') = maxSize (writeBuffer c)"
  using outbox_write [OF assms(1,2)] assms(3) by (fastforce simp: sendMessage_def)

lemma sendMessage_n_spec:
  assumes "conn_ok c" "length (outbox c) + length (message_frame n str) \<le> 2 ^ 30"
  shows "\<exists>c'. sendMessage_n (str @ [NUL]) n c = Inr c' \<and> conn_ok c' \<and>
    outbox c' = outbox c @ take (out_room c) (message_frame n str) \<and>
    c' = c\<lparr>writeBuffer := writeBuffer c'\<rparr>"
proof -
  have "message_frame n (str @ [NUL]) = message_frame n str" by (simp add: message_frame_def)
  then show ?thesis using outbox_write [OF assms] by (fastforce simp: sendMessage_n_def strlen_def)
qed

text \<open>The length header, and a message behind it.\<close>

lemma receiveMessage_header:
  assumes ok: "conn_ok c" and box: "inbox c = show_nat n @ CHR '' '' # rest" and n: "n < 2 ^ 30"
  shows "peekIntWithLength CHR '' '' (readBuffer c) = Inr (1, int n, int (length (show_nat n)))"
    "c_int (int (length (show_nat n)) + 1 + int n) = Inr (int (length (show_nat n)) + 1 + int n)"
    "buf_size (readBuffer c) = int (length (show_nat n)) + 1 + int (length rest)"
    "skipHead (int (length (show_nat n)) + 1) (readBuffer c) =
       Inr (pop_front (int (length (show_nat n)) + 1) (readBuffer c))"
    "buf_ok (pop_front (int (length (show_nat n)) + 1) (readBuffer c))"
    "contents (pop_front (int (length (show_nat n)) + 1) (readBuffer c)) = rest"
proof -
  have rb: "buf_ok (readBuffer c)" using ok by (simp add: conn_ok_def)
  note b = buf_okE [OF rb]
  have cont: "contents (readBuffer c) = show_nat n @ CHR '' '' # rest" using box by (simp add: inbox_def)
  have cnt: "bufCount (readBuffer c) = int (length (show_nat n)) + 1 + int (length rest)"
    using buf_ok_count [OF rb] cont by simp
  then have len: "int (length (show_nat n)) + 1 + int (length rest) \<le> 2 ^ 30" using b by simp
  show "peekIntWithLength CHR '' '' (readBuffer c) = Inr (1, int n, int (length (show_nat n)))"
    using peekIntWithLength_header [of "readBuffer c" "show_nat n" "CHR '' ''" rest "CHR '' ''"] b cont
      show_nat_digits [of n] n by (simp add: dec_val_show_nat INT_MAX_def)
  show "c_int (int (length (show_nat n)) + 1 + int n) = Inr (int (length (show_nat n)) + 1 + int n)"
    using len n by (intro c_int_nonneg) (simp_all add: INT_MAX_def)
  show "buf_size (readBuffer c) = int (length (show_nat n)) + 1 + int (length rest)"
    using cnt by (simp add: buf_size_def)
  show "skipHead (int (length (show_nat n)) + 1) (readBuffer c) =
       Inr (pop_front (int (length (show_nat n)) + 1) (readBuffer c))"
    using skipHead_eq [of "readBuffer c"] b cnt by simp
  show "buf_ok (pop_front (int (length (show_nat n)) + 1) (readBuffer c))"
    using pop_front_ok [OF rb] cnt by simp
  have "nat (int (length (show_nat n)) + 1) = Suc (length (show_nat n))" by simp
  then show "contents (pop_front (int (length (show_nat n)) + 1) (readBuffer c)) = rest"
    using pop_front_contents [of "int (length (show_nat n)) + 1" "readBuffer c"] b cnt cont by simp
qed

lemma receiveMessageAsString_spec:
  assumes ok: "conn_ok c" and box: "inbox c = show_nat n @ CHR '' '' # rest" and n: "n < 2 ^ 30"
  shows "if n \<le> length rest
    then \<exists>c'. receiveMessageAsString c = Inr (c_str (take n rest), c') \<and> conn_ok c' \<and> inbox c' = drop n rest \<and>
      c' = c\<lparr>readBuffer := readBuffer c'\<rparr>
    else receiveMessageAsString c = Inr ([], c)"
proof -
  note h = receiveMessage_header [OF assms]
  let ?rb = "pop_front (int (length (show_nat n)) + 1) (readBuffer c)"
  show ?thesis
  proof (cases "n \<le> length rest")
    case True
    note b = buf_okE [OF h(5)]
    have cnt: "bufCount ?rb = int (length rest)" using buf_ok_count [OF h(5)] h(6) by simp
    have "readAsString_n (int n) ?rb = Inr (c_str (take n rest), pop_front (int n) ?rb)"
      using readAsString_n_eq [of ?rb "int n"] b h(6) cnt True by (simp add: INT_MAX_def)
    moreover have "buf_ok (pop_front (int n) ?rb)" "contents (pop_front (int n) ?rb) = drop n rest"
      using pop_front_ok [OF h(5), of "int n"] pop_front_contents [of "int n" ?rb] b cnt True h(6) by simp_all
    ultimately show ?thesis using True h(1-4) ok
      by (simp add: receiveMessageAsString_def receiveRawAsString_n_def conn_ok_def inbox_def)
  next
    case False
    then show ?thesis using h(1-3) by (simp add: receiveMessageAsString_def)
  qed
qed

lemma receiveMessage_spec:
  assumes ok: "conn_ok c" and box: "inbox c = show_nat n @ CHR '' '' # rest" and n: "n < 2 ^ 30"
    and dst: "n \<le> length dst"
  shows "if n \<le> length rest
    then \<exists>c'. receiveMessage dst c = Inr (int n, take n rest @ drop n dst, c') \<and> conn_ok c' \<and> inbox c' = drop n rest
    else receiveMessage dst c = Inr (0, dst, c)"
proof -
  note h = receiveMessage_header [OF ok box n]
  let ?rb = "pop_front (int (length (show_nat n)) + 1) (readBuffer c)"
  show ?thesis
  proof (cases "n \<le> length rest")
    case True
    note b = buf_okE [OF h(5)]
    have cnt: "bufCount ?rb = int (length rest)" using buf_ok_count [OF h(5)] h(6) by simp
    have "buf_read dst (int n) ?rb = Inr (int n, take n rest @ drop n dst, pop_front (int n) ?rb)"
      using buf_read_spec [of ?rb "int n" dst] b h(6) cnt True dst by simp
    moreover have "buf_ok (pop_front (int n) ?rb)" "contents (pop_front (int n) ?rb) = drop n rest"
      using pop_front_ok [OF h(5), of "int n"] pop_front_contents [of "int n" ?rb] b cnt True h(6) by simp_all
    ultimately show ?thesis using True h(1-4) ok
      by (simp add: receiveMessage_def receiveRaw_n_def conn_ok_def inbox_def)
  next
    case False
    then show ?thesis using h(1-3) by (simp add: receiveMessage_def)
  qed
qed

section \<open>Event handlers\<close>

text \<open>The bytes that can be read before the end of the stream or an error.\<close>

fun arrived :: "incoming list \<Rightarrow> string" where
  "arrived (Data s # ins) = (if s = [] then [] else s @ arrived ins)"
| "arrived _ = []"

lemma recv_loop_spec:
  "\<exists>ins'. recv_loop ins n got = (got @ take n (arrived ins), ins') \<and>
    (n \<le> length (arrived ins) \<longrightarrow> arrived ins' = drop n (arrived ins))"
proof (induction n arbitrary: ins got rule: less_induct)
  case (less n)
  show ?case
  proof (cases "(ins, n)" rule: sys_read.cases)
    case (5 s ins1 m)
    then have eq: "ins = Data s # ins1" "n = Suc m" by simp_all
    show ?thesis
    proof (cases "s = []")
      case True
      then show ?thesis using eq by (subst recv_loop.simps) simp
    next
      case False
      let ?k = "min n (length s)"
      let ?ins' = "if length s \<le> n then ins1 else Data (drop n s) # ins1"
      have k: "0 < ?k" "?k \<le> n" using False eq by auto
      then have "n - ?k < n" using eq by simp
      from less [OF this, of ?ins' "got @ take n s"] obtain ins'' where
        IH: "recv_loop ?ins' (n - ?k) (got @ take n s) = ((got @ take n s) @ take (n - ?k) (arrived ?ins'), ins'')"
          "n - ?k \<le> length (arrived ?ins') \<longrightarrow> arrived ins'' = drop (n - ?k) (arrived ?ins')" by blast
      have "sys_read ins n = (int ?k, take n s, ?ins')" using eq by simp
      then have "recv_loop ins n got = recv_loop ?ins' (n - ?k) (got @ take n s)"
        using k(1) by (subst recv_loop.simps) (simp only: Let_def split_conv nat_int of_nat_0_less_iff if_True)
      then show ?thesis using IH eq False by (cases "length s \<le> n") auto
    qed
  qed (auto simp: recv_loop.simps [of "[]"] recv_loop.simps [of "Eof # x" for x]
      recv_loop.simps [of "Fail e # x" for e x] recv_loop.simps [of _ 0])
qed

lemma onReadableEvent_full:
  "in_room c = 0 \<Longrightarrow> onReadableEvent cbs now ins c = Inl Process_Exit"
  by (simp add: onReadableEvent_def in_room_def Let_def)

lemma onReadableEvent_nothing:
  assumes "0 < in_room c" "arrived ins = []"
  shows "\<exists>ins'. onReadableEvent cbs now ins c =
    bind_res (onDisconnection cbs (c\<lparr>lastActiveTime := now\<rparr>)) (\<lambda>(c1, ls). Inr (c1, ins', ls))"
  using assms recv_loop_spec [of ins "in_room c" "[]"]
  by (auto simp: onReadableEvent_def in_room_def Let_def)

lemma onReadableEvent_data:
  assumes ok: "conn_ok c" and room: "0 < in_room c" and data: "arrived ins \<noteq> []"
  shows "\<exists>ins' c1. onReadableEvent cbs now ins c =
      bind_res (onMessage cbs c1) (\<lambda>(c2, ls). Inr (c2, ins', ls)) \<and>
    conn_ok c1 \<and> inbox c1 = inbox c @ take (in_room c) (arrived ins) \<and>
    c1 = c\<lparr>lastActiveTime := now, readBuffer := readBuffer c1\<rparr> \<and>
    maxSize (readBuffer c1) = maxSize (readBuffer c) \<and>
    (in_room c \<le> length (arrived ins) \<longrightarrow> arrived ins' = drop (in_room c) (arrived ins))"
proof -
  define s where "s = take (in_room c) (arrived ins)"
  have rb: "buf_ok (readBuffer c)" using ok by (simp add: conn_ok_def)
  obtain ins' where r: "recv_loop ins (in_room c) [] = (s, ins')"
    "in_room c \<le> length (arrived ins) \<longrightarrow> arrived ins' = drop (in_room c) (arrived ins)"
    using recv_loop_spec [of ins "in_room c" "[]"] by (auto simp: s_def)
  let ?sp = "getMaxSpace (readBuffer c)"
  have sp: "int (in_room c) = ?sp" "?sp + bufCount (readBuffer c) \<le> 2 ^ 30"
    using room buf_okE [OF rb] by (simp_all add: in_room_def getMaxSpace_def)
  have len: "length s \<le> in_room c" "0 < length s" using data room by (auto simp: s_def)
  let ?src = "s @ replicate (nat (?sp - int (length s))) NUL"
  have "bufCount (readBuffer c) + int (length s) \<le> 2 ^ 30" using sp len by simp
  moreover have "0 \<le> int (length s)" "int (length s) \<le> int (length ?src)" by simp_all
  ultimately obtain b where b: "buf_write ?src (int (length s)) (readBuffer c) = Inr (min (int (length s)) ?sp, b)" "buf_ok b"
    "contents b = contents (readBuffer c) @ take (nat (min (int (length s)) ?sp)) ?src" "maxSize b = maxSize (readBuffer c)"
    using buf_write_spec [OF rb, of "int (length s)" ?src] by blast
  have "nat (min (int (length s)) ?sp) = length s" using sp(1) len by linarith
  then have cont: "contents b = contents (readBuffer c) @ s" using b(3) by simp
  have "onReadableEvent cbs now ins c =
      bind_res (onMessage cbs (c\<lparr>lastActiveTime := now, readBuffer := b\<rparr>)) (\<lambda>(c2, ls). Inr (c2, ins', ls))"
    using r(1) b(1) len sp room by (simp add: onReadableEvent_def in_room_def Let_def)
  then show ?thesis using r(2) b(2,4) cont ok
    by (intro exI [of _ ins'] exI [of _ "c\<lparr>lastActiveTime := now, readBuffer := b\<rparr>"])
      (simp add: conn_ok_def inbox_def s_def)
qed

lemma send_loop_bounds: "t \<le> length b \<Longrightarrow> t \<le> send_loop ks b t \<and> send_loop ks b t \<le> length b"
proof (induction ks arbitrary: t)
  case (Cons k ks)
  let ?r = "min k (length b - t)"
  have "t + ?r \<le> length b" using Cons.prems by simp
  from Cons.IH [OF this] show ?case using Cons.prems by (simp add: Let_def)
qed simp

lemma send_loop_all: "length b \<le> k \<Longrightarrow> send_loop (k # ks) b 0 = length b"
proof -
  have "send_loop ks b (length b) = length b" by (cases ks) simp_all
  moreover assume "length b \<le> k"
  ultimately show ?thesis by (cases b) (simp_all add: Let_def min_def)
qed

lemma onWritableEvent_spec:
  assumes ok: "conn_ok c"
  shows "\<exists>c'. onWritableEvent now ks c = Inr (c', take (send_loop ks (outbox c) 0) (outbox c)) \<and> conn_ok c' \<and>
    outbox c' = drop (send_loop ks (outbox c) 0) (outbox c) \<and>
    c' = c\<lparr>lastActiveTime := now, writeBuffer := writeBuffer c'\<rparr> \<and>
    maxSize (writeBuffer c') = maxSize (writeBuffer c)"
proof -
  have wb: "buf_ok (writeBuffer c)" using ok by (simp add: conn_ok_def)
  note b = buf_okE [OF wb] and cnt = buf_ok_count [OF wb]
  let ?t = "send_loop ks (outbox c) 0"
  show ?thesis
  proof (cases "outbox c = []")
    case True
    then have "send_loop ks [] 0 = 0" by (cases ks) simp_all
    then show ?thesis using True cnt ok
      by (simp add: onWritableEvent_def getSize_def outbox_def conn_ok_def)
  next
    case False
    then have "0 < length (outbox c)" by simp
    then have "0 < int (length (contents (writeBuffer c)))" unfolding outbox_def by linarith
    then have pos: "0 < bufCount (writeBuffer c)" using cnt by linarith
    have copy: "buf_copy (replicate (nat (bufCount (writeBuffer c))) NUL) (bufCount (writeBuffer c)) (writeBuffer c) =
        Inr (bufCount (writeBuffer c), outbox c)"
      using buf_copy_spec [of "writeBuffer c" "bufCount (writeBuffer c)" "replicate (nat (bufCount (writeBuffer c))) NUL"] b
      by (simp add: outbox_def)
    have t: "?t \<le> length (outbox c)" using send_loop_bounds [of 0 "outbox c" ks] by simp
    then have t': "int ?t \<le> bufCount (writeBuffer c)" using cnt unfolding outbox_def by linarith
    show ?thesis
    proof (cases "?t = 0")
      case True
      then show ?thesis using pos copy ok by (simp add: onWritableEvent_def getSize_def outbox_def conn_ok_def)
    next
      case False
      have "skipHead (int ?t) (writeBuffer c) = Inr (pop_front (int ?t) (writeBuffer c))"
        using skipHead_eq b t' by simp
      then show ?thesis using False pos copy ok pop_front_ok [OF wb _ t'] pop_front_contents [OF _ t']
        by (auto simp add: Let_def onWritableEvent_def getSize_def conn_ok_def outbox_def)
    qed
  qed
qed

lemma main_onMessage_spec:
  assumes ok: "conn_ok c" and len: "length (outbox c) + length (inbox c) \<le> 2 ^ 30"
  shows "\<exists>c'. main_onMessage c = Inr (c', [(LOG_DEBUG, c_str (inbox c))]) \<and> conn_ok c' \<and> inbox c' = [] \<and>
    outbox c' = outbox c @ take (out_room c) (c_str (inbox c)) \<and>
    c' = c\<lparr>readBuffer := readBuffer c', writeBuffer := writeBuffer c'\<rparr> \<and>
    maxSize (readBuffer c') = maxSize (readBuffer c) \<and> maxSize (writeBuffer c') = maxSize (writeBuffer c)"
proof -
  have rb: "buf_ok (readBuffer c)" using ok by (simp add: conn_ok_def)
  note b = buf_okE [OF rb]
  let ?c1 = "c\<lparr>readBuffer := pop_front (bufCount (readBuffer c)) (readBuffer c)\<rparr>"
  have r: "receiveRawAsString c = Inr (c_str (inbox c), ?c1)"
    using readAsString_eq [of "readBuffer c"] b by (simp add: receiveRawAsString_def inbox_def INT_MAX_def)
  have ok1: "conn_ok ?c1" using ok b pop_front_ok [OF rb, of "bufCount (readBuffer c)"] by (simp add: conn_ok_def)
  have in1: "inbox ?c1 = []" "outbox ?c1 = outbox c" "out_room ?c1 = out_room c"
    using b pop_front_contents [of "bufCount (readBuffer c)" "readBuffer c"]
    by (simp_all add: inbox_def outbox_def out_room_def)
  have "length (c_str (inbox c)) \<le> length (inbox c)" by (simp add: c_str_def length_takeWhile_le)
  then have "length (outbox ?c1) + length (c_str (inbox c)) \<le> 2 ^ 30" using len in1 by simp
  from sendRaw_spec [OF ok1 this] obtain c' where c': "sendRaw (c_str (inbox c)) ?c1 = Inr c'" "conn_ok c'"
    "outbox c' = outbox c @ take (out_room c) (c_str (inbox c))" "c' = ?c1\<lparr>writeBuffer := writeBuffer c'\<rparr>"
    "maxSize (writeBuffer c') = maxSize (writeBuffer c)" using in1 by auto
  have "readBuffer c' = readBuffer ?c1" by (subst c'(4)) simp
  then have "inbox c' = []" using in1(1) by (simp add: inbox_def)
  moreover have "main_onMessage c = Inr (c', [(LOG_DEBUG, c_str (inbox c))])"
    using r c'(1) by (simp add: main_onMessage_def)
  moreover have "c' = c\<lparr>readBuffer := readBuffer c', writeBuffer := writeBuffer c'\<rparr>"
    by (subst c'(4)) (simp add: \<open>readBuffer c' = readBuffer ?c1\<close>)
  moreover have "maxSize (readBuffer c') = maxSize (readBuffer c)" using \<open>readBuffer c' = readBuffer ?c1\<close> by simp
  ultimately show ?thesis using c'(2,3,5) by blast
qed

section \<open>Properties\<close>

fun sendMessages :: "string list \<Rightarrow> connection \<Rightarrow> connection res" where
  "sendMessages [] c = Inr c"
| "sendMessages (m # ms) c = bind_res (sendMessage m c) (sendMessages ms)"

fun receiveMessages :: "nat \<Rightarrow> connection \<Rightarrow> (string list \<times> connection) res" where
  "receiveMessages 0 c = Inr ([], c)"
| "receiveMessages (Suc n) c =
     bind_res (receiveMessageAsString c) (\<lambda>(m, c1). bind_res (receiveMessages n c1) (\<lambda>(ms, c2). Inr (m # ms, c2)))"

text \<open>The frame of a message without NUL bytes.\<close>

definition frame :: "string \<Rightarrow> string" where
  "frame m = show_nat (length m) @ '' '' @ m"

definition plain :: "string \<Rightarrow> bool" where
  "plain m \<longleftrightarrow> NUL \<notin> set m \<and> length m < 2 ^ 30"

lemma plain_frame: "plain m \<Longrightarrow> message_frame (int_of_size (length m)) m = frame m"
  by (simp add: plain_def message_frame_def frame_def int_of_size_small INT_MAX_def c_str_no_NUL)

lemma sendMessages_spec:
  "conn_ok c \<Longrightarrow> \<forall>m \<in> set ms. plain m \<Longrightarrow>
   length (outbox c) + length (concat (map frame ms)) \<le> nat (maxSize (writeBuffer c)) \<Longrightarrow>
   \<exists>c'. sendMessages ms c = Inr c' \<and> conn_ok c' \<and> outbox c' = outbox c @ concat (map frame ms)"
proof (induction ms arbitrary: c)
  case (Cons m ms)
  have wb: "buf_ok (writeBuffer c)" using Cons.prems(1) by (simp add: conn_ok_def)
  have fm: "message_frame (int_of_size (length m)) m = frame m" using Cons.prems(2) by (simp add: plain_frame)
  have mx: "nat (maxSize (writeBuffer c)) \<le> 2 ^ 30" using buf_okE [OF wb] by (simp add: nat_le_iff)
  have le: "length (outbox c) + length (frame m) \<le> nat (maxSize (writeBuffer c))" using Cons.prems(3) by simp
  have le2: "length (outbox c) + length (frame m) \<le> 2 ^ 30" using le mx by (rule le_trans)
  have "out_room c = nat (maxSize (writeBuffer c)) - length (outbox c)"
    using buf_okE [OF wb] by (simp add: out_room_def getMaxSpace_def outbox_def nat_diff_distrib)
  then have "length (frame m) \<le> out_room c" using le by simp
  then obtain c1 where c1: "sendMessage m c = Inr c1" "conn_ok c1" "outbox c1 = outbox c @ frame m"
    "maxSize (writeBuffer c1) = maxSize (writeBuffer c)"
    using sendMessage_max [OF Cons.prems(1), of m] le2 unfolding fm by blast
  have "length (outbox c1) + length (concat (map frame ms)) \<le> nat (maxSize (writeBuffer c1))"
    using Cons.prems(3) c1(3,4) by simp
  with Cons.IH [OF c1(2)] Cons.prems(2) c1 show ?case by auto
qed simp

lemma receiveMessages_spec:
  "conn_ok c \<Longrightarrow> \<forall>m \<in> set ms. plain m \<Longrightarrow> inbox c = concat (map frame ms) @ rest \<Longrightarrow>
   \<exists>c'. receiveMessages (length ms) c = Inr (ms, c') \<and> conn_ok c' \<and> inbox c' = rest"
proof (induction ms arbitrary: c)
  case (Cons m ms)
  have box: "inbox c = show_nat (length m) @ CHR '' '' # (m @ concat (map frame ms) @ rest)"
    using Cons.prems(3) by (simp add: frame_def [of m])
  have "plain m" using Cons.prems(2) by simp
  with receiveMessageAsString_spec [OF Cons.prems(1) box]
  obtain c1 where "receiveMessageAsString c = Inr (m, c1)" "conn_ok c1" "inbox c1 = concat (map frame ms) @ rest"
    by (auto simp: plain_def c_str_no_NUL)
  with Cons.IH [of c1] Cons.prems(2) show ?case by auto
qed simp

text \<open>C14: Messages survive the wire, when there is room for all of them. A list of messages, each without NUL bytes and shorter than
  \<open>2 ^ 30\<close>, sent with sendMessage on a connection that has nothing waiting and whose write buffer may grow to hold all their
  frames, is exactly what receiveMessageAsString, called once per message, gives a peer that has received those bytes,
  with nothing left over.\<close>

theorem message_framing_roundtrip:
  assumes "conn_ok a" "outbox a = []" "\<forall>m \<in> set ms. plain m"
    "length (concat (map frame ms)) \<le> nat (maxSize (writeBuffer a))"
  shows "\<exists>a'. sendMessages ms a = Inr a' \<and> conn_ok a' \<and> (\<forall>b. conn_ok b \<and> inbox b = outbox a' \<longrightarrow>
    (\<exists>b'. receiveMessages (length ms) b = Inr (ms, b') \<and> conn_ok b' \<and> inbox b' = []))"
proof -
  obtain a' where a': "sendMessages ms a = Inr a'" "conn_ok a'" "outbox a' = concat (map frame ms) @ []"
    using sendMessages_spec [OF assms(1,3)] assms(2,4) by auto
  then show ?thesis using receiveMessages_spec [OF _ assms(3)] by metis
qed

text \<open>A fresh connection with small buffers.\<close>

definition sample_connection :: connection where
  "sample_connection = \<lparr>conn_id = 1, connfd = 7, epoll_events = EPOLLIN OR EPOLLOUT OR EPOLLET,
     peerAddr = InetSockAddr 2 0x7F000001 44350,
     readBuffer = \<lparr>bufData = replicate 4 NUL, currentSize = 4, maxSize = 16, bufBegin = 0, bufEnd = 0, bufCount = 0,
       growFactor = float_1_5\<rparr>,
     writeBuffer = \<lparr>bufData = replicate 4 NUL, currentSize = 4, maxSize = 16, bufBegin = 0, bufEnd = 0, bufCount = 0,
       growFactor = float_1_5\<rparr>,
     lastActiveTime = 0, conn_closed = False\<rparr>"

lemma sample_connection_facts:
  "conn_ok sample_connection" "inbox sample_connection = []" "outbox sample_connection = []"
  "in_room sample_connection = 16" "out_room sample_connection = 16"
  "maxSize (writeBuffer sample_connection) = 16" "maxSize (readBuffer sample_connection) = 16"
  by (simp_all add: sample_connection_def conn_ok_def buf_ok_def buf_inv_def inbox_def outbox_def contents_def
      in_room_def out_room_def getMaxSpace_def INT_MAX_def)

lemma message_framing_roundtrip_witness:
  "\<exists>a' b'. sendMessages [''hi'', [], ''a b''] sample_connection = Inr a' \<and>
     receiveMessages 3 (a'\<lparr>readBuffer := writeBuffer a'\<rparr>) = Inr ([''hi'', [], ''a b''], b') \<and> inbox b' = []"
proof -
  have "length (concat (map frame [''hi'', [], ''a b''])) \<le> nat (maxSize (writeBuffer sample_connection))"
    by (simp add: frame_def sample_connection_facts show_nat.simps)
  from message_framing_roundtrip [OF sample_connection_facts(1,3) _ this] obtain a' where
    a': "sendMessages [''hi'', [], ''a b''] sample_connection = Inr a'" "conn_ok a'"
    "\<forall>b. conn_ok b \<and> inbox b = outbox a' \<longrightarrow>
      (\<exists>b'. receiveMessages (length [''hi'', [], ''a b'']) b = Inr ([''hi'', [], ''a b''], b') \<and> conn_ok b' \<and> inbox b' = [])"
    by (auto simp: plain_def)
  moreover have "conn_ok (a'\<lparr>readBuffer := writeBuffer a'\<rparr>)" "inbox (a'\<lparr>readBuffer := writeBuffer a'\<rparr>) = outbox a'"
    using a'(2) by (simp_all add: conn_ok_def inbox_def outbox_def)
  ultimately have "\<exists>b'. receiveMessages (length [''hi'', [], ''a b'']) (a'\<lparr>readBuffer := writeBuffer a'\<rparr>) =
      Inr ([''hi'', [], ''a b''], b') \<and> conn_ok b' \<and> inbox b' = []" by blast
  moreover have "length [''hi'', [], ''a b''] = 3" by simp
  ultimately show ?thesis using a'(1) by metis
qed

text \<open>sendMessage(str, size) announces size but always sends the whole C string. When the two differ the peer is out of
  step: with a smaller size it gets a prefix and the rest of the string stays in front of the next message; with a
  larger size it gets nothing until later bytes complete the count.\<close>

lemma sendMessage_size_mismatch:
  assumes "conn_ok a" "outbox a = []" "plain str" "n < 2 ^ 30" "length (show_nat n) + 1 + length str \<le> out_room a"
  shows "\<exists>a'. sendMessage_n (str @ [NUL]) (int n) a = Inr a' \<and> outbox a' = show_nat n @ '' '' @ str \<and>
    (\<forall>b. conn_ok b \<and> inbox b = outbox a' \<longrightarrow>
      (if n \<le> length str
       then \<exists>b'. receiveMessageAsString b = Inr (take n str, b') \<and> inbox b' = drop n str
       else receiveMessageAsString b = Inr ([], b)))"
proof -
  have fr: "message_frame (int n) str = show_nat n @ '' '' @ str"
    using assms(3) by (simp add: message_frame_def plain_def c_str_no_NUL)
  have "out_room a \<le> 2 ^ 30"
    using assms(1) buf_okE [of "writeBuffer a"] by (simp add: conn_ok_def out_room_def getMaxSpace_def nat_le_iff)
  then have "length (outbox a) + length (message_frame (int n) str) \<le> 2 ^ 30" using assms(2,5) fr by simp
  from sendMessage_n_spec [OF assms(1) this] obtain a' where
    a': "sendMessage_n (str @ [NUL]) (int n) a = Inr a'" "outbox a' = show_nat n @ '' '' @ str"
    using assms(2,5) fr by auto
  have "if n \<le> length str
       then \<exists>b'. receiveMessageAsString b = Inr (take n str, b') \<and> inbox b' = drop n str
       else receiveMessageAsString b = Inr ([], b)" if b: "conn_ok b" "inbox b = outbox a'" for b
  proof -
    have "c_str (take n str) = take n str"
      using assms(3) by (intro c_str_no_NUL) (auto simp: plain_def dest: in_set_takeD)
    moreover have "inbox b = show_nat n @ CHR '' '' # str" using b(2) a'(2) by simp
    ultimately show ?thesis using receiveMessageAsString_spec [OF b(1) _ assms(4), of str] by (auto split: if_splits)
  qed
  with a' show ?thesis by blast
qed

lemma sendMessage_size_mismatch_witness:
  "\<exists>a'. sendMessage_n (''hello'' @ [NUL]) 2 sample_connection = Inr a' \<and> outbox a' = ''2 hello''"
proof -
  have "length (show_nat 2) + 1 + length ''hello'' \<le> out_room sample_connection"
    by (simp add: sample_connection_facts show_nat.simps)
  moreover have "show_nat 2 = ''2''" by code_simp
  ultimately show ?thesis using sendMessage_size_mismatch [OF sample_connection_facts(1,3), of "''hello''" 2]
    by (auto simp: plain_def)
qed

text \<open>receiveMessageAsString on a connection without unread bytes evaluates an uninitialised variable.\<close>

lemma receive_on_empty_reads_uninitialised:
  assumes "conn_ok c" "inbox c = []"
  shows "receiveMessageAsString c = Inl Uninitialised_Read \<and> receiveMessage dst c = Inl Uninitialised_Read"
proof -
  have "buf_ok (readBuffer c)" using assms(1) by (simp add: conn_ok_def)
  note b = buf_okE [OF this]
  have "peekIntWithLength CHR '' '' (readBuffer c) = Inl Uninitialised_Read"
    using peekIntWithLength_empty [of "readBuffer c" "CHR '' ''"] b assms(2) by (simp add: inbox_def)
  then show ?thesis by (simp add: receiveMessageAsString_def receiveMessage_def)
qed

text \<open>C19: A readable event. With a full read buffer it ends the process. When no byte can be read, also after EAGAIN or
  EINTR, it runs the disconnection callback and marks the connection closed. Otherwise exactly the bytes that arrived,
  as many as the buffer can still take, are appended to the unread ones and the message callback runs once; what did
  not fit stays on the socket.\<close>

theorem readable_event_behaviour:
  assumes "conn_ok c"
  shows "if in_room c = 0 then onReadableEvent cbs now ins c = Inl Process_Exit
    else if arrived ins = [] then \<exists>ins'. onReadableEvent cbs now ins c =
      bind_res (onDisconnection cbs (c\<lparr>lastActiveTime := now\<rparr>)) (\<lambda>(c1, ls). Inr (c1, ins', ls))
    else \<exists>ins' c1. onReadableEvent cbs now ins c = bind_res (onMessage cbs c1) (\<lambda>(c2, ls). Inr (c2, ins', ls)) \<and>
      conn_ok c1 \<and> inbox c1 = inbox c @ take (in_room c) (arrived ins) \<and>
      c1 = c\<lparr>lastActiveTime := now, readBuffer := readBuffer c1\<rparr> \<and>
      maxSize (readBuffer c1) = maxSize (readBuffer c) \<and>
      (in_room c \<le> length (arrived ins) \<longrightarrow> arrived ins' = drop (in_room c) (arrived ins))"
  using onReadableEvent_full [of c] onReadableEvent_nothing [of c ins] onReadableEvent_data [OF assms, of ins] by simp

lemma readable_event_behaviour_witness:
  "(\<exists>c1 ins'. onReadableEvent main_callbacks 9 [Fail EAGAIN] sample_connection = Inr (c1, ins', []) \<and> conn_closed c1) \<and>
   (\<exists>ins' c1. onReadableEvent main_callbacks 9 [Data ''ab'', Data ''c'', Fail EAGAIN] sample_connection =
      bind_res (onMessage main_callbacks c1) (\<lambda>(c2, ls). Inr (c2, ins', ls)) \<and> inbox c1 = ''abc'')"
  using readable_event_behaviour [OF sample_connection_facts(1), of main_callbacks 9 "[Fail EAGAIN]"]
    readable_event_behaviour [OF sample_connection_facts(1), of main_callbacks 9 "[Data ''ab'', Data ''c'', Fail EAGAIN]"]
  by (auto simp: sample_connection_facts onDisconnection_def main_callbacks_def invoke_def main_onDisconnection_def)

text \<open>A writable event sends a prefix of the bytes waiting and keeps exactly the rest: nothing is lost, repeated or
  reordered, however few bytes each write takes, and one write that can take everything empties the buffer.\<close>

lemma writable_event_sends_prefix:
  assumes "conn_ok c"
  shows "\<exists>c' sent. onWritableEvent now ks c = Inr (c', sent) \<and> conn_ok c' \<and> sent @ outbox c' = outbox c \<and>
    (\<forall>k rest. ks = k # rest \<and> length (outbox c) \<le> k \<longrightarrow> outbox c' = []) \<and>
    c' = c\<lparr>lastActiveTime := now, writeBuffer := writeBuffer c'\<rparr>"
proof -
  obtain c' where c': "onWritableEvent now ks c = Inr (c', take (send_loop ks (outbox c) 0) (outbox c))" "conn_ok c'"
    "outbox c' = drop (send_loop ks (outbox c) 0) (outbox c)" "c' = c\<lparr>lastActiveTime := now, writeBuffer := writeBuffer c'\<rparr>"
    using onWritableEvent_spec [OF assms, of now ks] by blast
  have "take (send_loop ks (outbox c) 0) (outbox c) @ outbox c' = outbox c" using c'(3) by simp
  moreover have "\<forall>k rest. ks = k # rest \<and> length (outbox c) \<le> k \<longrightarrow> outbox c' = []"
    using c'(3) send_loop_all [of "outbox c"] by auto
  ultimately show ?thesis using c'(1,2,4) by blast
qed

lemma writable_event_sends_prefix_witness:
  "\<exists>c' sent. onWritableEvent 9 [2, 3] (sample_connection\<lparr>writeBuffer := sample_buffer\<rparr>) = Inr (c', sent) \<and>
     sent @ outbox c' = ''abcd''"
proof -
  have "conn_ok (sample_connection\<lparr>writeBuffer := sample_buffer\<rparr>)"
    using sample_connection_facts(1)
    by (simp add: conn_ok_def sample_buffer_def buf_ok_def buf_inv_def INT_MAX_def)
  moreover have "outbox (sample_connection\<lparr>writeBuffer := sample_buffer\<rparr>) = ''abcd''"
    using sample_buffer_contents by (simp add: outbox_def)
  ultimately show ?thesis using writable_event_sends_prefix [of _ 9 "[2, 3]"] by metis
qed

text \<open>The echo server gives a client back what it sent in one readable and one writable event.\<close>

lemma echo_exchange:
  assumes "conn_ok c" "inbox c = []" "outbox c = []" "arrived ins \<noteq> []"
    "length (arrived ins) \<le> in_room c" "length (arrived ins) \<le> out_room c" "length (arrived ins) \<le> k"
  shows "\<exists>c1 ins' c2. onReadableEvent main_callbacks now ins c = Inr (c1, ins', [(LOG_DEBUG, c_str (arrived ins))]) \<and>
    onWritableEvent now' (k # ks) c1 = Inr (c2, c_str (arrived ins)) \<and> conn_ok c2 \<and> inbox c2 = [] \<and> outbox c2 = [] \<and>
    conn_id c1 = conn_id c \<and> conn_closed c2 = conn_closed c"
proof -
  let ?s = "arrived ins"
  have "0 < length ?s" using assms(4) by simp
  then have "0 < in_room c" using assms(5) by linarith
  from onReadableEvent_data [OF assms(1) this assms(4), of main_callbacks now] obtain ins' c0 where
    r: "onReadableEvent main_callbacks now ins c = bind_res (onMessage main_callbacks c0) (\<lambda>(c2, ls). Inr (c2, ins', ls))"
    and c0: "conn_ok c0" "inbox c0 = ?s" "c0 = c\<lparr>lastActiveTime := now, readBuffer := readBuffer c0\<rparr>"
    using assms(2,5) by auto
  have "writeBuffer c0 = writeBuffer c" by (subst c0(3)) simp
  then have out0: "outbox c0 = []" "out_room c0 = out_room c" using assms(3) by (simp_all add: outbox_def out_room_def)
  have "out_room c \<le> 2 ^ 30"
    using assms(1) buf_okE [of "writeBuffer c"] by (simp add: conn_ok_def out_room_def getMaxSpace_def nat_le_iff)
  then have "length (outbox c0) + length (inbox c0) \<le> 2 ^ 30" using out0 c0(2) assms(6) by simp
  from main_onMessage_spec [OF c0(1) this] obtain c1 where
    c1: "main_onMessage c0 = Inr (c1, [(LOG_DEBUG, c_str ?s)])" "conn_ok c1" "inbox c1 = []"
      "outbox c1 = take (out_room c) (c_str ?s)" "c1 = c0\<lparr>readBuffer := readBuffer c1, writeBuffer := writeBuffer c1\<rparr>" using c0(2) out0 by auto
  have len: "length (c_str ?s) \<le> length ?s" by (simp add: c_str_def length_takeWhile_le)
  then have o1: "outbox c1 = c_str ?s" using c1(4) assms(6) by simp
  then have all: "send_loop (k # ks) (outbox c1) 0 = length (outbox c1)" using len assms(7) by (intro send_loop_all) simp
  obtain c2 where c2: "onWritableEvent now' (k # ks) c1 = Inr (c2, c_str ?s)" "conn_ok c2" "outbox c2 = []"
    "c2 = c1\<lparr>lastActiveTime := now', writeBuffer := writeBuffer c2\<rparr>"
    using onWritableEvent_spec [OF c1(2), of now' "k # ks"] all o1 by auto
  have "readBuffer c2 = readBuffer c1" by (subst c2(4)) simp
  then have "inbox c2 = []" using c1(3) by (simp add: inbox_def)
  moreover have "onReadableEvent main_callbacks now ins c = Inr (c1, ins', [(LOG_DEBUG, c_str ?s)])"
    using r c1(1) by (simp add: onMessage_def main_callbacks_def invoke_def)
  moreover have "conn_id c1 = conn_id c"
    by (subst c1(5)) (simp, subst c0(3), simp)
  moreover have "conn_closed c2 = conn_closed c"
    by (subst c2(4)) (simp, subst c1(5), simp, subst c0(3), simp)
  ultimately show ?thesis using c2(1-3) by blast
qed

text \<open>The echo server of main.cpp. A readable event followed by a writable event gives the client back what it sent, up to
  the first NUL byte: with NUL-free data the echo is exact, and after a NUL byte the data is lost. Both buffers
  are empty again.\<close>

lemma echo_roundtrip:
  assumes "conn_ok c" "inbox c = []" "outbox c = []" "arrived ins \<noteq> []"
    "length (arrived ins) \<le> in_room c" "length (arrived ins) \<le> out_room c" "length (arrived ins) \<le> k"
  shows "\<exists>c1 ins' c2. onReadableEvent main_callbacks now ins c = Inr (c1, ins', [(LOG_DEBUG, c_str (arrived ins))]) \<and>
    onWritableEvent now' (k # ks) c1 = Inr (c2, c_str (arrived ins)) \<and> conn_ok c2 \<and> inbox c2 = [] \<and> outbox c2 = [] \<and>
    (NUL \<notin> set (arrived ins) \<longrightarrow> c_str (arrived ins) = arrived ins)"
  using echo_exchange [OF assms, of now now' ks] c_str_no_NUL [of "arrived ins"] by blast

lemma echo_roundtrip_witness:
  "\<exists>c1 ins' c2. onReadableEvent main_callbacks 5 [Data ''he'', Data ''llo''] sample_connection =
      Inr (c1, ins', [(LOG_DEBUG, ''hello'')]) \<and> onWritableEvent 6 [100] c1 = Inr (c2, ''hello'')"
  using echo_roundtrip [OF sample_connection_facts(1-3), of "[Data ''he'', Data ''llo'']" 100 5 6 "[]"]
  by (auto simp: sample_connection_facts c_str_def)

text \<open>The connection and disconnection callbacks are not optional: with one of them unset the corresponding event calls
  an empty function, which throws.\<close>

lemma unset_callbacks_throw:
  "(connectionCallback cbs = None \<longrightarrow> onConnection cbs c = Inl Bad_Function_Call) \<and>
   (disconnectionCallback cbs = None \<and> 0 < in_room c \<and> arrived ins = [] \<longrightarrow>
      onReadableEvent cbs now ins c = Inl Bad_Function_Call)"
  using onReadableEvent_nothing [of c ins cbs now]
  by (auto simp: onConnection_def onDisconnection_def invoke_def)

end
