(* ===== verification/Worker.thy ===== *)
theory Worker
  imports Connection Table_Map Config
begin

text \<open>
  Class \<open>Worker\<close> of \<open>src/worker.h\<close> and \<open>src/worker.cpp\<close>: the connection pool, the queue of incoming connections, one round
  of the loop of \<open>workFunction\<close>, and eviction. A connection is an object that several \<open>shared_ptr\<close>s can point to: the
  objects are the list \<open>heap\<close>, a \<open>shared_ptr\<close> is \<open>None\<close> (null) or \<open>Some\<close> of an address in it. Nothing is removed from
  \<open>heap\<close>; the destructor of a connection does nothing. \<open>interest\<close> is the set of descriptors registered with the epoll
  instance of the worker; \<open>logged\<close> and \<open>sent\<close> record what its connections have logged and what their sockets have taken. The hash function of the pool is a parameter.

  The environment of a round gives the events \<open>epoll_wait\<close> reports, with what the sockets do and the times the handlers
  read, the numbers \<open>random()\<close> returns, and whether the server has noted that memory is exceeded. A result \<open>None\<close> says that
  the list of random numbers was used up.
\<close>

section \<open>State\<close>

type_synonym conn_ptr = "nat option"

record worker =
  maxConnection :: "int option"
  incomingConnection :: "conn_ptr list"
  connectionPool :: "(64 word, conn_ptr) dict"
  heap :: "connection list"
  interest :: "int list"
  logged :: "log_line list"
  sent :: "(64 word \<times> string) list"

record event =
  ev_id :: "64 word"
  ev_flags :: "32 word"
  ev_read_time :: int
  ev_incoming :: "incoming list"
  ev_write_time :: int
  ev_accepts :: "nat list"

definition Worker_new :: worker where
  "Worker_new = \<lparr>maxConnection = None, incomingConnection = [], connectionPool = dict_new, heap = [], interest = [], logged = [],
     sent = []\<rparr>"

definition setMaxConnection :: "int \<Rightarrow> worker \<Rightarrow> worker" where
  "setMaxConnection n w = w\<lparr>maxConnection := Some n\<rparr>"

definition getConnectionNum :: "worker \<Rightarrow> int" where
  "getConnectionNum w = dict_size (connectionPool w)"

text \<open>The destructor empties the pool.\<close>

definition Worker_delete :: "worker \<Rightarrow> worker" where
  "Worker_delete w = w\<lparr>connectionPool := HashTable_clear (connectionPool w)\<rparr>"

text \<open>\<open>conn->\<close> and a call of a method through a pointer.\<close>

definition deref :: "conn_ptr \<Rightarrow> worker \<Rightarrow> connection res" where
  "deref p w = (case p of None \<Rightarrow> Inl Null_Deref | Some a \<Rightarrow> rd (heap w) (int a))"

definition store_conn :: "conn_ptr \<Rightarrow> connection \<Rightarrow> worker \<Rightarrow> worker" where
  "store_conn p c w = (case p of None \<Rightarrow> w | Some a \<Rightarrow> w\<lparr>heap := (heap w)[a := c]\<rparr>)"

section \<open>The pool and the queue\<close>

text \<open>\<open>registerNewConnection(conn)\<close>, called by the server; \<open>push_connection\<close> first makes the object.\<close>

definition enqueue_connection :: "conn_ptr \<Rightarrow> worker \<Rightarrow> worker" where
  "enqueue_connection p w = w\<lparr>incomingConnection := incomingConnection w @ [p]\<rparr>"

definition push_connection :: "connection \<Rightarrow> worker \<Rightarrow> worker" where
  "push_connection c w = enqueue_connection (Some (length (heap w))) (w\<lparr>heap := heap w @ [c]\<rparr>)"

definition epoll_add :: "int \<Rightarrow> worker \<Rightarrow> worker" where
  "epoll_add fd w = w\<lparr>interest := List.insert fd (interest w)\<rparr>"

definition epoll_del :: "int \<Rightarrow> worker \<Rightarrow> worker" where
  "epoll_del fd w = w\<lparr>interest := removeAll fd (interest w)\<rparr>"

definition removeConnection :: "(64 word \<Rightarrow> 64 word) \<Rightarrow> conn_ptr \<Rightarrow> worker \<Rightarrow> worker res" where
  "removeConnection hf p w =
     bind_res (deref p w) (\<lambda>c.
     bind_res (dict_erase hf (conn_id c) (connectionPool w)) (\<lambda>d.
       Inr ((epoll_del (connfd c) w)\<lparr>connectionPool := d\<rparr>)))"

fun register_loop :: "(64 word \<Rightarrow> 64 word) \<Rightarrow> callbacks \<Rightarrow> conn_ptr list \<Rightarrow> worker \<Rightarrow> worker res" where
  "register_loop hf cbs [] w = Inr w"
| "register_loop hf cbs (p # ps) w =
     bind_res (deref p w) (\<lambda>c0.
     bind_res (onConnection cbs c0) (\<lambda>(c, ls).
       let w1 = (store_conn p c w)\<lparr>logged := logged w @ ls\<rparr>; w2 = epoll_add (connfd c) w1
       in bind_res (dict_assign hf None (conn_id c) p (connectionPool w2)) (\<lambda>d.
            register_loop hf cbs ps (w2\<lparr>connectionPool := d\<rparr>))))"

lemma register_loop_Cons:
  "register_loop hf cbs (p # ps) w = bind_res (register_loop hf cbs [p] w) (register_loop hf cbs ps)"
  by (auto simp: bind_res_assoc Let_def intro!: arg_cong [where f = "bind_res m" for m] ext split: prod.split)

definition registerNewConnection :: "(64 word \<Rightarrow> 64 word) \<Rightarrow> callbacks \<Rightarrow> worker \<Rightarrow> worker res" where
  "registerNewConnection hf cbs w =
     register_loop hf cbs (incomingConnection w) (w\<lparr>incomingConnection := []\<rparr>)"

section \<open>Events\<close>

definition has_flag :: "32 word \<Rightarrow> 32 word \<Rightarrow> bool" where
  "has_flag fl f \<longleftrightarrow> fl AND f \<noteq> 0"

definition event_error :: "(64 word \<Rightarrow> 64 word) \<Rightarrow> event \<Rightarrow> conn_ptr \<Rightarrow> worker \<Rightarrow> worker res" where
  "event_error hf ev p w =
     (if has_flag (ev_flags ev) EPOLLERR \<or> has_flag (ev_flags ev) EPOLLHUP
      then bind_res (deref p w) (\<lambda>c. removeConnection hf p (epoll_del (connfd c) w))
      else Inr w)"

definition event_in :: "callbacks \<Rightarrow> event \<Rightarrow> conn_ptr \<Rightarrow> worker \<Rightarrow> worker res" where
  "event_in cbs ev p w =
     (if has_flag (ev_flags ev) EPOLLIN
      then bind_res (deref p w) (\<lambda>c.
           bind_res (onReadableEvent cbs (ev_read_time ev) (ev_incoming ev) c) (\<lambda>(c', _, ls).
             Inr ((store_conn p c' w)\<lparr>logged := logged w @ ls\<rparr>)))
      else Inr w)"

definition event_out :: "event \<Rightarrow> conn_ptr \<Rightarrow> worker \<Rightarrow> worker res" where
  "event_out ev p w =
     (if has_flag (ev_flags ev) EPOLLOUT
      then bind_res (deref p w) (\<lambda>c.
           bind_res (onWritableEvent (ev_write_time ev) (ev_accepts ev) c) (\<lambda>(c', out).
             Inr ((store_conn p c' w)\<lparr>sent := sent w @ [(conn_id c, out)]\<rparr>)))
      else Inr w)"

definition event_close :: "(64 word \<Rightarrow> 64 word) \<Rightarrow> conn_ptr \<Rightarrow> worker \<Rightarrow> worker res" where
  "event_close hf p w =
     bind_res (deref p w) (\<lambda>c. if conn_closed c then removeConnection hf p w else Inr w)"

text \<open>The body of the loop over the events.\<close>

definition handle_event :: "(64 word \<Rightarrow> 64 word) \<Rightarrow> callbacks \<Rightarrow> event \<Rightarrow> worker \<Rightarrow> worker res" where
  "handle_event hf cbs ev w0 =
     bind_res (dict_at hf None (ev_id ev) (connectionPool w0)) (\<lambda>(p, d).
     bind_res (event_error hf ev p (w0\<lparr>connectionPool := d\<rparr>)) (\<lambda>w1.
     bind_res (event_in cbs ev p w1) (\<lambda>w2.
     bind_res (event_out ev p w2) (\<lambda>w3.
       event_close hf p w3))))"

fun handle_events :: "(64 word \<Rightarrow> 64 word) \<Rightarrow> callbacks \<Rightarrow> event list \<Rightarrow> worker \<Rightarrow> worker res" where
  "handle_events hf cbs [] w = Inr w"
| "handle_events hf cbs (ev # evs) w = bind_res (handle_event hf cbs ev w) (handle_events hf cbs evs)"

section \<open>Eviction\<close>

definition bind_env :: "'a option res \<Rightarrow> ('a \<Rightarrow> 'b option res) \<Rightarrow> 'b option res" where
  "bind_env m f = bind_res m (\<lambda>r. case r of None \<Rightarrow> Inr None | Some x \<Rightarrow> f x)"

lemma bind_env_simps [simp]:
  "bind_env (Inl e) f = Inl e" "bind_env (Inr None) f = Inr None" "bind_env (Inr (Some x)) f = f x"
  by (simp_all add: bind_env_def)

text \<open>\<open>_connectionPool.getRandomValue()\<close>\<close>

definition random_conn :: "(64 word \<Rightarrow> 64 word) \<Rightarrow> 64 word list \<Rightarrow> worker \<Rightarrow>
    (conn_ptr \<times> 64 word list \<times> worker) option res" where
  "random_conn hf rs w =
     bind_env (getRandomValue hf rs (connectionPool w)) (\<lambda>(p, rs', d).
       Inr (Some (p, rs', w\<lparr>connectionPool := d\<rparr>)))"

definition NO_ID :: "64 word" where "NO_ID = 0xFFFFFFFFFFFFFFFF"

text \<open>The loop of \<open>evictRandomN\<close>, with \<open>k\<close> rounds left: \<open>None\<close> in the result is the early \<open>return\<close>.\<close>

fun evict_loop :: "(64 word \<Rightarrow> 64 word) \<Rightarrow> nat \<Rightarrow> int \<Rightarrow> 64 word \<Rightarrow> int \<Rightarrow> 64 word list \<Rightarrow> worker \<Rightarrow>
    ((64 word \<times> int) option \<times> 64 word list \<times> worker) option res" where
  "evict_loop hf 0 currentTime mostId mostTime rs w = Inr (Some (Some (mostId, mostTime), rs, w))"
| "evict_loop hf (Suc k) currentTime mostId mostTime rs w =
     (if dict_empty (connectionPool w) then Inr (Some (None, rs, w))
      else bind_env (random_conn hf rs w) (\<lambda>(p, rs1, w1).
           bind_res (deref p w1) (\<lambda>c.
           bind_res (if conn_closed c then removeConnection hf p w1 else Inr w1) (\<lambda>w2.
           bind_res (c_int (currentTime - lastActiveTime c)) (\<lambda>inactiveTime.
             if inactiveTime > mostTime
             then evict_loop hf k currentTime (conn_id c) inactiveTime rs1 w2
             else evict_loop hf k currentTime mostId mostTime rs1 w2)))))"

definition evictRandomN :: "(64 word \<Rightarrow> 64 word) \<Rightarrow> config \<Rightarrow> int \<Rightarrow> bool \<Rightarrow> int \<Rightarrow> 64 word list \<Rightarrow> worker \<Rightarrow>
    (64 word list \<times> worker) option res" where
  "evictRandomN hf cfg n force currentTime rs w =
     (if n \<le> 0 then Inr (Some (rs, w))
      else bind_env (evict_loop hf (nat n) currentTime NO_ID 0 rs w) (\<lambda>(most, rs1, w1). case most of
          None \<Rightarrow> Inr (Some (rs1, w1))
        | Some (mostId, mostTime) \<Rightarrow>
            if mostId = NO_ID then Inr (Some (rs1, w1))
            else bind_res (if force then Inr True
                    else bind_res (getInactiveTcpTimeOut cfg) (\<lambda>t. Inr (mostTime > t))) (\<lambda>go.
                 if go
                 then bind_res (dict_at hf None mostId (connectionPool w1)) (\<lambda>(p, d).
                      bind_res (removeConnection hf p (w1\<lparr>connectionPool := d\<rparr>)) (\<lambda>w2. Inr (Some (rs1, w2))))
                 else Inr (Some (rs1, w1)))))"

definition eviction :: "(64 word \<Rightarrow> 64 word) \<Rightarrow> config \<Rightarrow> int \<Rightarrow> 64 word list \<Rightarrow> worker \<Rightarrow>
    (64 word list \<times> worker) option res" where
  "eviction hf cfg currentTime rs w =
     bind_res (getMaxTcpEvictionRule cfg) (\<lambda>rule.
       if rule = MAX_TCP_EVICTION_NONE then Inr (Some (rs, w))
       else if rule = MAX_TCP_EVICTION_RANDOM
            then bind_env (random_conn hf rs w) (\<lambda>(p, rs1, w1).
                 bind_res (removeConnection hf p w1) (\<lambda>w2. Inr (Some (rs1, w2))))
       else if rule = MAX_TCP_EVICTION_INACTIVE
            then bind_res (getEvictionPoolSize cfg) (\<lambda>sz.
                 evictRandomN hf cfg (min (dict_size (connectionPool w)) sz) True currentTime rs w)
       else Inr (Some (rs, w)))"

definition manageInactiveConnection :: "(64 word \<Rightarrow> 64 word) \<Rightarrow> config \<Rightarrow> int \<Rightarrow> 64 word list \<Rightarrow> worker \<Rightarrow>
    (64 word list \<times> worker) option res" where
  "manageInactiveConnection hf cfg currentTime rs w =
     bind_res (getInactiveTcpEvictionRule cfg) (\<lambda>rule.
       if rule = INACTIVE_TCP_EVICTION_NONE then Inr (Some (rs, w))
       else bind_res (getEvictionPoolSize cfg) (\<lambda>sz. evictRandomN hf cfg sz False currentTime rs w))"

text \<open>One round of \<open>while(true)\<close>; \<open>t1\<close> and \<open>t2\<close> are the times the two evictions read.\<close>

definition work_round :: "(64 word \<Rightarrow> 64 word) \<Rightarrow> callbacks \<Rightarrow> config \<Rightarrow> event list \<Rightarrow> int \<Rightarrow> int \<Rightarrow> bool \<Rightarrow>
    64 word list \<Rightarrow> worker \<Rightarrow> worker option res" where
  "work_round hf cbs cfg evs t1 t2 exceed rs w0 =
     bind_res (handle_events hf cbs evs w0) (\<lambda>w1.
     bind_res (registerNewConnection hf cbs w1) (\<lambda>w2.
     bind_env (manageInactiveConnection hf cfg t1 rs w2) (\<lambda>(rs1, w3).
     bind_res (getMaxTcpConnectionPerWorker cfg) (\<lambda>mx.
       if dict_size (connectionPool w3) > mx \<or> exceed
       then bind_env (eviction hf cfg t2 rs1 w3) (\<lambda>(_, w4). Inr (Some w4))
       else Inr (Some w3)))))"

section \<open>The invariant of a worker\<close>

definition INT_time :: "int \<Rightarrow> bool" where "INT_time t \<longleftrightarrow> 0 \<le> t \<and> t \<le> INT_MAX"

definition pool_map :: "worker \<Rightarrow> 64 word \<rightharpoonup> conn_ptr" where
  "pool_map w = dict_map (connectionPool w)"

text \<open>Every pointer in the pool is the address of a connection with the id it is stored under. The connection is open,
  except that those in \<open>X\<close> may be closed: the one an event is being handled for.\<close>

definition pool_ok :: "nat set \<Rightarrow> worker \<Rightarrow> bool" where
  "pool_ok X w \<longleftrightarrow> (\<forall>k p. pool_map w k = Some p \<longrightarrow> (\<exists>a. p = Some a \<and> a < length (heap w) \<and>
     conn_id (heap w ! a) = k \<and> (conn_closed (heap w ! a) \<longrightarrow> a \<in> X)))"

text \<open>Every queued pointer is the address of an open connection whose id is neither in the pool nor queued twice.\<close>

definition queue_ok :: "nat set \<Rightarrow> worker \<Rightarrow> bool" where
  "queue_ok X w \<longleftrightarrow> (\<exists>as. incomingConnection w = map Some as \<and> (\<forall>a \<in> set as. a < length (heap w) \<and> a \<notin> X \<and>
      \<not> conn_closed (heap w ! a) \<and> pool_map w (conn_id (heap w ! a)) = None) \<and>
      distinct (map (\<lambda>a. conn_id (heap w ! a)) as))"

text \<open>No two connections ever made have the same id or descriptor (descriptors are never closed), and epoll watches exactly
  the descriptors of the connections in the pool.\<close>

definition watch_ok :: "worker \<Rightarrow> bool" where
  "watch_ok w \<longleftrightarrow> distinct (map conn_id (heap w)) \<and> distinct (map connfd (heap w)) \<and>
     set (interest w) = {connfd (heap w ! a) | a. a < length (heap w) \<and> pool_map w (conn_id (heap w ! a)) = Some (Some a)}"

definition worker_inv :: "(64 word \<Rightarrow> 64 word) \<Rightarrow> (connection \<Rightarrow> bool) \<Rightarrow> nat set \<Rightarrow> worker \<Rightarrow> bool" where
  "worker_inv hf G X w \<longleftrightarrow> dict_inv hf (connectionPool w) \<and>
     (\<forall>a < length (heap w). G (heap w ! a) \<and> INT_time (lastActiveTime (heap w ! a))) \<and> pool_ok X w \<and> queue_ok X w \<and>
     watch_ok w"

abbreviation worker_ok :: "(64 word \<Rightarrow> 64 word) \<Rightarrow> (connection \<Rightarrow> bool) \<Rightarrow> worker \<Rightarrow> bool" where
  "worker_ok hf G w \<equiv> worker_inv hf G {} w"

definition pool_room :: "worker \<Rightarrow> bool" where
  "pool_room w \<longleftrightarrow> card (dom (pool_map w)) + length (incomingConnection w) < 2 ^ 29"

text \<open>The connections of the queue, under their ids.\<close>

definition queued :: "worker \<Rightarrow> 64 word \<rightharpoonup> conn_ptr" where
  "queued w = map_of (map (\<lambda>p. (case p of Some a \<Rightarrow> conn_id (heap w ! a) | None \<Rightarrow> NO_ID, p)) (incomingConnection w))"

lemma queued_map: "incomingConnection w = map Some as \<Longrightarrow> queued w = map_of (map (\<lambda>a. (conn_id (heap w ! a), Some a)) as)"
  by (simp add: queued_def comp_def)

lemma deref_Some [simp]: "a < length (heap w) \<Longrightarrow> deref (Some a) w = Inr (heap w ! a)"
  by (simp add: deref_def rd_def)

lemma worker_invD:
  assumes "worker_inv hf G X w"
  shows "dict_inv hf (connectionPool w)" "pool_ok X w" "queue_ok X w"
    "\<And>a. a < length (heap w) \<Longrightarrow> G (heap w ! a)"
    "\<And>a. a < length (heap w) \<Longrightarrow> INT_time (lastActiveTime (heap w ! a))" "watch_ok w"
  using assms by (auto simp: worker_inv_def)

lemma watch_okD:
  assumes "watch_ok w" "a < length (heap w)" "b < length (heap w)"
  shows "conn_id (heap w ! a) = conn_id (heap w ! b) \<longleftrightarrow> a = b" "connfd (heap w ! a) = connfd (heap w ! b) \<longleftrightarrow> a = b"
    "connfd (heap w ! a) \<in> set (interest w) \<longleftrightarrow> pool_map w (conn_id (heap w ! a)) = Some (Some a)"
proof -
  have inj: "connfd (heap w ! x) = connfd (heap w ! y) \<longleftrightarrow> x = y" if "x < length (heap w)" "y < length (heap w)" for x y
    using assms(1) that nth_eq_iff_index_eq [of "map connfd (heap w)" x y] by (simp add: watch_ok_def)
  then show "connfd (heap w ! a) = connfd (heap w ! b) \<longleftrightarrow> a = b" using assms(2,3) .
  show "conn_id (heap w ! a) = conn_id (heap w ! b) \<longleftrightarrow> a = b"
    using assms nth_eq_iff_index_eq [of "map conn_id (heap w)" a b] by (simp add: watch_ok_def)
  show "connfd (heap w ! a) \<in> set (interest w) \<longleftrightarrow> pool_map w (conn_id (heap w ! a)) = Some (Some a)"
    using assms(1,2) inj by (auto simp: watch_ok_def)
qed

text \<open>The same connections, perhaps in another state.\<close>

definition same_conns :: "worker \<Rightarrow> worker \<Rightarrow> bool" where
  "same_conns w w' \<longleftrightarrow> map conn_id (heap w') = map conn_id (heap w) \<and> map connfd (heap w') = map connfd (heap w)"

lemma same_conns_simps [simp]: "same_conns w w"
  by (simp add: same_conns_def)

lemma same_conns_trans: "same_conns w w1 \<Longrightarrow> same_conns w1 w2 \<Longrightarrow> same_conns w w2"
  by (simp add: same_conns_def)

lemma same_connsD:
  assumes "same_conns w w'"
  shows "length (heap w') = length (heap w)"
    "a < length (heap w) \<Longrightarrow> conn_id (heap w' ! a) = conn_id (heap w ! a)"
    "a < length (heap w) \<Longrightarrow> connfd (heap w' ! a) = connfd (heap w ! a)"
proof -
  show l: "length (heap w') = length (heap w)" using assms map_eq_imp_length_eq unfolding same_conns_def by blast
  show "conn_id (heap w' ! a) = conn_id (heap w ! a)" "connfd (heap w' ! a) = connfd (heap w ! a)" if "a < length (heap w)"
    using assms that l unfolding same_conns_def by (metis nth_map)+
qed

lemma watch_ok_same:
  assumes "watch_ok w" "same_conns w w'" "pool_map w' = pool_map w" "interest w' = interest w"
  shows "watch_ok w'"
proof -
  note same = same_connsD [OF assms(2)]
  have "{connfd (heap w' ! a) | a. a < length (heap w') \<and> pool_map w (conn_id (heap w' ! a)) = Some (Some a)} =
      {connfd (heap w ! a) | a. a < length (heap w) \<and> pool_map w (conn_id (heap w ! a)) = Some (Some a)}"
    using same by (intro Collect_cong ex_cong1) auto
  then show ?thesis using assms(1,2) unfolding watch_ok_def assms(3,4) same_conns_def by simp
qed

lemma pool_okE:
  assumes "pool_ok X w" "pool_map w k = Some p"
  obtains a where "p = Some a" "a < length (heap w)" "conn_id (heap w ! a) = k" "conn_closed (heap w ! a) \<longrightarrow> a \<in> X"
  using assms unfolding pool_ok_def by metis

lemma queue_okD:
  assumes "queue_ok X w" "incomingConnection w = map Some as"
  shows "\<forall>a \<in> set as. a < length (heap w) \<and> a \<notin> X \<and> \<not> conn_closed (heap w ! a) \<and> pool_map w (conn_id (heap w ! a)) = None"
    "distinct (map (\<lambda>a. conn_id (heap w ! a)) as)"
proof -
  obtain bs where bs: "incomingConnection w = map Some bs" "\<forall>a \<in> set bs. a < length (heap w) \<and> a \<notin> X \<and>
      \<not> conn_closed (heap w ! a) \<and> pool_map w (conn_id (heap w ! a)) = None"
    "distinct (map (\<lambda>a. conn_id (heap w ! a)) bs)" using assms(1) unfolding queue_ok_def by blast
  then have "bs = as" using assms(2) inj_map_eq_map [OF inj_Some, of bs as] by simp
  with bs show "\<forall>a \<in> set as. a < length (heap w) \<and> a \<notin> X \<and> \<not> conn_closed (heap w ! a) \<and>
      pool_map w (conn_id (heap w ! a)) = None" "distinct (map (\<lambda>a. conn_id (heap w ! a)) as)" by simp_all
qed

text \<open>The components that do not matter to the invariant.\<close>

lemma worker_inv_other [simp]:
  "worker_inv hf G X (w\<lparr>logged := y\<rparr>) = worker_inv hf G X w" "worker_inv hf G X (w\<lparr>sent := u\<rparr>) = worker_inv hf G X w"
  "worker_inv hf G X (w\<lparr>maxConnection := z\<rparr>) = worker_inv hf G X w" "pool_map (w\<lparr>sent := u\<rparr>) = pool_map w"
  "pool_map (w\<lparr>interest := x\<rparr>) = pool_map w" "pool_map (w\<lparr>logged := y\<rparr>) = pool_map w"
  "pool_map (w\<lparr>heap := h\<rparr>) = pool_map w" "pool_map (w\<lparr>incomingConnection := q\<rparr>) = pool_map w"
  "pool_map (w\<lparr>connectionPool := d\<rparr>) = dict_map d"
  by (simp_all add: worker_inv_def pool_ok_def queue_ok_def pool_map_def watch_ok_def)

lemma epoll_other [simp]:
  "set (interest (epoll_add fd w)) = insert fd (set (interest w))" "set (interest (epoll_del fd w)) = set (interest w) - {fd}"
  "epoll_del fd (epoll_del fd w) = epoll_del fd w"
  "pool_map (epoll_add fd w) = pool_map w" "pool_map (epoll_del fd w) = pool_map w"
  "heap (epoll_add fd w) = heap w" "heap (epoll_del fd w) = heap w"
  "connectionPool (epoll_add fd w) = connectionPool w" "connectionPool (epoll_del fd w) = connectionPool w"
  "incomingConnection (epoll_add fd w) = incomingConnection w" "incomingConnection (epoll_del fd w) = incomingConnection w"
  "logged (epoll_add fd w) = logged w" "logged (epoll_del fd w) = logged w"
  "deref p (epoll_del fd w) = deref p w" "deref p (epoll_add fd w) = deref p w"
  by (simp_all add: epoll_add_def epoll_del_def deref_def split: option.split)

lemma store_conn_simps [simp]:
  "pool_map (store_conn p c w) = pool_map w" "connectionPool (store_conn p c w) = connectionPool w"
  "incomingConnection (store_conn p c w) = incomingConnection w" "length (heap (store_conn p c w)) = length (heap w)"
  "logged (store_conn p c w) = logged w" "interest (store_conn p c w) = interest w" "sent (store_conn p c w) = sent w"
  by (simp_all add: store_conn_def split: option.split)

text \<open>Another state of the pool with the same entries.\<close>

lemma worker_inv_pool:
  assumes "worker_inv hf G X w" "dict_inv hf d" "dict_map d = pool_map w"
  shows "worker_inv hf G X (w\<lparr>connectionPool := d\<rparr>)"
  using assms by (simp add: worker_inv_def pool_ok_def queue_ok_def watch_ok_def)

text \<open>Changing a connection, its id and descriptor kept.\<close>

lemma store_same_conns:
  "a < length (heap w) \<Longrightarrow> conn_id c = conn_id (heap w ! a) \<Longrightarrow> connfd c = connfd (heap w ! a) \<Longrightarrow>
   same_conns w (store_conn (Some a) c w)"
  by (simp add: same_conns_def store_conn_def map_update [symmetric] list_update_same_conv)
    (metis list_update_id map_update nth_map)

lemma worker_inv_store:
  assumes "worker_inv hf G X w" "a < length (heap w)" "G c" "INT_time (lastActiveTime c)" "conn_id c = conn_id (heap w ! a)"
    and "connfd c = connfd (heap w ! a)" "a \<in> X \<or> conn_closed c = conn_closed (heap w ! a)"
  shows "worker_inv hf G X (store_conn (Some a) c w)"
proof -
  let ?w = "w\<lparr>heap := (heap w)[a := c]\<rparr>"
  note ok = worker_invD [OF assms(1)]
  have same: "conn_id (heap ?w ! b) = conn_id (heap w ! b)" "b \<notin> X \<Longrightarrow> conn_closed (heap ?w ! b) = conn_closed (heap w ! b)"
    for b using assms(2,5,7) by (cases "b = a"; auto)+
  have "pool_ok X ?w" unfolding pool_ok_def
  proof (intro allI impI)
    fix k p assume "pool_map ?w k = Some p"
    then have "pool_map w k = Some p" by simp
    with ok(2) obtain b where "p = Some b" "b < length (heap w)" "conn_id (heap w ! b) = k"
      "conn_closed (heap w ! b) \<longrightarrow> b \<in> X" by (rule pool_okE)
    with same show "\<exists>b. p = Some b \<and> b < length (heap ?w) \<and> conn_id (heap ?w ! b) = k \<and>
        (conn_closed (heap ?w ! b) \<longrightarrow> b \<in> X)"
      by auto
  qed
  moreover have "queue_ok X ?w"
  proof -
    from ok(3) obtain as where "incomingConnection w = map Some as" "\<forall>b \<in> set as. b < length (heap w) \<and> b \<notin> X \<and>
      \<not> conn_closed (heap w ! b) \<and> pool_map w (conn_id (heap w ! b)) = None"
      "distinct (map (\<lambda>b. conn_id (heap w ! b)) as)" by (auto simp: queue_ok_def)
    with same show ?thesis unfolding queue_ok_def by (intro exI [of _ as]) simp
  qed
  moreover have "watch_ok ?w"
    using watch_ok_same [OF ok(6) store_same_conns [OF assms(2,5,6)]] by (simp add: store_conn_def)
  ultimately show ?thesis using assms(1-4) by (auto simp: worker_inv_def store_conn_def nth_list_update)
qed

lemma removeConnection_spec:
  assumes ok: "worker_inv hf G X w" and a: "a < length (heap w)"
  shows "\<exists>w'. removeConnection hf (Some a) w = Inr w' \<and> worker_inv hf G X w' \<and>
    pool_map w' = (pool_map w)(conn_id (heap w ! a) := None) \<and> heap w' = heap w \<and>
    incomingConnection w' = incomingConnection w"
proof -
  obtain d where d: "dict_erase hf (conn_id (heap w ! a)) (connectionPool w) = Inr d" "dict_inv hf d"
    "dict_map d = (pool_map w)(conn_id (heap w ! a) := None)"
    using pool.erase_law [OF worker_invD(1) [OF ok]] unfolding pool_map_def by blast
  let ?w = "(epoll_del (connfd (heap w ! a)) w)\<lparr>connectionPool := d\<rparr>"
  note inv = worker_invD [OF ok]
  have "pool_ok X ?w" using inv(2) d(3) by (simp add: pool_ok_def)
  moreover have "queue_ok X ?w" using inv(3) d(3) by (auto simp: queue_ok_def)
  moreover have "watch_ok ?w"
    using inv(6) watch_okD [OF inv(6) _ a] d(3) by (auto simp: watch_ok_def)
  ultimately have "worker_inv hf G X ?w" using ok d(2) by (simp add: worker_inv_def)
  then show ?thesis using a d by (simp add: removeConnection_def)
qed

lemma pool_at:
  assumes ok: "worker_inv hf G X w" and room: "card (dom (pool_map w)) < 2 ^ 29" and p: "pool_map w k = Some p"
  obtains d where "dict_at hf None k (connectionPool w) = Inr (p, d)" "worker_inv hf G X (w\<lparr>connectionPool := d\<rparr>)"
    "dict_map d = pool_map w"
proof -
  obtain d where d: "dict_at hf None k (connectionPool w) = Inr (p, d)" "dict_inv hf d" "dict_map d = pool_map w"
    using pool.at_present [OF worker_invD(1) [OF ok], of k p None] room p unfolding pool_map_def by auto
  then show thesis using worker_inv_pool [OF ok d(2,3)] that by simp
qed

text \<open>The exception made for one connection, and its end.\<close>

lemma worker_inv_open:
  assumes ok: "worker_inv hf G {} w" and a: "pool_map w k = Some (Some a)"
  shows "worker_inv hf G {a} w"
proof -
  note d = worker_invD [OF ok]
  from pool_okE [OF d(2) a] have id: "conn_id (heap w ! a) = k" by auto
  have "pool_ok {a} w" using d(2) by (auto simp: pool_ok_def)
  moreover have "queue_ok {a} w"
  proof -
    from d(3) obtain as where as: "incomingConnection w = map Some as" "\<forall>b \<in> set as. b < length (heap w) \<and>
      \<not> conn_closed (heap w ! b) \<and> pool_map w (conn_id (heap w ! b)) = None"
      "distinct (map (\<lambda>b. conn_id (heap w ! b)) as)" by (auto simp: queue_ok_def)
    then have "a \<notin> set as" using a id by auto
    with as show ?thesis unfolding queue_ok_def by (intro exI [of _ as]) auto
  qed
  ultimately show ?thesis using ok by (simp add: worker_inv_def)
qed

lemma worker_inv_close:
  assumes ok: "worker_inv hf G {a} w" and a: "conn_closed (heap w ! a) \<Longrightarrow> pool_map w (conn_id (heap w ! a)) = None"
  shows "worker_inv hf G {} w"
proof -
  note d = worker_invD [OF ok]
  have "pool_ok {} w" unfolding pool_ok_def
  proof (intro allI impI)
    fix k p assume k: "pool_map w k = Some p"
    with d(2) obtain b where b: "p = Some b" "b < length (heap w)" "conn_id (heap w ! b) = k"
      "conn_closed (heap w ! b) \<longrightarrow> b \<in> {a}" by (rule pool_okE)
    have "\<not> conn_closed (heap w ! b)" using b(3,4) a k by auto
    with b show "\<exists>b. p = Some b \<and> b < length (heap w) \<and> conn_id (heap w ! b) = k \<and> (conn_closed (heap w ! b) \<longrightarrow> b \<in> {})"
      by auto
  qed
  moreover have "queue_ok {} w" using d(3) by (auto simp: queue_ok_def)
  ultimately show ?thesis using ok by (simp add: worker_inv_def)
qed

text \<open>What handling an event of connection \<open>a\<close> leaves as it was.\<close>

definition step_keeps :: "nat \<Rightarrow> worker \<Rightarrow> worker \<Rightarrow> bool" where
  "step_keeps a w w' \<longleftrightarrow> same_conns w w' \<and> incomingConnection w' = incomingConnection w \<and>
     (pool_map w' = pool_map w \<or> pool_map w' = (pool_map w)(conn_id (heap w ! a) := None))"

lemma step_keeps_trans: "a < length (heap w) \<Longrightarrow> step_keeps a w w1 \<Longrightarrow> step_keeps a w1 w2 \<Longrightarrow> step_keeps a w w2"
  by (auto simp: step_keeps_def intro: same_conns_trans dest: same_connsD(2))

lemma step_keeps_length: "step_keeps a w w' \<Longrightarrow> length (heap w') = length (heap w)"
  by (auto simp: step_keeps_def dest: same_connsD(1))

section \<open>What the event handlers promise\<close>

text \<open>The contract between the worker and the handlers of its connections: from a good connection a handler returns with a
  good connection of the same id and descriptor; only a readable event can close it.\<close>

locale event_contract =
  fixes cbs :: callbacks and G :: "connection \<Rightarrow> bool"
  assumes readable: "G c \<Longrightarrow> \<exists>c' ins' ls. onReadableEvent cbs t ins c = Inr (c', ins', ls) \<and> G c' \<and>
      conn_id c' = conn_id c \<and> connfd c' = connfd c \<and> lastActiveTime c' = t"
    and writable: "G c \<Longrightarrow> \<exists>c' out. onWritableEvent t ks c = Inr (c', out) \<and> G c' \<and>
      conn_id c' = conn_id c \<and> connfd c' = connfd c \<and> conn_closed c' = conn_closed c \<and> lastActiveTime c' \<in> {t, lastActiveTime c}"
    and connected: "G c \<Longrightarrow> \<exists>c' ls. onConnection cbs c = Inr (c', ls) \<and> G c' \<and>
      conn_id c' = conn_id c \<and> connfd c' = connfd c \<and> conn_closed c' = conn_closed c \<and> lastActiveTime c' = lastActiveTime c"
begin

lemma event_error_ok:
  assumes "worker_inv hf G {a} w" "a < length (heap w)"
  shows "\<exists>w'. event_error hf ev (Some a) w = Inr w' \<and> worker_inv hf G {a} w' \<and> step_keeps a w w'"
proof -
  have "removeConnection hf (Some a) (epoll_del (connfd (heap w ! a)) w) = removeConnection hf (Some a) w"
    using assms(2) by (simp add: removeConnection_def)
  then show ?thesis using removeConnection_spec [OF assms] assms
    by (auto simp: event_error_def step_keeps_def same_conns_def)
qed

lemma event_in_ok:
  assumes ok: "worker_inv hf G {a} w" and a: "a < length (heap w)" and t: "INT_time (ev_read_time ev)"
  shows "\<exists>w'. event_in cbs ev (Some a) w = Inr w' \<and> worker_inv hf G {a} w' \<and> step_keeps a w w'"
proof (cases "has_flag (ev_flags ev) EPOLLIN")
  case False
  then show ?thesis using ok by (simp add: event_in_def step_keeps_def)
next
  case True
  obtain c' ins' ls where c': "onReadableEvent cbs (ev_read_time ev) (ev_incoming ev) (heap w ! a) = Inr (c', ins', ls)"
    "G c'" "conn_id c' = conn_id (heap w ! a)" "connfd c' = connfd (heap w ! a)" "lastActiveTime c' = ev_read_time ev"
    using readable [OF worker_invD(4) [OF ok a]] by blast
  then have "worker_inv hf G {a} (store_conn (Some a) c' w)" using ok a t by (intro worker_inv_store) simp_all
  moreover have "same_conns w (store_conn (Some a) c' w)" using a c' by (intro store_same_conns) simp_all
  ultimately show ?thesis using True a c' by (simp add: event_in_def step_keeps_def same_conns_def)
qed

lemma event_out_ok:
  assumes ok: "worker_inv hf G {a} w" and a: "a < length (heap w)" and t: "INT_time (ev_write_time ev)"
  shows "\<exists>w'. event_out ev (Some a) w = Inr w' \<and> worker_inv hf G {a} w' \<and> step_keeps a w w'"
proof (cases "has_flag (ev_flags ev) EPOLLOUT")
  case False
  then show ?thesis using ok by (simp add: event_out_def step_keeps_def)
next
  case True
  obtain c' out where c': "onWritableEvent (ev_write_time ev) (ev_accepts ev) (heap w ! a) = Inr (c', out)"
    "G c'" "conn_id c' = conn_id (heap w ! a)" "connfd c' = connfd (heap w ! a)" "conn_closed c' = conn_closed (heap w ! a)"
    "lastActiveTime c' \<in> {ev_write_time ev, lastActiveTime (heap w ! a)}"
    using writable [OF worker_invD(4) [OF ok a]] by blast
  then have "worker_inv hf G {a} (store_conn (Some a) c' w)"
    using ok a t worker_invD(5) [OF ok a] by (intro worker_inv_store) auto
  moreover have "same_conns w (store_conn (Some a) c' w)" using a c' by (intro store_same_conns) simp_all
  ultimately show ?thesis using True a c' by (simp add: event_out_def step_keeps_def same_conns_def)
qed

lemma event_close_ok:
  assumes ok: "worker_inv hf G {a} w" and a: "a < length (heap w)"
  shows "\<exists>w'. event_close hf (Some a) w = Inr w' \<and> worker_inv hf G {} w' \<and> step_keeps a w w' \<and>
    (conn_closed (heap w ! a) \<longrightarrow> pool_map w' (conn_id (heap w ! a)) = None)"
proof (cases "conn_closed (heap w ! a)")
  case False
  then show ?thesis using ok a by (auto simp: event_close_def step_keeps_def intro: worker_inv_close)
next
  case True
  obtain w' where w': "removeConnection hf (Some a) w = Inr w'" "worker_inv hf G {a} w'"
    "pool_map w' = (pool_map w)(conn_id (heap w ! a) := None)" "heap w' = heap w"
    "incomingConnection w' = incomingConnection w" using removeConnection_spec [OF ok a] by blast
  then have "worker_inv hf G {} w'" by (intro worker_inv_close [OF w'(2)]) simp
  then show ?thesis using True a w' by (simp add: event_close_def step_keeps_def same_conns_def)
qed

lemma handle_event_ok:
  assumes ok: "worker_ok hf G w" and room: "card (dom (pool_map w)) < 2 ^ 29" and known: "ev_id ev \<in> dom (pool_map w)"
    and t: "INT_time (ev_read_time ev)" "INT_time (ev_write_time ev)"
  shows "\<exists>w'. handle_event hf cbs ev w = Inr w' \<and> worker_ok hf G w' \<and> incomingConnection w' = incomingConnection w \<and>
    same_conns w w' \<and> (pool_map w' = pool_map w \<or> pool_map w' = (pool_map w)(ev_id ev := None))"
proof -
  from known obtain p where p: "pool_map w (ev_id ev) = Some p" by auto
  with worker_invD(2) [OF ok] obtain a where a: "p = Some a" "a < length (heap w)" "conn_id (heap w ! a) = ev_id ev"
    by (rule pool_okE)
  obtain d where d: "dict_at hf None (ev_id ev) (connectionPool w) = Inr (Some a, d)"
    "worker_ok hf G (w\<lparr>connectionPool := d\<rparr>)" "dict_map d = pool_map w"
    using pool_at [OF ok room p] a(1) by metis
  let ?w = "w\<lparr>connectionPool := d\<rparr>"
  have inv0: "worker_inv hf G {a} ?w" using d(2,3) p a(1) by (intro worker_inv_open) simp_all
  obtain w1 where w1: "event_error hf ev (Some a) ?w = Inr w1" "worker_inv hf G {a} w1" "step_keeps a ?w w1"
    using event_error_ok [OF inv0] a(2) by auto
  from step_keeps_length [OF this(3)] have a1: "a < length (heap w1)" using a(2) by simp
  obtain w2 where w2: "event_in cbs ev (Some a) w1 = Inr w2" "worker_inv hf G {a} w2" "step_keeps a w1 w2"
    using event_in_ok [OF w1(2) a1 t(1)] by blast
  from step_keeps_length [OF this(3)] have a2: "a < length (heap w2)" using a1 by simp
  obtain w3 where w3: "event_out ev (Some a) w2 = Inr w3" "worker_inv hf G {a} w3" "step_keeps a w2 w3"
    using event_out_ok [OF w2(2) a2 t(2)] by blast
  from step_keeps_length [OF this(3)] have a3: "a < length (heap w3)" using a2 by simp
  obtain w4 where w4: "event_close hf (Some a) w3 = Inr w4" "worker_ok hf G w4" "step_keeps a w3 w4"
    using event_close_ok [OF w3(2) a3] by blast
  have a0: "a < length (heap ?w)" using a(2) by simp
  have "step_keeps a ?w w4"
    using step_keeps_trans [OF a0 w1(3) step_keeps_trans [OF a1 w2(3) step_keeps_trans [OF a2 w3(3) w4(3)]]] .
  then have "same_conns w w4" "incomingConnection w4 = incomingConnection w"
    "pool_map w4 = pool_map w \<or> pool_map w4 = (pool_map w)(ev_id ev := None)"
    using d(3) a(3) by (auto simp: step_keeps_def same_conns_def)
  then show ?thesis using d(1) w1(1) w2(1) w3(1) w4(1,2) by (simp add: handle_event_def)
qed

lemma handle_events_ok:
  "worker_ok hf G w \<Longrightarrow> card (dom (pool_map w)) < 2 ^ 29 \<Longrightarrow> distinct (map ev_id evs) \<Longrightarrow>
   \<forall>ev \<in> set evs. ev_id ev \<in> dom (pool_map w) \<and> INT_time (ev_read_time ev) \<and> INT_time (ev_write_time ev) \<Longrightarrow>
   \<exists>w'. handle_events hf cbs evs w = Inr w' \<and> worker_ok hf G w' \<and> incomingConnection w' = incomingConnection w \<and>
     same_conns w w' \<and> pool_map w' \<subseteq>\<^sub>m pool_map w \<and> dom (pool_map w) - set (map ev_id evs) \<subseteq> dom (pool_map w')"
proof (induction evs arbitrary: w)
  case (Cons ev evs)
  obtain w1 where w1: "handle_event hf cbs ev w = Inr w1" "worker_ok hf G w1"
    "incomingConnection w1 = incomingConnection w"
    "pool_map w1 = pool_map w \<or> pool_map w1 = (pool_map w)(ev_id ev := None)" "same_conns w w1"
    using handle_event_ok [OF Cons.prems(1,2), of ev] Cons.prems(4) by auto
  have sub: "pool_map w1 \<subseteq>\<^sub>m pool_map w" "dom (pool_map w) - {ev_id ev} \<subseteq> dom (pool_map w1)"
    using w1(4) by (auto simp: map_le_def split: if_splits)
  have "finite (dom (pool_map w))" by (simp add: pool_map_def dict_finite)
  then have "card (dom (pool_map w1)) \<le> card (dom (pool_map w))"
    using sub(1) by (intro card_mono) (simp_all add: map_le_implies_dom_le)
  then have "card (dom (pool_map w1)) < 2 ^ 29" using Cons.prems(2) by simp
  moreover have "\<forall>e \<in> set evs. ev_id e \<in> dom (pool_map w1) \<and> INT_time (ev_read_time e) \<and> INT_time (ev_write_time e)"
  proof
    fix e assume "e \<in> set evs"
    then have "ev_id e \<in> set (map ev_id evs)" by simp
    then have "ev_id e \<noteq> ev_id ev" using Cons.prems(3) by auto
    with \<open>e \<in> set evs\<close> have "ev_id e \<in> dom (pool_map w) - {ev_id ev}" "INT_time (ev_read_time e) \<and> INT_time (ev_write_time e)"
      using Cons.prems(4) by auto
    with sub(2) show "ev_id e \<in> dom (pool_map w1) \<and> INT_time (ev_read_time e) \<and> INT_time (ev_write_time e)" by blast
  qed
  ultimately obtain w' where "handle_events hf cbs evs w1 = Inr w'" "worker_ok hf G w'"
    "incomingConnection w' = incomingConnection w1" "pool_map w' \<subseteq>\<^sub>m pool_map w1"
    "dom (pool_map w1) - set (map ev_id evs) \<subseteq> dom (pool_map w')" "same_conns w1 w'"
    using Cons.IH [OF w1(2)] Cons.prems(3) by auto
  moreover from this(6) have "same_conns w w'" using w1(5) same_conns_trans by blast
  ultimately show ?case using w1(1,3) sub map_le_trans by fastforce
qed simp

text \<open>Registering the first of the queued connections.\<close>

lemma register_one_ok:
  assumes ok: "worker_ok hf G (w\<lparr>incomingConnection := map Some (a # as)\<rparr>)" and room: "card (dom (pool_map w)) < 2 ^ 29"
  shows "\<exists>w'. register_loop hf cbs [Some a] w = Inr w' \<and> worker_ok hf G (w'\<lparr>incomingConnection := map Some as\<rparr>) \<and>
    incomingConnection w' = incomingConnection w \<and> same_conns w w' \<and>
    pool_map w (conn_id (heap w ! a)) = None \<and> pool_map w' = (pool_map w)(conn_id (heap w ! a) \<mapsto> Some a)"
proof -
  let ?q = "w\<lparr>incomingConnection := map Some (a # as)\<rparr>"
  note d = worker_invD [OF ok]
  have q: "\<forall>b \<in> set (a # as). b < length (heap w) \<and> \<not> conn_closed (heap w ! b) \<and>
      pool_map w (conn_id (heap w ! b)) = None" "distinct (map (\<lambda>b. conn_id (heap w ! b)) (a # as))"
    using queue_okD [OF d(3), of "a # as"] by simp_all
  then have a: "a < length (heap w)" "\<not> conn_closed (heap w ! a)" "pool_map w (conn_id (heap w ! a)) = None" by simp_all
  obtain c ls where c: "onConnection cbs (heap w ! a) = Inr (c, ls)" "G c" "conn_id c = conn_id (heap w ! a)"
    "conn_closed c = conn_closed (heap w ! a)" "lastActiveTime c = lastActiveTime (heap w ! a)"
    "connfd c = connfd (heap w ! a)"
    using connected [of "heap w ! a"] d(4) [of a] a(1) by auto
  let ?k = "conn_id (heap w ! a)"
  let ?w2 = "epoll_add (connfd c) ((store_conn (Some a) c w)\<lparr>logged := logged w @ ls\<rparr>)"
  obtain dd where dd: "dict_assign hf None ?k (Some a) (connectionPool w) = Inr dd" "dict_inv hf dd"
    "dict_map dd = (pool_map w)(?k \<mapsto> Some a)"
    using pool.assign_law [where hf = hf and s = "connectionPool w" and k = ?k and v = "Some a" and dflt = None] d(1) room unfolding pool_map_def by auto
  let ?w3 = "?w2\<lparr>connectionPool := dd\<rparr>"
  have h3: "heap ?w3 = (heap w)[a := c]" by (simp add: store_conn_def)
  have ids: "conn_id (heap ?w3 ! b) = conn_id (heap w ! b)" "conn_closed (heap ?w3 ! b) = conn_closed (heap w ! b)" for b
    unfolding h3 using a(1) c(3,4) by (cases "b = a"; simp)+
  have same: "same_conns w ?w3"
    using store_same_conns [OF a(1) c(3,6)] by (simp add: same_conns_def)
  have watch: "watch_ok ?w3"
  proof -
    have w: "watch_ok w" using d(6) by (simp add: watch_ok_def)
    have "set (interest ?w3) = insert (connfd (heap w ! a)) (set (interest w))" using c(6) by simp
    also have "\<dots> = {connfd (heap w ! b) | b. b < length (heap w) \<and> pool_map ?w3 (conn_id (heap w ! b)) = Some (Some b)}"
      using w watch_okD(1) [OF w _ a(1)] a(1,3) dd(3) by (auto simp: watch_ok_def)
    also have "\<dots> = {connfd (heap ?w3 ! b) | b. b < length (heap ?w3) \<and> pool_map ?w3 (conn_id (heap ?w3 ! b)) = Some (Some b)}"
      using same_connsD [OF same] by (intro Collect_cong ex_cong1) auto
    finally show ?thesis using w same unfolding watch_ok_def same_conns_def by simp
  qed
  have "worker_ok hf G (?w3\<lparr>incomingConnection := map Some as\<rparr>)" (is "worker_ok hf G ?v")
  proof -
    have p: "pool_map ?v = (pool_map w)(?k \<mapsto> Some a)" using dd(3) by simp
    have "pool_ok {} ?v" unfolding pool_ok_def
    proof (intro allI impI)
      fix k x assume "pool_map ?v k = Some x"
      then have "k = ?k \<and> x = Some a \<or> k \<noteq> ?k \<and> pool_map ?q k = Some x" unfolding p by (auto split: if_splits)
      then show "\<exists>b. x = Some b \<and> b < length (heap ?v) \<and> conn_id (heap ?v ! b) = k \<and>
          (conn_closed (heap ?v ! b) \<longrightarrow> b \<in> {})"
      proof (elim disjE conjE)
        assume "k = ?k" "x = Some a"
        then show ?thesis using a ids h3 by simp
      next
        assume "pool_map ?q k = Some x"
        with d(2) obtain b where "x = Some b" "b < length (heap w)" "conn_id (heap w ! b) = k"
          "\<not> conn_closed (heap w ! b)" by (auto elim: pool_okE)
        then show ?thesis using ids h3 by simp
      qed
    qed
    moreover have "queue_ok {} ?v"
    proof -
      have "conn_id (heap w ! b) \<noteq> ?k" if "b \<in> set as" for b
      proof -
        have "conn_id (heap w ! b) \<in> set (map (\<lambda>b. conn_id (heap w ! b)) as)" using that by simp
        then show ?thesis using q(2) by auto
      qed
      then show ?thesis unfolding queue_ok_def using q ids h3 p by (intro exI [of _ as]) auto
    qed
    moreover have "\<forall>b < length (heap ?v). G (heap ?v ! b) \<and> INT_time (lastActiveTime (heap ?v ! b))"
      using d(4,5) a(1) c(2,5) h3 by (auto simp: nth_list_update)
    moreover have "watch_ok ?v" using watch by (simp add: watch_ok_def)
    ultimately show ?thesis using dd(2) by (simp add: worker_inv_def)
  qed
  moreover have "register_loop hf cbs [Some a] w = Inr ?w3" using a(1) c(1,3) dd(1) by (simp add: Let_def)
  moreover have "incomingConnection ?w3 = incomingConnection w" by simp
  moreover have "pool_map ?w3 = (pool_map w)(?k \<mapsto> Some a)" using dd(3) by simp
  ultimately show ?thesis using same a(3) by blast
qed

lemma register_loop_ok:
  "worker_ok hf G (w\<lparr>incomingConnection := map Some as\<rparr>) \<Longrightarrow> incomingConnection w = [] \<Longrightarrow>
   card (dom (pool_map w)) + length as < 2 ^ 29 \<Longrightarrow>
   \<exists>w'. register_loop hf cbs (map Some as) w = Inr w' \<and> worker_ok hf G w' \<and> incomingConnection w' = [] \<and>
     same_conns w w' \<and> pool_map w' = pool_map w ++ map_of (map (\<lambda>a. (conn_id (heap w ! a), Some a)) as)"
proof (induction as arbitrary: w)
  case Nil
  then have "w\<lparr>incomingConnection := []\<rparr> = w" by simp
  with Nil show ?case by simp
next
  case (Cons a as)
  let ?k = "conn_id (heap w ! a)"
  have q: "\<forall>b \<in> set (a # as). b < length (heap w)" "distinct (map (\<lambda>b. conn_id (heap w ! b)) (a # as))"
    using queue_okD [OF worker_invD(3) [OF Cons.prems(1)], of "a # as"] by simp_all
  have "card (dom (pool_map w)) < 2 ^ 29" using Cons.prems(3) by simp
  from register_one_ok [OF Cons.prems(1) this] obtain w3 where w3: "register_loop hf cbs [Some a] w = Inr w3"
    "worker_ok hf G (w3\<lparr>incomingConnection := map Some as\<rparr>)" "incomingConnection w3 = []" "same_conns w w3"
    "pool_map w3 = (pool_map w)(?k \<mapsto> Some a)" using Cons.prems(2) by auto
  have "card (dom (pool_map w3)) + length as < 2 ^ 29"
  proof -
    have "finite (dom (pool_map w))" by (simp add: pool_map_def dict_finite)
    then show ?thesis using Cons.prems(3) w3(5) by (simp add: card_insert_if split: if_splits)
  qed
  with Cons.IH [OF w3(2,3)] obtain w' where w': "register_loop hf cbs (map Some as) w3 = Inr w'" "worker_ok hf G w'"
    "incomingConnection w' = []" "same_conns w3 w'"
    "pool_map w' = pool_map w3 ++ map_of (map (\<lambda>b. (conn_id (heap w3 ! b), Some b)) as)" by blast
  have "map (\<lambda>b. (conn_id (heap w3 ! b), Some b)) as = map (\<lambda>b. (conn_id (heap w ! b), Some b)) as"
    using same_connsD(2) [OF w3(4)] q(1) by simp
  then have "pool_map w' = (pool_map w)(?k \<mapsto> Some a) ++ map_of (map (\<lambda>b. (conn_id (heap w ! b), Some b)) as)"
    using w'(5) w3(5) by (simp only:)
  moreover have "?k \<notin> dom (map_of (map (\<lambda>b. (conn_id (heap w ! b), Some b)) as))"
    using q(2) by (auto simp: dom_map_of_conv_image_fst)
  ultimately have "pool_map w' = pool_map w ++ map_of (map (\<lambda>b. (conn_id (heap w ! b), Some b)) (a # as))"
    by (simp add: map_add_upd_left)
  moreover have "register_loop hf cbs (map Some (a # as)) w = Inr w'"
    using w3(1) w'(1) register_loop_Cons [of hf cbs "Some a" "map Some as" w] by simp
  ultimately show ?case using w'(2,3) same_conns_trans [OF w3(4) w'(4)] by blast
qed

lemma registerNewConnection_ok:
  assumes ok: "worker_ok hf G w" and room: "pool_room w"
  shows "\<exists>w'. registerNewConnection hf cbs w = Inr w' \<and> worker_ok hf G w' \<and> incomingConnection w' = [] \<and> same_conns w w' \<and>
    dom (pool_map w) \<subseteq> dom (pool_map w') \<and> card (dom (pool_map w')) \<le> card (dom (pool_map w)) + length (incomingConnection w) \<and>
    (\<forall>a. Some a \<in> set (incomingConnection w) \<longrightarrow> pool_map w' (conn_id (heap w ! a)) = Some (Some a)) \<and>
    pool_map w' = pool_map w ++ queued w"
proof -
  from worker_invD(3) [OF ok] obtain as where as: "incomingConnection w = map Some as" by (auto simp: queue_ok_def)
  let ?w = "w\<lparr>incomingConnection := []\<rparr>"
  have "?w\<lparr>incomingConnection := map Some as\<rparr> = w" using as by (cases w) simp
  then have "worker_ok hf G (?w\<lparr>incomingConnection := map Some as\<rparr>)" using ok by simp
  from register_loop_ok [OF this] room as obtain w' where w': "register_loop hf cbs (map Some as) ?w = Inr w'"
    "worker_ok hf G w'" "incomingConnection w' = []"
    "pool_map w' = pool_map w ++ map_of (map (\<lambda>a. (conn_id (heap w ! a), Some a)) as)" "same_conns w w'"
    by (auto simp: pool_room_def same_conns_def)
  let ?m = "map_of (map (\<lambda>a. (conn_id (heap w ! a), Some a)) as)"
  have "dom ?m = (\<lambda>a. conn_id (heap w ! a)) ` set as" by (auto simp: dom_map_of_conv_image_fst image_image)
  then have "card (dom ?m) \<le> length as" by (metis card_image_le List.finite_set card_length le_trans)
  moreover have "dom (pool_map w') = dom (pool_map w) \<union> dom ?m" using w'(4) by auto
  ultimately have "card (dom (pool_map w')) \<le> card (dom (pool_map w)) + length (incomingConnection w)"
    using card_Un_le [of "dom (pool_map w)" "dom ?m"] as by simp
  moreover have "\<forall>a. Some a \<in> set (incomingConnection w) \<longrightarrow> pool_map w' (conn_id (heap w ! a)) = Some (Some a)"
  proof (intro allI impI)
    fix a assume "Some a \<in> set (incomingConnection w)"
    then have "(conn_id (heap w ! a), Some a) \<in> set (map (\<lambda>a. (conn_id (heap w ! a), Some a)) as)" using as by auto
    moreover have "distinct (map fst (map (\<lambda>a. (conn_id (heap w ! a), Some a)) as))"
      using queue_okD(2) [OF worker_invD(3) [OF ok] as] by (simp add: comp_def)
    ultimately have "?m (conn_id (heap w ! a)) = Some (Some a)" by (rule map_of_is_SomeI [rotated])
    then show "pool_map w' (conn_id (heap w ! a)) = Some (Some a)" unfolding w'(4) by simp
  qed
  moreover have "pool_map w' = pool_map w ++ queued w" using w'(4) queued_map [OF as] by simp
  ultimately show ?thesis using w' as \<open>dom (pool_map w') = _\<close> by (simp add: registerNewConnection_def)
qed

end

section \<open>Eviction keeps the invariant\<close>

lemma random_conn_ok:
  assumes ok: "worker_ok hf G w" and ne: "pool_map w \<noteq> Map.empty"
  shows "random_conn hf rs w = Inr None \<or> (\<exists>a rs' w'. random_conn hf rs w = Inr (Some (Some a, rs', w')) \<and>
    worker_ok hf G w' \<and> pool_map w' = pool_map w \<and> heap w' = heap w \<and> incomingConnection w' = incomingConnection w \<and>
    a < length (heap w) \<and> pool_map w (conn_id (heap w ! a)) = Some (Some a) \<and> \<not> conn_closed (heap w ! a))"
proof -
  note d = worker_invD [OF ok]
  have "dict_map (connectionPool w) \<noteq> Map.empty" using ne by (simp add: pool_map_def)
  with pool.random_law [OF d(1), of rs] consider "getRandomValue hf rs (connectionPool w) = Inr None"
    | p rs' dd where "getRandomValue hf rs (connectionPool w) = Inr (Some (p, rs', dd))" "dict_inv hf dd"
      "dict_map dd = dict_map (connectionPool w)" "p \<in> ran (dict_map (connectionPool w))" by auto
  then show ?thesis
  proof cases
    case 1
    then show ?thesis by (simp add: random_conn_def)
  next
    case (2 p rs' dd)
    from 2(4) obtain k where k: "pool_map w k = Some p" by (auto simp: ran_def pool_map_def)
    with d(2) obtain a where a: "p = Some a" "a < length (heap w)" "conn_id (heap w ! a) = k" "\<not> conn_closed (heap w ! a)"
      by (auto elim: pool_okE)
    have "worker_ok hf G (w\<lparr>connectionPool := dd\<rparr>)" using 2(2,3) by (intro worker_inv_pool [OF ok]) (simp_all add: pool_map_def)
    then show ?thesis using 2 a k by (simp add: random_conn_def pool_map_def)
  qed
qed

lemma dict_empty_iff: "dict_inv hf (connectionPool w) \<Longrightarrow> dict_empty (connectionPool w) \<longleftrightarrow> pool_map w = Map.empty"
  using pool.empty_iff by (auto simp: dict_empty_def pool_map_def)

text \<open>The candidate for eviction is none yet, or a connection of the pool with the time it has been idle.\<close>

definition candidate :: "worker \<Rightarrow> int \<Rightarrow> 64 word \<Rightarrow> int \<Rightarrow> bool" where
  "candidate w now mostId mostTime \<longleftrightarrow> mostId = NO_ID \<or> (\<exists>a. pool_map w mostId = Some (Some a) \<and>
     a < length (heap w) \<and> conn_id (heap w ! a) = mostId \<and> mostTime = now - lastActiveTime (heap w ! a))"

lemma evict_loop_ok:
  "worker_ok hf G w \<Longrightarrow> INT_time now \<Longrightarrow> candidate w now mid mt \<Longrightarrow>
   evict_loop hf k now mid mt rs w = Inr None \<or> (\<exists>r rs' w'. evict_loop hf k now mid mt rs w = Inr (Some (r, rs', w')) \<and>
     worker_ok hf G w' \<and> pool_map w' = pool_map w \<and> heap w' = heap w \<and> incomingConnection w' = incomingConnection w \<and>
     (case r of None \<Rightarrow> True | Some (mid', mt') \<Rightarrow> candidate w now mid' mt'))"
proof (induction k arbitrary: mid mt rs w)
  case (Suc k)
  note d = worker_invD [OF Suc.prems(1)]
  show ?case
  proof (cases "pool_map w = Map.empty")
    case True
    then show ?thesis using Suc.prems dict_empty_iff [OF d(1)] by simp
  next
    case False
    then have ne: "\<not> dict_empty (connectionPool w)" using dict_empty_iff [OF d(1)] by simp
    from random_conn_ok [OF Suc.prems(1) False, of rs] show ?thesis
    proof (elim disjE exE conjE)
      assume "random_conn hf rs w = Inr None"
      then show ?thesis using ne by simp
    next
      fix a rs1 w1 assume r: "random_conn hf rs w = Inr (Some (Some a, rs1, w1))" and w1: "worker_ok hf G w1"
        "pool_map w1 = pool_map w" "heap w1 = heap w" "incomingConnection w1 = incomingConnection w"
        and a: "a < length (heap w)" "pool_map w (conn_id (heap w ! a)) = Some (Some a)" "\<not> conn_closed (heap w ! a)"
      let ?t = "now - lastActiveTime (heap w ! a)"
      have t: "c_int ?t = Inr ?t" using Suc.prems(2) d(5) [OF a(1)]
        by (simp add: c_int_def INT_time_def INT_MIN_def INT_MAX_def)
      have cand: "candidate w1 now x y = candidate w now x y" for x y using w1 by (simp add: candidate_def)
      have c2: "candidate w now (conn_id (heap w ! a)) ?t" using a by (auto simp: candidate_def)
      obtain x y where xy: "candidate w1 now x y"
        "evict_loop hf (Suc k) now mid mt rs w = evict_loop hf k now x y rs1 w1"
        using ne r a w1(3) t c2 Suc.prems(3) cand by (cases "?t > mt") auto
      show ?thesis unfolding xy(2) using Suc.IH [OF w1(1) Suc.prems(2) xy(1), of rs1] unfolding w1(2-4) cand .
    qed
  qed
qed simp

text \<open>At most one connection is evicted; without force only one that has been idle for longer than the timeout.\<close>

definition evicts_at_most_one :: "config \<Rightarrow> bool \<Rightarrow> int \<Rightarrow> worker \<Rightarrow> worker \<Rightarrow> bool" where
  "evicts_at_most_one cfg force now w w' \<longleftrightarrow> pool_map w' = pool_map w \<or>
     (\<exists>k a. pool_map w k = Some (Some a) \<and> pool_map w' = (pool_map w)(k := None) \<and>
        (force \<or> (\<exists>t. inactive_tcp_timeout cfg = Some t \<and> t < now - lastActiveTime (heap w ! a))))"

lemma evictRandomN_ok:
  assumes ok: "worker_ok hf G w" and now: "INT_time now" and cfg: "force \<or> inactive_tcp_timeout cfg \<noteq> None"
    and room: "card (dom (pool_map w)) < 2 ^ 29"
  shows "evictRandomN hf cfg n force now rs w = Inr None \<or> (\<exists>rs' w'. evictRandomN hf cfg n force now rs w = Inr (Some (rs', w')) \<and>
    worker_ok hf G w' \<and> incomingConnection w' = incomingConnection w \<and> heap w' = heap w \<and>
    evicts_at_most_one cfg force now w w')"
proof (cases "n \<le> 0")
  case True
  then show ?thesis using ok by (simp add: evictRandomN_def evicts_at_most_one_def)
next
  case False
  have "candidate w now NO_ID 0" by (simp add: candidate_def)
  from evict_loop_ok [OF ok now this, of "nat n" rs] show ?thesis
  proof (elim disjE exE conjE)
    assume "evict_loop hf (nat n) now NO_ID 0 rs w = Inr None"
    then show ?thesis using False by (simp add: evictRandomN_def)
  next
    fix r rs1 w1 assume e: "evict_loop hf (nat n) now NO_ID 0 rs w = Inr (Some (r, rs1, w1))"
      and w1: "worker_ok hf G w1" "pool_map w1 = pool_map w" "heap w1 = heap w" "incomingConnection w1 = incomingConnection w"
      and c: "case r of None \<Rightarrow> True | Some (mid', mt') \<Rightarrow> candidate w now mid' mt'"
    define res where "res = evictRandomN hf cfg n force now rs w"
    have res: "res = (case r of
          None \<Rightarrow> Inr (Some (rs1, w1))
        | Some (mostId, mostTime) \<Rightarrow>
            if mostId = NO_ID then Inr (Some (rs1, w1))
            else bind_res (if force then Inr True
                    else bind_res (getInactiveTcpTimeOut cfg) (\<lambda>t. Inr (mostTime > t))) (\<lambda>go.
                 if go
                 then bind_res (dict_at hf None mostId (connectionPool w1)) (\<lambda>(p, d).
                      bind_res (removeConnection hf p (w1\<lparr>connectionPool := d\<rparr>)) (\<lambda>w2. Inr (Some (rs1, w2))))
                 else Inr (Some (rs1, w1))))"
      unfolding res_def evictRandomN_def using False e by simp
    have stay: "res = Inr (Some (rs1, w1)) \<Longrightarrow> ?thesis"
      unfolding res_def [symmetric] using w1 by (auto simp: evicts_at_most_one_def)
    show ?thesis
    proof (cases "r = None \<or> (\<exists>mt. r = Some (NO_ID, mt))")
      case True
      then show ?thesis using res by (intro stay) auto
    next
      case some: False
      then obtain mid mt where r: "r = Some (mid, mt)" "mid \<noteq> NO_ID" by (cases r) auto
      then obtain a where a: "pool_map w mid = Some (Some a)" "a < length (heap w)" "conn_id (heap w ! a) = mid"
        "mt = now - lastActiveTime (heap w ! a)" using c by (auto simp: candidate_def)
      obtain go where go: "(if force then Inr True
          else bind_res (getInactiveTcpTimeOut cfg) (\<lambda>t. Inr (mt > t))) = Inr go"
        "go \<Longrightarrow> force \<or> (\<exists>t. inactive_tcp_timeout cfg = Some t \<and> t < mt)" using cfg by (cases force) auto
      show ?thesis
      proof (cases go)
        case False
        then show ?thesis using res r go(1) by (intro stay) simp
      next
        case True
        obtain dd where dd: "dict_at hf None mid (connectionPool w1) = Inr (Some a, dd)"
          "worker_ok hf G (w1\<lparr>connectionPool := dd\<rparr>)" "dict_map dd = pool_map w1"
          using pool_at [OF w1(1), of mid "Some a"] room a(1) w1(2) by metis
        obtain w2 where w2: "removeConnection hf (Some a) (w1\<lparr>connectionPool := dd\<rparr>) = Inr w2" "worker_ok hf G w2"
          "pool_map w2 = (pool_map w)(mid := None)" "incomingConnection w2 = incomingConnection w" "heap w2 = heap w"
          using removeConnection_spec [OF dd(2), of a] a(2,3) w1 dd(3) by auto
        have "res = Inr (Some (rs1, w2))" using res r go(1) True dd(1) w2(1) by simp
        moreover have "evicts_at_most_one cfg force now w w2"
          using w2(3) a go(2) [OF True] unfolding evicts_at_most_one_def by blast
        ultimately show ?thesis unfolding res_def [symmetric] using w2 by blast
      qed
    qed
  qed
qed

lemma eviction_ok:
  assumes ok: "worker_ok hf G w" and now: "INT_time now" and rule: "max_tcp_eviction_rule cfg = Some rule"
    and cfg: "eviction_pool_size cfg \<noteq> None" and room: "card (dom (pool_map w)) < 2 ^ 29"
    and ne: "rule = MAX_TCP_EVICTION_RANDOM \<longrightarrow> pool_map w \<noteq> Map.empty"
  shows "eviction hf cfg now rs w = Inr None \<or> (\<exists>rs' w'. eviction hf cfg now rs w = Inr (Some (rs', w')) \<and>
    worker_ok hf G w' \<and> incomingConnection w' = incomingConnection w \<and> heap w' = heap w \<and>
    evicts_at_most_one cfg True now w w')"
proof -
  consider (rnd) "rule = MAX_TCP_EVICTION_RANDOM" | (ina) "rule = MAX_TCP_EVICTION_INACTIVE"
    | (oth) "rule \<noteq> MAX_TCP_EVICTION_RANDOM" "rule \<noteq> MAX_TCP_EVICTION_INACTIVE" by blast
  then show ?thesis
  proof cases
    case rnd
    then have nn: "rule \<noteq> MAX_TCP_EVICTION_NONE" by (simp add: MAX_TCP_EVICTION_RANDOM_def MAX_TCP_EVICTION_NONE_def)
    have "pool_map w \<noteq> Map.empty" using ne rnd by blast
    from random_conn_ok [OF ok this, of rs] show ?thesis
    proof (elim disjE exE conjE)
      assume "random_conn hf rs w = Inr None"
      then show ?thesis using rule rnd nn by (simp add: eviction_def)
    next
      fix a rs1 w1 assume r: "random_conn hf rs w = Inr (Some (Some a, rs1, w1))" and w1: "worker_ok hf G w1"
        "pool_map w1 = pool_map w" "heap w1 = heap w" "incomingConnection w1 = incomingConnection w"
        and a: "a < length (heap w)" "pool_map w (conn_id (heap w ! a)) = Some (Some a)"
      obtain w2 where w2: "removeConnection hf (Some a) w1 = Inr w2" "worker_ok hf G w2"
        "pool_map w2 = (pool_map w)(conn_id (heap w ! a) := None)" "incomingConnection w2 = incomingConnection w"
        "heap w2 = heap w" using removeConnection_spec [OF w1(1), of a] a w1 by auto
      have "eviction hf cfg now rs w = Inr (Some (rs1, w2))" using rule rnd nn r w2(1) by (simp add: eviction_def)
      moreover have "evicts_at_most_one cfg True now w w2" using w2(3) a(2) unfolding evicts_at_most_one_def by blast
      ultimately show ?thesis using w2 by blast
    qed
  next
    case ina
    then have "eviction hf cfg now rs w = evictRandomN hf cfg (min (dict_size (connectionPool w)) (the (eviction_pool_size cfg))) True now rs w"
      using rule cfg by (auto simp: eviction_def MAX_TCP_EVICTION_RANDOM_def MAX_TCP_EVICTION_NONE_def MAX_TCP_EVICTION_INACTIVE_def)
    then show ?thesis using evictRandomN_ok [OF ok now _ room, of True cfg] by simp
  next
    case oth
    then have "eviction hf cfg now rs w = Inr (Some (rs, w))" using rule by (simp add: eviction_def)
    then show ?thesis using ok by (simp add: evicts_at_most_one_def)
  qed
qed

lemma manageInactive_ok:
  assumes ok: "worker_ok hf G w" and now: "INT_time now" and cfg: "inactive_tcp_eviction_rule cfg \<noteq> None"
    "eviction_pool_size cfg \<noteq> None" "inactive_tcp_timeout cfg \<noteq> None" and room: "card (dom (pool_map w)) < 2 ^ 29"
  shows "manageInactiveConnection hf cfg now rs w = Inr None \<or>
    (\<exists>rs' w'. manageInactiveConnection hf cfg now rs w = Inr (Some (rs', w')) \<and>
       worker_ok hf G w' \<and> incomingConnection w' = incomingConnection w \<and> heap w' = heap w \<and>
       evicts_at_most_one cfg False now w w')"
proof (cases "inactive_tcp_eviction_rule cfg = Some INACTIVE_TCP_EVICTION_NONE")
  case True
  then show ?thesis using ok by (simp add: manageInactiveConnection_def evicts_at_most_one_def)
next
  case False
  then have "manageInactiveConnection hf cfg now rs w = evictRandomN hf cfg (the (eviction_pool_size cfg)) False now rs w"
    using cfg(1,2) by (auto simp: manageInactiveConnection_def)
  then show ?thesis using evictRandomN_ok [OF ok now _ room, of False cfg] cfg(3) by simp
qed

section \<open>A whole round\<close>

text \<open>What a round needs of the configuration. Random eviction must not be asked of an empty pool.\<close>

definition round_config :: "config \<Rightarrow> bool \<Rightarrow> bool" where
  "round_config cfg exceed \<longleftrightarrow> inactive_tcp_eviction_rule cfg \<noteq> None \<and> eviction_pool_size cfg \<noteq> None \<and>
     inactive_tcp_timeout cfg \<noteq> None \<and>
     (\<exists>mx rule. max_tcp_per_worker cfg = Some mx \<and> max_tcp_eviction_rule cfg = Some rule \<and>
        (rule = MAX_TCP_EVICTION_RANDOM \<longrightarrow> \<not> exceed \<and> 0 \<le> mx))"

text \<open>What \<open>epoll_wait\<close> reports: each registered connection at most once; and sane clocks.\<close>

definition round_events :: "worker \<Rightarrow> event list \<Rightarrow> bool" where
  "round_events w evs \<longleftrightarrow> distinct (map ev_id evs) \<and> (\<forall>ev \<in> set evs. ev_id ev \<in> dom (pool_map w) \<and>
     INT_time (ev_read_time ev) \<and> INT_time (ev_write_time ev))"

lemma queued_same: "worker_ok hf G w \<Longrightarrow> incomingConnection w1 = incomingConnection w \<Longrightarrow> same_conns w w1 \<Longrightarrow> queued w1 = queued w"
proof -
  assume ok: "worker_ok hf G w" and q: "incomingConnection w1 = incomingConnection w" and same: "same_conns w w1"
  from worker_invD(3) [OF ok] obtain as where as: "incomingConnection w = map Some as" by (auto simp: queue_ok_def)
  have "\<forall>a \<in> set as. a < length (heap w)" using queue_okD(1) [OF worker_invD(3) [OF ok] as] by blast
  then have "map (\<lambda>a. (conn_id (heap w1 ! a), Some a)) as = map (\<lambda>a. (conn_id (heap w ! a), Some a)) as"
    using same_connsD(2) [OF same] by simp
  then show ?thesis unfolding queued_map [OF as] queued_map [of w1 as, unfolded q, OF as] by (rule arg_cong)
qed

lemma queued_dom:
  assumes "worker_ok hf G w"
  shows "finite (dom (queued w))" "card (dom (queued w)) = length (incomingConnection w)"
    "dom (pool_map w) \<inter> dom (queued w) = {}"
proof -
  from worker_invD(3) [OF assms] obtain as where as: "incomingConnection w = map Some as" by (auto simp: queue_ok_def)
  note q = queue_okD [OF worker_invD(3) [OF assms] as]
  have d: "dom (queued w) = (\<lambda>a. conn_id (heap w ! a)) ` set as"
    using queued_map [OF as] by (auto simp: dom_map_of_conv_image_fst image_image)
  show "finite (dom (queued w))" "dom (pool_map w) \<inter> dom (queued w) = {}" using d q(1) by auto
  show "card (dom (queued w)) = length (incomingConnection w)"
    using d q(2) distinct_card [of "map (\<lambda>a. conn_id (heap w ! a)) as"] as by simp
qed

lemma card_pool_le: "pool_map w' \<subseteq>\<^sub>m pool_map w \<Longrightarrow> card (dom (pool_map w')) \<le> card (dom (pool_map w))"
  by (intro card_mono) (simp_all add: map_le_implies_dom_le pool_map_def dict_finite)

lemma evicts_le: "evicts_at_most_one cfg force now w w' \<Longrightarrow> pool_map w' \<subseteq>\<^sub>m pool_map w"
  by (auto simp: evicts_at_most_one_def map_le_def split: if_splits)

text \<open>The pool \<open>m'\<close> has nothing but entries of \<open>m\<close>, and of those without an event in \<open>evs\<close> at most \<open>n\<close> are missing.\<close>

definition all_but :: "nat \<Rightarrow> event list \<Rightarrow> (64 word \<rightharpoonup> conn_ptr) \<Rightarrow> (64 word \<rightharpoonup> conn_ptr) \<Rightarrow> bool" where
  "all_but n evs m m' \<longleftrightarrow> m' \<subseteq>\<^sub>m m \<and> card (dom m - set (map ev_id evs) - dom m') \<le> n"

lemma evicts_one:
  assumes "evicts_at_most_one cfg force now w w'"
  shows "card (dom (pool_map w) - dom (pool_map w')) \<le> 1"
proof -
  from assms consider "pool_map w' = pool_map w" | k where "pool_map w' = (pool_map w)(k := None)" by (auto simp: evicts_at_most_one_def)
  then show ?thesis
  proof cases
    case (2 k)
    then have "dom (pool_map w) - dom (pool_map w') \<subseteq> {k}" by auto
    then have "card (dom (pool_map w) - dom (pool_map w')) \<le> card {k}" by (rule card_mono [rotated]) simp
    then show ?thesis by simp
  qed simp
qed

lemma all_but_evicts:
  assumes "all_but n evs m (pool_map w)" "evicts_at_most_one cfg force now w w'" "finite (dom m)"
  shows "all_but (Suc n) evs m (pool_map w')"
proof -
  let ?I = "set (map ev_id evs)"
  have "dom m - ?I - dom (pool_map w') \<subseteq> (dom m - ?I - dom (pool_map w)) \<union> (dom (pool_map w) - dom (pool_map w'))" by auto
  then have "card (dom m - ?I - dom (pool_map w')) \<le>
      card ((dom m - ?I - dom (pool_map w)) \<union> (dom (pool_map w) - dom (pool_map w')))"
    using assms(3) by (intro card_mono) (simp_all add: pool_map_def dict_finite)
  also have "\<dots> \<le> card (dom m - ?I - dom (pool_map w)) + card (dom (pool_map w) - dom (pool_map w'))" by (rule card_Un_le)
  finally show ?thesis using assms(1) evicts_one [OF assms(2)] map_le_trans [OF evicts_le [OF assms(2)]] by (simp add: all_but_def)
qed

lemma all_but_card:
  assumes "all_but n evs m m'" "finite (dom m)"
  shows "card (dom m') \<le> card (dom m)" "card (dom m) \<le> card (dom m') + length evs + n"
proof -
  let ?I = "set (map ev_id evs)"
  have sub: "dom m' \<subseteq> dom m" using assms(1) by (auto simp: all_but_def map_le_implies_dom_le)
  then show "card (dom m') \<le> card (dom m)" by (rule card_mono [OF assms(2)])
  have "dom m \<subseteq> dom m' \<union> (?I \<union> (dom m - ?I - dom m'))" by auto
  then have "card (dom m) \<le> card (dom m' \<union> (?I \<union> (dom m - ?I - dom m')))"
    using assms(2) finite_subset [OF sub] by (intro card_mono) simp_all
  also have "\<dots> \<le> card (dom m') + (card ?I + card (dom m - ?I - dom m'))"
    using card_Un_le [of "dom m'" "?I \<union> (dom m - ?I - dom m')"] card_Un_le [of ?I "dom m - ?I - dom m'"] by linarith
  also have "\<dots> \<le> card (dom m') + (length evs + n)"
    using assms(1) card_length [of "map ev_id evs"] by (simp add: all_but_def)
  finally show "card (dom m) \<le> card (dom m') + length evs + n" by simp
qed

text \<open>How many connections a round may evict: one that is idle, and one over the limit.\<close>

definition evictions_on :: "config \<Rightarrow> nat" where
  "evictions_on cfg = (if inactive_tcp_eviction_rule cfg = Some INACTIVE_TCP_EVICTION_NONE then 0 else 1) +
     (if max_tcp_eviction_rule cfg = Some MAX_TCP_EVICTION_NONE then 0 else 1)"

context event_contract begin

lemma events_and_registration_ok:
  assumes ok: "worker_ok hf G w" and room: "pool_room w" and evs: "round_events w evs"
  obtains w1 w2 where "handle_events hf cbs evs w = Inr w1" "registerNewConnection hf cbs w1 = Inr w2" "worker_ok hf G w2"
    "incomingConnection w2 = []" "same_conns w w2" "pool_map w2 \<subseteq>\<^sub>m pool_map w ++ queued w"
    "dom (pool_map w ++ queued w) - set (map ev_id evs) \<subseteq> dom (pool_map w2)" "card (dom (pool_map w2)) \<le> card (dom (pool_map w)) + length (incomingConnection w)"
    "card (dom (pool_map w2)) < 2 ^ 29"
proof -
  have "card (dom (pool_map w)) < 2 ^ 29" using room by (simp add: pool_room_def)
  with handle_events_ok [OF ok] evs obtain w1 where w1: "handle_events hf cbs evs w = Inr w1" "worker_ok hf G w1"
    "incomingConnection w1 = incomingConnection w" "pool_map w1 \<subseteq>\<^sub>m pool_map w" "same_conns w w1"
    "dom (pool_map w) - set (map ev_id evs) \<subseteq> dom (pool_map w1)"
    unfolding round_events_def by blast
  have "pool_room w1" using room w1(3) card_pool_le [OF w1(4)] by (simp add: pool_room_def)
  then obtain w2 where w2: "registerNewConnection hf cbs w1 = Inr w2" "worker_ok hf G w2" "incomingConnection w2 = []"
    "card (dom (pool_map w2)) \<le> card (dom (pool_map w1)) + length (incomingConnection w1)" "same_conns w1 w2"
    "pool_map w2 = pool_map w1 ++ queued w1"
    using registerNewConnection_ok [OF w1(2)] by blast
  have q: "queued w1 = queued w" by (rule queued_same [OF ok w1(3,5)])
  have pool2: "pool_map w2 \<subseteq>\<^sub>m pool_map w ++ queued w"
    using w1(4) unfolding w2(6) q by (auto simp: map_le_def map_add_def split: option.splits)
  have dom2: "dom (pool_map w ++ queued w) - set (map ev_id evs) \<subseteq> dom (pool_map w2)" using w1(6) unfolding w2(6) q by auto
  have "card (dom (pool_map w2)) \<le> card (dom (pool_map w)) + length (incomingConnection w)"
    using w2(4) w1(3) card_pool_le [OF w1(4)] by simp
  moreover have "card (dom (pool_map w2)) < 2 ^ 29" using w2(4) \<open>pool_room w1\<close> by (simp add: pool_room_def)
  ultimately show thesis using that w1(1) w2(1-3) same_conns_trans [OF w1(5) w2(5)] pool2 dom2 by blast
qed

lemma work_round_ok:
  assumes ok: "worker_ok hf G w" and room: "pool_room w" and evs: "round_events w evs"
    and cfg: "round_config cfg exceed" and t: "INT_time t1" "INT_time t2"
  shows "work_round hf cbs cfg evs t1 t2 exceed rs w = Inr None \<or>
    (\<exists>w'. work_round hf cbs cfg evs t1 t2 exceed rs w = Inr (Some w') \<and> worker_ok hf G w' \<and> incomingConnection w' = [] \<and>
      same_conns w w' \<and> all_but (evictions_on cfg) evs (pool_map w ++ queued w) (pool_map w'))"
proof -
  obtain mx rule where c: "max_tcp_per_worker cfg = Some mx" "max_tcp_eviction_rule cfg = Some rule"
    "rule = MAX_TCP_EVICTION_RANDOM \<longrightarrow> \<not> exceed \<and> 0 \<le> mx" "inactive_tcp_eviction_rule cfg \<noteq> None"
    "eviction_pool_size cfg \<noteq> None" "inactive_tcp_timeout cfg \<noteq> None" using cfg by (auto simp: round_config_def)
  obtain w1 w2 where w1: "handle_events hf cbs evs w = Inr w1" and w2: "registerNewConnection hf cbs w1 = Inr w2"
    "worker_ok hf G w2" "incomingConnection w2 = []" and same2: "same_conns w w2"
    and pool2: "pool_map w2 \<subseteq>\<^sub>m pool_map w ++ queued w" "dom (pool_map w ++ queued w) - set (map ev_id evs) \<subseteq> dom (pool_map w2)"
    and room2: "card (dom (pool_map w2)) < 2 ^ 29" using events_and_registration_ok [OF ok room evs] by metis
  let ?m = "pool_map w ++ queued w"
  have fin: "finite (dom ?m)" using queued_dom(1) [OF ok] by (simp add: pool_map_def dict_finite)
  have "dom ?m - set (map ev_id evs) - dom (pool_map w2) = {}" using pool2(2) by (simp only: Diff_eq_empty_iff)
  then have ab2: "all_but 0 evs ?m (pool_map w2)" using pool2(1) by (simp add: all_but_def)
  let ?i = "if inactive_tcp_eviction_rule cfg = Some INACTIVE_TCP_EVICTION_NONE then 0 else 1 :: nat"
  from manageInactive_ok [OF w2(2) t(1) c(4-6) room2, of rs] show ?thesis
  proof (elim disjE exE conjE)
    assume "manageInactiveConnection hf cfg t1 rs w2 = Inr None"
    then show ?thesis using w1 w2(1) by (simp add: work_round_def)
  next
    fix rs1 w3 assume m: "manageInactiveConnection hf cfg t1 rs w2 = Inr (Some (rs1, w3))" and w3: "worker_ok hf G w3"
      "incomingConnection w3 = incomingConnection w2" "heap w3 = heap w2" "evicts_at_most_one cfg False t1 w2 w3"
    have "card (dom (pool_map w3)) \<le> card (dom (pool_map w2))" using card_pool_le [OF evicts_le [OF w3(4)]] .
    with room2 have room3: "card (dom (pool_map w3)) < 2 ^ 29" by simp
    have ab3: "all_but ?i evs ?m (pool_map w3)"
      using all_but_evicts [OF ab2 w3(4) fin] ab2 m by (auto simp: manageInactiveConnection_def)
    have same3: "same_conns w w3" using same2 w3(3) by (simp add: same_conns_def)
    show ?thesis
    proof (cases "dict_size (connectionPool w3) > mx \<or> exceed")
      case False
      moreover have "all_but (evictions_on cfg) evs ?m (pool_map w3)" using ab3 by (auto simp: all_but_def evictions_on_def split: if_splits)
      ultimately show ?thesis using w1 w2(1,3) m c(1) w3(1,2) same3 by (simp add: work_round_def)
    next
      case True
      have "rule = MAX_TCP_EVICTION_RANDOM \<longrightarrow> pool_map w3 \<noteq> Map.empty"
        using True c(3) pool.empty_iff [OF worker_invD(1) [OF w3(1)]] by (auto simp: pool_map_def)
      from eviction_ok [OF w3(1) t(2) c(2,5) room3 this, of rs1] show ?thesis
      proof (elim disjE exE conjE)
        assume "eviction hf cfg t2 rs1 w3 = Inr None"
        then show ?thesis using w1 w2(1) m c(1) True by (simp add: work_round_def)
      next
        fix rs2 w4 assume e: "eviction hf cfg t2 rs1 w3 = Inr (Some (rs2, w4))" and w4: "worker_ok hf G w4"
          "incomingConnection w4 = incomingConnection w3" "heap w4 = heap w3" "evicts_at_most_one cfg True t2 w3 w4"
        have "same_conns w w4" using same3 w4(3) by (simp add: same_conns_def)
        moreover have "all_but (evictions_on cfg) evs ?m (pool_map w4)"
          using all_but_evicts [OF ab3 w4(4) fin] ab3 e c(2) by (auto simp: evictions_on_def eviction_def)
        ultimately show ?thesis using w1 w2(1,3) m c(1) True e w4(1,2) w3(2) by (simp add: work_round_def)
      qed
    qed
  qed
qed

end

section \<open>A round ends\<close>

text \<open>The loops of the evictions that draw random numbers end for suitable numbers, whatever numbers follow.\<close>

lemma random_conn_draws:
  assumes ok: "worker_ok hf G w" and ne: "pool_map w \<noteq> Map.empty"
  shows "\<exists>ss a w'. (\<forall>rs. random_conn hf (ss @ rs) w = Inr (Some (Some a, rs, w'))) \<and> worker_ok hf G w' \<and>
    pool_map w' = pool_map w \<and> heap w' = heap w \<and> a < length (heap w) \<and> \<not> conn_closed (heap w ! a) \<and>
    pool_map w (conn_id (heap w ! a)) = Some (Some a)"
proof -
  note d = worker_invD [OF ok]
  obtain k p where k: "pool_map w k = Some p" using ne by (metis ext option.exhaust)
  with d(2) obtain a where a: "p = Some a" "a < length (heap w)" "conn_id (heap w ! a) = k" "\<not> conn_closed (heap w ! a)"
    by (auto elim: pool_okE)
  obtain ss dd where dd: "dict_inv hf dd" "dict_map dd = pool_map w"
    "\<And>rs. getRandomValue hf (ss @ rs) (connectionPool w) = Inr (Some (p, rs, dd))"
    using draw.random_draws [OF d(1)] k unfolding pool_map_def by blast
  then show ?thesis using a k worker_inv_pool [OF ok dd(1,2)]
    by (intro exI [of _ ss] exI [of _ a] exI [of _ "w\<lparr>connectionPool := dd\<rparr>"]) (simp add: random_conn_def)
qed

lemma evict_loop_draws:
  "worker_ok hf G w \<Longrightarrow> INT_time now \<Longrightarrow>
   \<exists>ss r w'. \<forall>rs. evict_loop hf k now mid mt (ss @ rs) w = Inr (Some (r, rs, w'))"
proof (induction k arbitrary: mid mt w)
  case 0
  show ?case by (intro exI [of _ "[]"]) simp
next
  case (Suc k)
  note d = worker_invD [OF Suc.prems(1)]
  show ?case
  proof (cases "pool_map w = Map.empty")
    case True
    then show ?thesis using dict_empty_iff [OF d(1)] by (intro exI [of _ "[]"]) simp
  next
    case False
    then have ne: "\<not> dict_empty (connectionPool w)" using dict_empty_iff [OF d(1)] by simp
    from random_conn_draws [OF Suc.prems(1) False] obtain ss a w1 where
      r: "\<And>rs. random_conn hf (ss @ rs) w = Inr (Some (Some a, rs, w1))" and w1: "worker_ok hf G w1" "heap w1 = heap w"
      and a: "a < length (heap w)" "\<not> conn_closed (heap w ! a)" by blast
    let ?t = "now - lastActiveTime (heap w ! a)"
    have t: "c_int ?t = Inr ?t" using Suc.prems(2) d(5) [OF a(1)]
      by (simp add: c_int_def INT_time_def INT_MIN_def INT_MAX_def)
    obtain x y where xy: "\<And>rs. evict_loop hf (Suc k) now mid mt (ss @ rs) w = evict_loop hf k now x y rs w1"
      using ne r a w1(2) t by (cases "?t > mt") auto
    obtain ss' q w' where "\<And>rs. evict_loop hf k now x y (ss' @ rs) w1 = Inr (Some (q, rs, w'))"
      using Suc.IH [OF w1(1) Suc.prems(2)] by blast
    then show ?thesis using xy by (intro exI [of _ "ss @ ss'"] exI [of _ q] exI [of _ w']) simp
  qed
qed

lemma evictRandomN_draws:
  assumes ok: "worker_ok hf G w" and now: "INT_time now" and cfg: "force \<or> inactive_tcp_timeout cfg \<noteq> None"
    and room: "card (dom (pool_map w)) < 2 ^ 29"
  shows "\<exists>ss w'. \<forall>rs. evictRandomN hf cfg n force now (ss @ rs) w = Inr (Some (rs, w'))"
proof (cases "n \<le> 0")
  case True
  then show ?thesis by (intro exI [of _ "[]"]) (simp add: evictRandomN_def)
next
  case False
  obtain ss r w1 where e: "\<And>rs. evict_loop hf (nat n) now NO_ID 0 (ss @ rs) w = Inr (Some (r, rs, w1))"
    using evict_loop_draws [OF ok now] by blast
  define post where "post = (case r of None \<Rightarrow> Inr w1
    | Some (mostId, mostTime) \<Rightarrow>
        if mostId = NO_ID then Inr w1
        else bind_res (if force then Inr True
                else bind_res (getInactiveTcpTimeOut cfg) (\<lambda>t. Inr (mostTime > t))) (\<lambda>go.
             if go
             then bind_res (dict_at hf None mostId (connectionPool w1)) (\<lambda>(p, d).
                  removeConnection hf p (w1\<lparr>connectionPool := d\<rparr>))
             else Inr w1))"
  have eq: "evictRandomN hf cfg n force now (ss @ rs) w = bind_res post (\<lambda>w2. Inr (Some (rs, w2)))" for rs
    using False e by (auto simp: evictRandomN_def post_def bind_res_assoc split: option.split prod.split if_split
        intro!: arg_cong [where f = "bind_res m" for m] ext)
  obtain w2 where "post = Inr w2"
    using evictRandomN_ok [OF ok now cfg room, of n "ss @ []"] unfolding eq by (cases post) auto
  then show ?thesis using eq by (intro exI [of _ ss] exI [of _ w2]) simp
qed

lemma eviction_draws:
  assumes ok: "worker_ok hf G w" and now: "INT_time now" and rule: "max_tcp_eviction_rule cfg = Some rule"
    and cfg: "eviction_pool_size cfg \<noteq> None" and room: "card (dom (pool_map w)) < 2 ^ 29"
    and ne: "rule = MAX_TCP_EVICTION_RANDOM \<longrightarrow> pool_map w \<noteq> Map.empty"
  shows "\<exists>ss w'. \<forall>rs. eviction hf cfg now (ss @ rs) w = Inr (Some (rs, w'))"
proof -
  have nn: "MAX_TCP_EVICTION_RANDOM \<noteq> MAX_TCP_EVICTION_NONE" "MAX_TCP_EVICTION_INACTIVE \<noteq> MAX_TCP_EVICTION_NONE"
    "MAX_TCP_EVICTION_INACTIVE \<noteq> MAX_TCP_EVICTION_RANDOM"
    by (simp_all add: MAX_TCP_EVICTION_RANDOM_def MAX_TCP_EVICTION_NONE_def MAX_TCP_EVICTION_INACTIVE_def)
  consider (rnd) "rule = MAX_TCP_EVICTION_RANDOM" | (ina) "rule = MAX_TCP_EVICTION_INACTIVE"
    | (oth) "rule \<noteq> MAX_TCP_EVICTION_RANDOM" "rule \<noteq> MAX_TCP_EVICTION_INACTIVE" by blast
  then show ?thesis
  proof cases
    case rnd
    with ne random_conn_draws [OF ok] obtain ss a w1 where
      r: "\<And>rs. random_conn hf (ss @ rs) w = Inr (Some (Some a, rs, w1))" "worker_ok hf G w1" "heap w1 = heap w"
        "a < length (heap w)" by blast
    obtain w2 where "removeConnection hf (Some a) w1 = Inr w2" using removeConnection_spec [OF r(2), of a] r(3,4) by auto
    then show ?thesis using r rule rnd nn
      by (intro exI [of _ ss] exI [of _ w2]) (simp add: eviction_def)
  next
    case ina
    then have "eviction hf cfg now rs w =
        evictRandomN hf cfg (min (dict_size (connectionPool w)) (the (eviction_pool_size cfg))) True now rs w" for rs
      using rule cfg nn by (auto simp: eviction_def)
    then show ?thesis using evictRandomN_draws [OF ok now _ room, of True cfg] by simp
  next
    case oth
    then show ?thesis using rule by (intro exI [of _ "[]"] exI [of _ w]) (simp add: eviction_def)
  qed
qed

lemma manageInactive_draws:
  assumes ok: "worker_ok hf G w" and now: "INT_time now" and cfg: "inactive_tcp_eviction_rule cfg \<noteq> None"
    "eviction_pool_size cfg \<noteq> None" "inactive_tcp_timeout cfg \<noteq> None" and room: "card (dom (pool_map w)) < 2 ^ 29"
  shows "\<exists>ss w'. \<forall>rs. manageInactiveConnection hf cfg now (ss @ rs) w = Inr (Some (rs, w'))"
proof (cases "inactive_tcp_eviction_rule cfg = Some INACTIVE_TCP_EVICTION_NONE")
  case True
  then show ?thesis by (intro exI [of _ "[]"] exI [of _ w]) (simp add: manageInactiveConnection_def)
next
  case False
  then have "manageInactiveConnection hf cfg now rs w = evictRandomN hf cfg (the (eviction_pool_size cfg)) False now rs w" for rs
    using cfg(1,2) by (auto simp: manageInactiveConnection_def)
  then show ?thesis using evictRandomN_draws [OF ok now _ room, of False cfg] cfg(3) by simp
qed

context event_contract begin

lemma work_round_draws:
  assumes ok: "worker_ok hf G w" and room: "pool_room w" and evs: "round_events w evs"
    and cfg: "round_config cfg exceed" and t: "INT_time t1" "INT_time t2"
  shows "\<exists>ss w'. \<forall>rs. work_round hf cbs cfg evs t1 t2 exceed (ss @ rs) w = Inr (Some w')"
proof -
  obtain mx rule where c: "max_tcp_per_worker cfg = Some mx" "max_tcp_eviction_rule cfg = Some rule"
    "rule = MAX_TCP_EVICTION_RANDOM \<longrightarrow> \<not> exceed \<and> 0 \<le> mx" "inactive_tcp_eviction_rule cfg \<noteq> None"
    "eviction_pool_size cfg \<noteq> None" "inactive_tcp_timeout cfg \<noteq> None" using cfg by (auto simp: round_config_def)
  obtain w1 w2 where w2: "worker_ok hf G w2" "card (dom (pool_map w2)) < 2 ^ 29"
    "handle_events hf cbs evs w = Inr w1" "registerNewConnection hf cbs w1 = Inr w2"
    by (rule events_and_registration_ok [OF ok room evs])
  obtain ss1 w3 where w3: "\<And>rs. manageInactiveConnection hf cfg t1 (ss1 @ rs) w2 = Inr (Some (rs, w3))"
    using manageInactive_draws [OF w2(1) t(1) c(4-6) w2(2)] by blast
  have ok3: "worker_ok hf G w3" "card (dom (pool_map w3)) < 2 ^ 29"
    using manageInactive_ok [OF w2(1) t(1) c(4-6) w2(2), of "ss1 @ []"] unfolding w3
    using w2(2) by (auto dest!: evicts_le card_pool_le)
  have eq: "work_round hf cbs cfg evs t1 t2 exceed (ss1 @ rs) w =
      (if dict_size (connectionPool w3) > mx \<or> exceed
       then bind_env (eviction hf cfg t2 rs w3) (\<lambda>(_, w4). Inr (Some w4)) else Inr (Some w3))" for rs
    using w2(3,4) w3 c(1) by (simp add: work_round_def)
  show ?thesis
  proof (cases "dict_size (connectionPool w3) > mx \<or> exceed")
    case False
    then show ?thesis using eq by (intro exI [of _ ss1] exI [of _ w3]) simp
  next
    case True
    have "rule = MAX_TCP_EVICTION_RANDOM \<longrightarrow> pool_map w3 \<noteq> Map.empty"
      using True c(3) pool.empty_iff [OF worker_invD(1) [OF ok3(1)]] by (auto simp: pool_map_def)
    then obtain ss2 w4 where "\<And>rs. eviction hf cfg t2 (ss2 @ rs) w3 = Inr (Some (rs, w4))"
      using eviction_draws [OF ok3(1) t(2) c(2,5) ok3(2)] by blast
    then show ?thesis using eq True by (intro exI [of _ "ss1 @ ss2"] exI [of _ w4]) simp
  qed
qed

end

section \<open>The echo server keeps the contract\<close>

text \<open>A connection of the echo server between events: nothing is left unread, and the buffers are small enough for their
  sizes to be added.\<close>

definition echo_ready :: "connection \<Rightarrow> bool" where
  "echo_ready c \<longleftrightarrow> conn_ok c \<and> inbox c = [] \<and> maxSize (readBuffer c) \<le> 2 ^ 29 \<and> maxSize (writeBuffer c) \<le> 2 ^ 29"

lemma echo_ready_room: "echo_ready c \<Longrightarrow> 0 < in_room c \<and> in_room c \<le> 2 ^ 29 \<and> length (outbox c) \<le> 2 ^ 29"
proof -
  assume e: "echo_ready c"
  then have rb: "buf_ok (readBuffer c)" and wb: "buf_ok (writeBuffer c)" by (simp_all add: echo_ready_def conn_ok_def)
  have "bufCount (readBuffer c) = 0" using contents_Nil_iff [of "readBuffer c"] rb e
    by (auto simp: echo_ready_def inbox_def)
  moreover have "0 < maxSize (readBuffer c)" using rb by (auto simp: buf_ok_def buf_inv_def)
  ultimately show ?thesis using e buf_okE [OF wb] by (simp add: echo_ready_def in_room_def getMaxSpace_def outbox_def nat_le_iff)
qed

lemma echo_readable:
  assumes e: "echo_ready c"
  shows "\<exists>c' ins' ls. onReadableEvent main_callbacks t ins c = Inr (c', ins', ls) \<and> echo_ready c' \<and>
    conn_id c' = conn_id c \<and> connfd c' = connfd c \<and> lastActiveTime c' = t"
proof (cases "arrived ins = []")
  case True
  obtain ins' where "onReadableEvent main_callbacks t ins c =
      bind_res (onDisconnection main_callbacks (c\<lparr>lastActiveTime := t\<rparr>)) (\<lambda>(c1, ls). Inr (c1, ins', ls))"
    using onReadableEvent_nothing [OF _ True] echo_ready_room [OF e] by blast
  then show ?thesis using e
    by (simp add: onDisconnection_def main_callbacks_def invoke_def main_onDisconnection_def echo_ready_def conn_ok_def inbox_def)
next
  case False
  have ok: "conn_ok c" using e by (simp add: echo_ready_def)
  obtain ins' c1 where c1: "onReadableEvent main_callbacks t ins c = bind_res (onMessage main_callbacks c1) (\<lambda>(c2, ls). Inr (c2, ins', ls))"
    "conn_ok c1" "inbox c1 = inbox c @ take (in_room c) (arrived ins)"
    "c1 = c\<lparr>lastActiveTime := t, readBuffer := readBuffer c1\<rparr>" "maxSize (readBuffer c1) = maxSize (readBuffer c)"
    using onReadableEvent_data [OF ok _ False] echo_ready_room [OF e] by blast
  have same: "writeBuffer c1 = writeBuffer c" "conn_id c1 = conn_id c" "connfd c1 = connfd c" "lastActiveTime c1 = t"
    by (subst c1(4), simp)+
  have "length (inbox c1) \<le> in_room c" using c1(3) e by (simp add: echo_ready_def)
  then have "length (outbox c1) + length (inbox c1) \<le> 2 ^ 30"
    using echo_ready_room [OF e] same(1) by (simp add: outbox_def)
  from main_onMessage_spec [OF c1(2) this] obtain c2 where c2: "main_onMessage c1 = Inr (c2, [(LOG_DEBUG, c_str (inbox c1))])"
    "conn_ok c2" "inbox c2 = []" "c2 = c1\<lparr>readBuffer := readBuffer c2, writeBuffer := writeBuffer c2\<rparr>"
    "maxSize (readBuffer c2) = maxSize (readBuffer c1)" "maxSize (writeBuffer c2) = maxSize (writeBuffer c1)" by blast
  have "conn_id c2 = conn_id c1" "connfd c2 = connfd c1" "lastActiveTime c2 = lastActiveTime c1"
    by (subst c2(4), simp)+
  moreover have "echo_ready c2" using c2 c1(5) same(1) e by (simp add: echo_ready_def)
  ultimately show ?thesis using c1(1) c2(1) same by (simp add: onMessage_def main_callbacks_def invoke_def)
qed

lemma echo_writable:
  assumes e: "echo_ready c"
  shows "\<exists>c' out. onWritableEvent t ks c = Inr (c', out) \<and> echo_ready c' \<and> conn_id c' = conn_id c \<and>
    connfd c' = connfd c \<and> conn_closed c' = conn_closed c \<and> lastActiveTime c' \<in> {t, lastActiveTime c}"
proof -
  have ok: "conn_ok c" using e by (simp add: echo_ready_def)
  obtain c' out where c': "onWritableEvent t ks c = Inr (c', out)" "conn_ok c'"
    "c' = c\<lparr>lastActiveTime := t, writeBuffer := writeBuffer c'\<rparr>" "maxSize (writeBuffer c') = maxSize (writeBuffer c)"
    using onWritableEvent_spec [OF ok, of t ks] by blast
  have "conn_id c' = conn_id c" "connfd c' = connfd c" "conn_closed c' = conn_closed c" "lastActiveTime c' = t" "readBuffer c' = readBuffer c"
    by (subst c'(3), simp)+
  with c' e show ?thesis by (auto simp: echo_ready_def inbox_def)
qed

interpretation echo: event_contract main_callbacks echo_ready
proof
  fix c t ins ks assume e: "echo_ready c"
  show "\<exists>c' ins' ls. onReadableEvent main_callbacks t ins c = Inr (c', ins', ls) \<and> echo_ready c' \<and>
      conn_id c' = conn_id c \<and> connfd c' = connfd c \<and> lastActiveTime c' = t" using e by (rule echo_readable)
  show "\<exists>c' out. onWritableEvent t ks c = Inr (c', out) \<and> echo_ready c' \<and> conn_id c' = conn_id c \<and>
      connfd c' = connfd c \<and> conn_closed c' = conn_closed c \<and> lastActiveTime c' \<in> {t, lastActiveTime c}" using e by (rule echo_writable)
  show "\<exists>c' ls. onConnection main_callbacks c = Inr (c', ls) \<and> echo_ready c' \<and> conn_id c' = conn_id c \<and>
      connfd c' = connfd c \<and> conn_closed c' = conn_closed c \<and> lastActiveTime c' = lastActiveTime c"
    using e by (simp add: onConnection_def main_callbacks_def invoke_def main_onConnection_def)
qed

section \<open>Properties\<close>

text \<open>A worker with connection 1 in its pool, and connection 2 waiting to be registered.\<close>

definition sample_worker :: worker where
  "sample_worker = \<lparr>maxConnection = Some 10, incomingConnection = [Some 1],
     connectionPool = \<lparr>ht0 = \<lparr>ht_table = Some [Nullptr, Entry 1 (Some 0) Nullptr, Nullptr, Nullptr], ht_size = 4,
         ht_sizemask = 3, ht_used = 1\<rparr>, ht1 = dictht_empty, rehashidx = -1, iterators = 0\<rparr>,
     heap = [sample_connection, sample_connection\<lparr>conn_id := 2, connfd := 8\<rparr>], interest = [7], logged = [], sent = []\<rparr>"

lemma sample_worker_facts:
  "pool_map sample_worker = [1 \<mapsto> Some 0]" "worker_ok id echo_ready sample_worker" "pool_room sample_worker"
proof -
  have p: "\<exists>n\<le>31. (4 :: 64 word) = 2 ^ n" by (rule exI [of _ 2]) simp
  show m: "pool_map sample_worker = [1 \<mapsto> Some 0]"
    by (simp add: pool_map_def sample_worker_def dict_map_def dict_entries_def ht_entries_def)
  have "ht_wf id (ht0 (connectionPool sample_worker))"
    using p by (simp add: sample_worker_def ht_wf_def ht_entries_def bucket_ok_def bucket_index_def hash32_def
        less_Suc_eq nth_Cons')
  then have "dict_inv id (connectionPool sample_worker)"
    by (simp add: dict_inv_def sample_worker_def rehash_state_ok_def isRehashing_def dict_entries_def ht_entries_def)
  moreover have e: "echo_ready sample_connection"
    using sample_connection_facts by (simp add: echo_ready_def)
  then have "echo_ready (sample_connection\<lparr>conn_id := 2, connfd := 8\<rparr>)" by (simp add: echo_ready_def conn_ok_def inbox_def)
  moreover have "conn_id sample_connection = 1" "\<not> conn_closed sample_connection" "lastActiveTime sample_connection = 0"
    by (simp_all add: sample_connection_def)
  moreover have "heap sample_worker = [sample_connection, sample_connection\<lparr>conn_id := 2, connfd := 8\<rparr>]"
    "incomingConnection sample_worker = [Some 1]" by (simp_all add: sample_worker_def)
  moreover have "heap sample_worker = [sample_connection, sample_connection\<lparr>conn_id := 2, connfd := 8\<rparr>]"
    "interest sample_worker = [7]" by (simp_all add: sample_worker_def)
  then have "watch_ok sample_worker"
    unfolding watch_ok_def m
    by (auto simp: sample_connection_def less_Suc_eq intro!: exI [of _ "0 :: nat"])
  ultimately show "worker_ok id echo_ready sample_worker"
    using e \<open>watch_ok sample_worker\<close> by (auto simp: worker_inv_def pool_ok_def m queue_ok_def less_Suc_eq INT_time_def INT_MAX_def
        intro!: exI [of _ "[1]"])
  have "incomingConnection sample_worker = [Some 1]" by (simp add: sample_worker_def)
  then show "pool_room sample_worker" by (simp add: pool_room_def m)
qed

definition sample_event :: event where
  "sample_event = \<lparr>ev_id = 1, ev_flags = EPOLLIN OR EPOLLOUT, ev_read_time = 5, ev_incoming = [Data ''hi''],
     ev_write_time = 5, ev_accepts = [100]\<rparr>"

text \<open>C7: One round of a worker of the echo server, whatever the clients send and however the sockets behave, follows no null
  or dangling pointer and has no other undefined behaviour, and keeps the invariant: every entry of the pool is an
  open connection stored under its own id, and epoll watches exactly the descriptors of the pool's connections. The queue is empty
  afterwards, and its connections are in the pool, beside those that were there: no other is in it, and of those that had no event
  at most one for each of the two evictions that is switched on is missing. The events must be for
  connections of the pool, the settings loaded, the limit not negative, and random eviction not be asked for because of exceeded memory.\<close>

theorem worker_round_safe:
  assumes "worker_ok hf echo_ready w" "pool_room w" "round_events w evs" "round_config cfg exceed" "INT_time t1" "INT_time t2"
  shows "work_round hf main_callbacks cfg evs t1 t2 exceed rs w = Inr None \<or>
    (\<exists>w'. work_round hf main_callbacks cfg evs t1 t2 exceed rs w = Inr (Some w') \<and> worker_ok hf echo_ready w' \<and>
       incomingConnection w' = [] \<and> all_but (evictions_on cfg) evs (pool_map w ++ queued w) (pool_map w'))"
  using echo.work_round_ok [OF assms] by blast

lemma worker_round_safe_witness:
  "\<exists>rs w'. work_round id main_callbacks (shipped_config\<lparr>max_tcp_eviction_rule := Some MAX_TCP_EVICTION_NONE\<rparr>) [sample_event] 9 9 True
     rs sample_worker = Inr (Some w') \<and> incomingConnection w' = [] \<and> pool_map w' 2 = Some (Some 1)"
proof -
  let ?c = "shipped_config\<lparr>max_tcp_eviction_rule := Some MAX_TCP_EVICTION_NONE\<rparr>"
  have r: "round_events sample_worker [sample_event]"
    by (simp add: round_events_def sample_worker_facts sample_event_def INT_time_def INT_MAX_def)
  have c: "round_config ?c True" "evictions_on ?c = 0"
    by (simp_all add: round_config_def shipped_config_def MAX_TCP_EVICTION_RANDOM_def MAX_TCP_EVICTION_NONE_def evictions_on_def
        INACTIVE_TCP_EVICTION_NONE_def)
  have t: "INT_time 9" by (simp add: INT_time_def INT_MAX_def)
  obtain ss w1 where "\<forall>rs. work_round id main_callbacks ?c [sample_event] 9 9 True (ss @ rs) sample_worker = Inr (Some w1)"
    using echo.work_round_draws [OF sample_worker_facts(2,3) r c(1) t t] by blast
  then have w1: "work_round id main_callbacks ?c [sample_event] 9 9 True ss sample_worker = Inr (Some w1)" by (metis append_Nil2)
  from worker_round_safe [OF sample_worker_facts(2,3) r c(1) t t, of ss] w1 c(2)
  have w': "incomingConnection w1 = []" "all_but 0 [sample_event] (pool_map sample_worker ++ queued sample_worker) (pool_map w1)" by auto
  have q: "queued sample_worker = [2 \<mapsto> Some 1]" by (simp add: queued_def sample_worker_def)
  have "finite (dom (pool_map sample_worker ++ queued sample_worker) - {1})" by (simp add: q sample_worker_facts)
  then have "2 \<in> dom (pool_map w1)" using w'(2) by (auto simp: all_but_def sample_event_def q sample_worker_facts)
  then have "pool_map w1 2 = Some (Some 1)" using w'(2) by (auto simp: all_but_def map_le_def q)
  then show ?thesis using w1 w'(1) by blast
qed

text \<open>C17: A round of a worker of the echo server ends: the loops that draw random numbers until they hit an entry stop after
  finitely many suitable numbers, whatever numbers would come after them, and no other loop of the round can go on
  for ever.\<close>

theorem worker_round_ends:
  assumes "worker_ok hf echo_ready w" "pool_room w" "round_events w evs" "round_config cfg exceed" "INT_time t1" "INT_time t2"
  shows "\<exists>ss w'. \<forall>rs. work_round hf main_callbacks cfg evs t1 t2 exceed (ss @ rs) w = Inr (Some w')"
  by (rule echo.work_round_draws [OF assms])

lemma worker_round_ends_witness:
  "\<exists>ss w'. \<forall>rs. work_round id main_callbacks shipped_config [sample_event] 9 9 True (ss @ rs) sample_worker = Inr (Some w')"
proof (rule worker_round_ends [OF sample_worker_facts(2,3)])
  show "round_events sample_worker [sample_event]"
    by (simp add: round_events_def sample_worker_facts sample_event_def INT_time_def INT_MAX_def)
  show "round_config shipped_config True"
    by (simp add: round_config_def shipped_config_def MAX_TCP_EVICTION_RANDOM_def)
qed (simp_all add: INT_time_def INT_MAX_def)

text \<open>C26: Eviction of an idle connection removes at most one connection, keeps the invariant, and unless it is forced removes
  only a connection of the pool that has been idle for longer than the configured timeout.\<close>

theorem evictRandomN_respects_timeout:
  assumes "worker_ok hf G w" "INT_time now" "force \<or> inactive_tcp_timeout cfg \<noteq> None" "card (dom (pool_map w)) < 2 ^ 29"
  shows "evictRandomN hf cfg n force now rs w = Inr None \<or>
    (\<exists>rs' w'. evictRandomN hf cfg n force now rs w = Inr (Some (rs', w')) \<and> worker_ok hf G w' \<and>
    (pool_map w' = pool_map w \<or> (\<exists>k a. pool_map w k = Some (Some a) \<and> pool_map w' = (pool_map w)(k := None) \<and>
        (force \<or> (\<exists>t. inactive_tcp_timeout cfg = Some t \<and> t < now - lastActiveTime (heap w ! a))))))"
  using evictRandomN_ok [OF assms, of n rs] unfolding evicts_at_most_one_def by blast

lemma evictRandomN_respects_timeout_witness:
  "\<exists>rs' w'. evictRandomN id shipped_config 1 False 50 [1, 0] sample_worker = Inr (Some (rs', w')) \<and>
    (pool_map w' = [1 \<mapsto> Some 0] \<or> pool_map w' = Map.empty)"
proof -
  have "evictRandomN id shipped_config 1 False 50 [1, 0] sample_worker \<noteq> Inr None" by code_simp
  with evictRandomN_respects_timeout [OF sample_worker_facts(2), of 50 False shipped_config 1 "[1, 0]"]
  show ?thesis by (auto simp: sample_worker_facts INT_time_def INT_MAX_def shipped_config_def fun_eq_iff split: if_splits)
qed

text \<open>Random eviction dereferences a null pointer when the pool is empty, which happens as soon as the memory limit is
  exceeded while a worker has no connection.\<close>

lemma empty_pool_eviction:
  assumes "dict_inv hf (connectionPool w)" "pool_map w = Map.empty" "max_tcp_eviction_rule cfg = Some MAX_TCP_EVICTION_RANDOM"
  shows "eviction hf cfg now rs w = Inl Null_Deref"
proof -
  have "random_conn hf rs w = Inl Null_Deref"
    using pool.random_law [OF assms(1), of rs] assms(2) by (simp add: random_conn_def pool_map_def)
  then show ?thesis using assms(3) by (simp add: eviction_def MAX_TCP_EVICTION_RANDOM_def MAX_TCP_EVICTION_NONE_def)
qed

lemma random_eviction_on_empty_pool:
  assumes "dict_inv hf (connectionPool w)" "pool_map w = Map.empty" "max_tcp_eviction_rule cfg = Some MAX_TCP_EVICTION_RANDOM"
    "inactive_tcp_eviction_rule cfg = Some INACTIVE_TCP_EVICTION_NONE" "max_tcp_per_worker cfg \<noteq> None" "incomingConnection w = []"
  shows "work_round hf cbs cfg [] t1 t2 True rs w = Inl Null_Deref"
proof -
  have "eviction hf cfg t2 rs w = Inl Null_Deref" by (rule empty_pool_eviction [OF assms(1-3)])
  moreover have "registerNewConnection hf cbs w = Inr w" using assms(6) by (simp add: registerNewConnection_def)
  ultimately show ?thesis using assms(4,5) by (auto simp: work_round_def manageInactiveConnection_def)
qed

lemma random_eviction_on_empty_pool_witness:
  "work_round id main_callbacks (shipped_config\<lparr>max_tcp_eviction_rule := Some 1\<rparr>) [] 5 5 True [3] Worker_new = Inl Null_Deref"
proof -
  have "dict_inv id (connectionPool Worker_new)" "pool_map Worker_new = Map.empty"
    by (simp_all add: Worker_new_def pool_map_def dict_new_inv)
  from random_eviction_on_empty_pool [OF this, of "shipped_config\<lparr>max_tcp_eviction_rule := Some 1\<rparr>"] show ?thesis
    by (simp add: shipped_config_def MAX_TCP_EVICTION_RANDOM_def INACTIVE_TCP_EVICTION_NONE_def Worker_new_def)
qed

text \<open>The worker relies on every event being for a connection of its pool: for an unknown id operator[] inserts a null
  pointer, which is then dereferenced.\<close>

lemma event_for_unknown_connection:
  assumes "dict_inv hf (connectionPool w)" "card (dom (pool_map w)) < 2 ^ 29" "pool_map w (ev_id ev) = None"
  shows "handle_event hf cbs ev w = Inl Null_Deref"
proof -
  obtain d where "dict_at hf None (ev_id ev) (connectionPool w) = Inr (None, d)"
    using pool.at_absent [OF assms(1), of "ev_id ev" None] assms(2,3) unfolding pool_map_def by auto
  then show ?thesis by (auto simp: handle_event_def event_error_def event_in_def event_out_def event_close_def deref_def)
qed

lemma event_for_unknown_connection_witness:
  "handle_event id main_callbacks (sample_event\<lparr>ev_id := 9\<rparr>) sample_worker = Inl Null_Deref"
  using event_for_unknown_connection [of id sample_worker "sample_event\<lparr>ev_id := 9\<rparr>"] sample_worker_facts
    worker_invD(1) [OF sample_worker_facts(2)] by simp

end
