(* ===== verification/Async_Log.thy ===== *)
theory Async_Log
  imports Config Sock_Addr
begin

text \<open>
  \<open>AsyncLogging\<close> and \<open>LogFile\<close> of \<open>src/asyncLogging.h\<close> and \<open>src/asyncLogging.cpp\<close>, from the end of \<open>start()\<close> on, as a step
  relation: the log thread and any number of threads that call \<open>append\<close> interleave. \<open>append\<close> tests \<open>_running\<close> before
  it takes the mutex, so it is two steps: a line that has passed the test is \<open>pending\<close> until it is pushed. The critical
  sections are single steps; waiting on the condition has no effect on the state. (\<open>Log_Threads\<close> has the mutex and the
  waiting, and shows that this is enough.) \<open>files\<close> are the log files in the
  order they are opened, with what has been written to them; opening a file is taken to succeed here (\<open>Log_Files\<close> has
  the disk, the streams and an \<open>fopen\<close> that may fail). \<open>pushed\<close> records all lines pushed so far; the program does not have it. The assignment operator of \<open>LogFile\<close> has no return
  statement; its value is not used, and it is modelled by its effect.
\<close>

section \<open>State\<close>

record log_conf =
  logfilename :: string
  flushInterval :: int
  highWaterMask :: int
  rollingRule :: int
  maxSizeBytes :: int
  startDate :: string

text \<open>The constructor; \<open>rule\<close> and \<open>bytes\<close> are what the two members it does not initialise happen to hold. The setters.\<close>

definition AsyncLogging_new :: "string \<Rightarrow> int \<Rightarrow> int \<Rightarrow> string \<Rightarrow> int \<Rightarrow> int \<Rightarrow> log_conf" where
  "AsyncLogging_new name flush highMask today rule bytes = \<lparr>logfilename = name, flushInterval = flush, highWaterMask = highMask,
     rollingRule = rule, maxSizeBytes = bytes, startDate = today\<rparr>"

definition setName :: "string \<Rightarrow> log_conf \<Rightarrow> log_conf" where "setName newName l = l\<lparr>logfilename := newName\<rparr>"
definition setFlushInterval :: "int \<Rightarrow> log_conf \<Rightarrow> log_conf" where "setFlushInterval n l = l\<lparr>flushInterval := n\<rparr>"
definition setHighWaterMask :: "int \<Rightarrow> log_conf \<Rightarrow> log_conf" where "setHighWaterMask n l = l\<lparr>highWaterMask := n\<rparr>"
definition setRolling :: "int \<Rightarrow> log_conf \<Rightarrow> log_conf" where "setRolling n l = l\<lparr>rollingRule := n\<rparr>"
definition setLogFileMaxSize :: "int \<Rightarrow> log_conf \<Rightarrow> log_conf" where "setLogFileMaxSize n l = l\<lparr>maxSizeBytes := n\<rparr>"

text \<open>What the log threads work on.\<close>

record log_data =
  running :: bool
  currentBuffer :: "string list"
  nextBuffer :: "string list"
  accumulateBytes :: int
  currentDate :: string
  suffix :: nat
  files :: "(string \<times> string) list"
  pushed :: "string list"

datatype log_pc = Starting | Testing | Swapping | Writing | Rolling | Resetting | Opening | Finishing | Done | Crashed

record log_state = log_data +
  log_pc :: log_pc
  pending :: "string list"

text \<open>After \<open>start()\<close>.\<close>

definition log_start :: "log_conf \<Rightarrow> log_state" where
  "log_start conf = \<lparr>running = True, currentBuffer = [], nextBuffer = [], accumulateBytes = 0, currentDate = startDate conf,
     suffix = 0, files = [], pushed = [], log_pc = Starting, pending = []\<rparr>"

section \<open>Operations\<close>

definition append_check :: "string \<Rightarrow> log_state \<Rightarrow> log_state" where
  "append_check l s = (if \<not> running s then s else s\<lparr>pending := pending s @ [l]\<rparr>)"

text \<open>\<open>_accumulateBytes += logline.size()\<close> is computed in \<open>size_t\<close> and converted to \<open>int\<close>.\<close>

definition push_line :: "string \<Rightarrow> 'a log_data_scheme \<Rightarrow> 'a log_data_scheme" where
  "push_line l s = s\<lparr>currentBuffer := currentBuffer s @ [l],
     accumulateBytes := sint (word_of_int (accumulateBytes s + int (length l)) :: 32 word), pushed := pushed s @ [l]\<rparr>"

definition append_push :: "nat \<Rightarrow> log_state \<Rightarrow> log_state" where
  "append_push i s =
     (if i < length (pending s)
      then push_line (pending s ! i) (s\<lparr>pending := take i (pending s) @ drop (Suc i) (pending s)\<rparr>)
      else s)"

definition log_stop :: "log_state \<Rightarrow> log_state" where
  "log_stop s = s\<lparr>running := False\<rparr>"

text \<open>\<open>getNextLogFileName\<close>, and \<open>LogFile(name)\<close> or an assignment to it. The counter of the files is an \<open>int\<close>: the model is that of
  a run that opens fewer than \<open>2 ^ 31\<close> files.\<close>

definition getNextLogFileName :: "log_conf \<Rightarrow> 'a log_data_scheme \<Rightarrow> string" where
  "getNextLogFileName conf s = logfilename conf @ ''_'' @ show_nat (suffix s)"

definition open_next :: "log_conf \<Rightarrow> 'a log_data_scheme \<Rightarrow> 'a log_data_scheme" where
  "open_next conf s = s\<lparr>files := files s @ [(getNextLogFileName conf s, [])], suffix := suffix s + 1\<rparr>"

text \<open>\<open>LogFile::writeLine\<close>: \<open>data.back()\<close> needs a non-empty line.\<close>

definition writeLine :: "string \<Rightarrow> string res" where
  "writeLine data = (if data = [] then Inl Out_Of_Bounds
     else if last data \<noteq> NEWLINE then Inr (data @ [NEWLINE]) else Inr data)"

fun writeLines :: "string list \<Rightarrow> string res" where
  "writeLines [] = Inr []"
| "writeLines (l # ls) = bind_res (writeLine l) (\<lambda>t. bind_res (writeLines ls) (\<lambda>ts. Inr (t @ ts)))"

definition add_text :: "string \<Rightarrow> 'a log_data_scheme \<Rightarrow> 'a log_data_scheme" where
  "add_text t s = (if files s = [] then s
     else s\<lparr>files := butlast (files s) @ [(fst (last (files s)), snd (last (files s)) @ t)]\<rparr>)"

text \<open>The rolling decision after a flush: what comes next. \<open>_currentDate\<close> is compared but not updated. The decision reads
  \<open>_accumulateBytes\<close> without the mutex; setting it to 0 is a step of its own.\<close>

definition roll :: "log_conf \<Rightarrow> string \<Rightarrow> 'a log_data_scheme \<Rightarrow> log_pc" where
  "roll conf today s =
     (if rollingRule conf \<noteq> LOG_FILE_ROLLING_NONE
      then if rollingRule conf = LOG_FILE_ROLLING_SIZE \<and> accumulateBytes s > maxSizeBytes conf then Resetting
           else if rollingRule conf = LOG_FILE_ROLLING_DAILY \<and> today \<noteq> currentDate s then Opening
           else if rollingRule conf = LOG_FILE_ROLLING_SIZEDAILY \<and>
                   (accumulateBytes s > maxSizeBytes conf \<or> today \<noteq> currentDate s) then Resetting
           else Testing
      else Testing)"

text \<open>One step of \<open>threadFunction\<close>; \<open>today\<close> is what \<open>getDateAsString()\<close> gives.\<close>

definition thread_step :: "log_conf \<Rightarrow> string \<Rightarrow> log_state \<Rightarrow> log_state" where
  "thread_step conf today s = (case log_pc s of
       Starting \<Rightarrow> (open_next conf s)\<lparr>log_pc := Testing\<rparr>
     | Testing \<Rightarrow> s\<lparr>log_pc := (if running s then Swapping else Finishing)\<rparr>
     | Swapping \<Rightarrow> s\<lparr>currentBuffer := nextBuffer s, nextBuffer := currentBuffer s,
                     log_pc := (if currentBuffer s = [] then Testing else Writing)\<rparr>
     | Writing \<Rightarrow> (case writeLines (nextBuffer s) of
           Inl _ \<Rightarrow> s\<lparr>log_pc := Crashed\<rparr>
         | Inr t \<Rightarrow> (add_text t s)\<lparr>nextBuffer := [], log_pc := Rolling\<rparr>)
     | Rolling \<Rightarrow> s\<lparr>log_pc := roll conf today s\<rparr>
     | Resetting \<Rightarrow> s\<lparr>accumulateBytes := 0, log_pc := Opening\<rparr>
     | Opening \<Rightarrow> (open_next conf s)\<lparr>log_pc := Testing\<rparr>
     | Finishing \<Rightarrow> (case writeLines (currentBuffer s) of
           Inl _ \<Rightarrow> s\<lparr>log_pc := Crashed\<rparr>
         | Inr t \<Rightarrow> (add_text t s)\<lparr>log_pc := Done\<rparr>)
     | Done \<Rightarrow> s
     | Crashed \<Rightarrow> s)"

section \<open>Runs\<close>

inductive log_step :: "log_conf \<Rightarrow> log_state \<Rightarrow> log_state \<Rightarrow> bool" for conf where
  check: "log_step conf s (append_check l s)"
| push: "log_step conf s (append_push i s)"
| stop: "log_step conf s (log_stop s)"
| thread: "log_step conf s (thread_step conf today s)"

inductive log_reachable :: "log_conf \<Rightarrow> log_state \<Rightarrow> bool" for conf where
  init: "log_reachable conf (log_start conf)"
| step: "log_reachable conf s \<Longrightarrow> log_step conf s s' \<Longrightarrow> log_reachable conf s'"

inductive_cases log_stepE: "log_step conf s s'"

section \<open>Invariants\<close>

definition line_text :: "string \<Rightarrow> string" where
  "line_text l = (if last l \<noteq> NEWLINE then l @ [NEWLINE] else l)"

definition texts :: "string list \<Rightarrow> string" where "texts ls = concat (map line_text ls)"

definition file_text :: "'a log_data_scheme \<Rightarrow> string" where "file_text s = concat (map snd (files s))"

lemma texts_append [simp]: "texts (xs @ ys) = texts xs @ texts ys" "texts [] = []"
  by (simp_all add: texts_def)

lemma writeLines_Inr: "writeLines ls = Inr t \<Longrightarrow> t = texts ls"
proof (induction ls arbitrary: t)
  case (Cons l ls)
  then show ?case
    by (auto simp: bind_res_eq_Inr writeLine_def line_text_def texts_def split: if_splits)
qed simp

lemma add_text_simps [simp]:
  "currentBuffer (add_text t s) = currentBuffer s" "nextBuffer (add_text t s) = nextBuffer s"
  "pushed (add_text t s) = pushed s" "suffix (add_text t s) = suffix s" "currentDate (add_text t s) = currentDate s"
  "length (files (add_text t s)) = length (files s)" "map fst (files (add_text t s)) = map fst (files s)"
  "files (add_text t s) = [] \<longleftrightarrow> files s = []"
  by (cases "files s" rule: rev_cases; simp add: add_text_def)+

lemma file_text_add [simp]: "files s \<noteq> [] \<Longrightarrow> file_text (add_text t s) = file_text s @ t"
  by (cases "files s" rule: rev_cases) (simp_all add: file_text_def add_text_def)

lemma open_next_simps [simp]:
  "currentBuffer (open_next c s) = currentBuffer s" "nextBuffer (open_next c s) = nextBuffer s"
  "pushed (open_next c s) = pushed s" "currentDate (open_next c s) = currentDate s"
  "file_text (open_next c s) = file_text s" "files (open_next c s) \<noteq> []" "suffix (open_next c s) = suffix s + 1"
  "map fst (files (open_next c s)) = map fst (files s) @ [getNextLogFileName c s]"
  by (simp_all add: open_next_def file_text_def)

lemma push_line_simps [simp]:
  "currentBuffer (push_line l s) = currentBuffer s @ [l]" "nextBuffer (push_line l s) = nextBuffer s"
  "pushed (push_line l s) = pushed s @ [l]" "currentDate (push_line l s) = currentDate s" "files (push_line l s) = files s"
  "suffix (push_line l s) = suffix s" "running (push_line l s) = running s" "file_text (push_line l s) = file_text s"
  by (simp_all add: push_line_def file_text_def)

lemma step_simps [simp]:
  fixes s :: log_state
  shows "log_pc (push_line l s) = log_pc s" "pending (push_line l s) = pending s"
  by (simp_all add: push_line_def)

lemma file_text_other [simp]:
  fixes s :: log_state
  shows "file_text (s\<lparr>log_pc := p\<rparr>) = file_text s" "file_text (s\<lparr>nextBuffer := x\<rparr>) = file_text s"
  "file_text (s\<lparr>currentBuffer := x\<rparr>) = file_text s" "file_text (s\<lparr>accumulateBytes := n\<rparr>) = file_text s"
  "file_text (s\<lparr>running := b\<rparr>) = file_text s" "file_text (s\<lparr>pending := x\<rparr>) = file_text s"
  by (simp_all add: file_text_def)

lemma roll_cases: "roll conf today s \<in> {Testing, Resetting, Opening}"
  by (simp add: roll_def)

lemma roll_neq [simp]: "roll conf today s \<noteq> Writing" "roll conf today s \<noteq> Crashed" "roll conf today s \<noteq> Done"
  "roll conf today s \<noteq> Starting" "Writing \<noteq> roll conf today s"
  using roll_cases [of conf today s] by auto

definition log_inv :: "log_conf \<Rightarrow> log_state \<Rightarrow> bool" where
  "log_inv conf s \<longleftrightarrow> currentDate s = startDate conf \<and>
     (log_pc s \<noteq> Writing \<and> log_pc s \<noteq> Crashed \<longrightarrow> nextBuffer s = []) \<and> (log_pc s \<noteq> Starting \<longrightarrow> files s \<noteq> []) \<and>
     map fst (files s) = map (\<lambda>i. logfilename conf @ ''_'' @ show_nat i) [0..<suffix s] \<and>
     (if log_pc s = Done then \<exists>n \<le> length (pushed s). file_text s = texts (take n (pushed s))
      else file_text s @ texts (nextBuffer s @ currentBuffer s) = texts (pushed s))"

lemma log_inv_thread:
  assumes inv: "log_inv conf s"
  shows "log_inv conf (thread_step conf today s)"
proof (cases "log_pc s")
  case Writing
  then show ?thesis using inv
    by (auto simp: log_inv_def thread_step_def split: sum.split dest!: writeLines_Inr)
next
  case Finishing
  then show ?thesis using inv
    by (auto simp: log_inv_def thread_step_def split: sum.split dest!: writeLines_Inr intro!: exI [of _ "length (pushed s)"])
qed (use inv in \<open>auto simp: log_inv_def thread_step_def getNextLogFileName_def\<close>)

lemma log_inv_push: "log_inv conf s \<Longrightarrow> log_inv conf (append_push i s)"
proof (cases "log_pc s = Done \<and> i < length (pending s)")
  case True
  assume inv: "log_inv conf s"
  then obtain n where n: "n \<le> length (pushed s)" "file_text s = texts (take n (pushed s))"
    using True by (auto simp: log_inv_def)
  then have "take n (pushed s @ [pending s ! i]) = take n (pushed s)" by simp
  then have "\<exists>m \<le> length (pushed s @ [pending s ! i]). file_text s = texts (take m (pushed s @ [pending s ! i]))"
    using n by (intro exI [of _ n]) simp
  then show ?thesis using True inv unfolding log_inv_def append_push_def
    by (simp add: del: take_append)
next
  case False
  assume "log_inv conf s"
  with False show ?thesis by (auto simp: log_inv_def append_push_def)
qed

lemma log_inv_reachable: "log_reachable conf s \<Longrightarrow> log_inv conf s"
proof (induction rule: log_reachable.induct)
  case init
  then show ?case by (simp add: log_inv_def log_start_def file_text_def)
next
  case (step s s')
  from step.hyps(2) step.IH show ?case
    by (cases rule: log_stepE)
      (auto simp: log_inv_thread log_inv_push, auto simp: log_inv_def append_check_def log_stop_def)
qed

text \<open>What waits in the buffers has been pushed; so only an empty line that was pushed ends the log thread early.\<close>

lemma writeLines_ok: "[] \<notin> set ls \<Longrightarrow> writeLines ls = Inr (texts ls)"
  by (induction ls) (auto simp: writeLine_def texts_def line_text_def)

lemma thread_step_pushed [simp]: "pushed (thread_step conf today s) = pushed s"
  by (auto simp: thread_step_def open_next_def add_text_def split: log_pc.splits sum.splits)

lemma thread_step_waiting:
  "l \<in> set (nextBuffer (thread_step conf today s)) \<Longrightarrow> l \<in> set (nextBuffer s) \<union> set (currentBuffer s)"
  "l \<in> set (currentBuffer (thread_step conf today s)) \<Longrightarrow> l \<in> set (nextBuffer s) \<union> set (currentBuffer s)"
  by (auto simp: thread_step_def open_next_def add_text_def split: log_pc.splits sum.splits if_splits)

lemma waiting_lines_pushed: "log_reachable conf s \<Longrightarrow> set (nextBuffer s) \<union> set (currentBuffer s) \<subseteq> set (pushed s)"
proof (induction rule: log_reachable.induct)
  case (step s s')
  from step.hyps(2) obtain l i today where "s' = append_check l s \<or> s' = append_push i s \<or> s' = log_stop s \<or>
      s' = thread_step conf today s"
    by (cases rule: log_stepE) auto
  then show ?case
  proof (elim disjE)
    assume "s' = thread_step conf today s"
    then show ?thesis using thread_step_waiting [of _ conf today s] step.IH by auto
  next
    assume "s' = append_push i s"
    then show ?thesis using step.IH by (auto simp: append_push_def push_line_def)
  qed (use step.IH in \<open>auto simp: append_check_def log_stop_def\<close>)
qed (simp add: log_start_def)

lemma thread_crash:
  assumes "log_pc (thread_step conf today s) = Crashed" "log_pc s \<noteq> Crashed"
  shows "[] \<in> set (nextBuffer s) \<union> set (currentBuffer s)"
proof (rule ccontr)
  assume no: "\<not> ?thesis"
  have "writeLines (nextBuffer s) = Inr (texts (nextBuffer s))" "writeLines (currentBuffer s) = Inr (texts (currentBuffer s))"
    by (rule writeLines_ok; use no in simp)+
  with assms show False by (cases "log_pc s") (simp_all add: thread_step_def split: if_splits)
qed

lemma crash_needs_empty_line: "log_reachable conf s \<Longrightarrow> log_pc s = Crashed \<Longrightarrow> [] \<in> set (pushed s)"
proof (induction rule: log_reachable.induct)
  case (step s s')
  from step.hyps(2) obtain l i today where "s' = append_check l s \<or> s' = append_push i s \<or> s' = log_stop s \<or>
      s' = thread_step conf today s"
    by (cases rule: log_stepE) auto
  then show ?case
  proof (elim disjE)
    assume s': "s' = thread_step conf today s"
    then show ?thesis
      using thread_crash [of conf today s] waiting_lines_pushed [OF step.hyps(1)] step.IH step.prems
      by (cases "log_pc s = Crashed") auto
  qed (use step.IH step.prems in \<open>auto simp: append_check_def append_push_def push_line_def log_stop_def split: if_splits\<close>)
qed (simp add: log_start_def)

section \<open>Properties\<close>

text \<open>The log keeps what it is given, in order. In every reachable state, while the log thread runs, what has been written to
  the files, in the order they were opened, followed by the lines waiting in the two buffers, is exactly the sequence of
  the lines pushed; after the thread has ended the files hold a prefix of it. The files are named prefix_0, prefix_1 and
  so on.\<close>

lemma log_keeps_lines_in_order:
  assumes "log_reachable conf s"
  shows "(if log_pc s = Done then \<exists>n \<le> length (pushed s). file_text s = texts (take n (pushed s))
     else file_text s @ texts (nextBuffer s @ currentBuffer s) = texts (pushed s)) \<and>
    map fst (files s) = map (\<lambda>i. logfilename conf @ ''_'' @ show_nat i) [0..<suffix s]"
  using log_inv_reachable [OF assms] by (auto simp: log_inv_def)

definition sample_conf :: log_conf where
  "sample_conf = \<lparr>logfilename = ''log'', flushInterval = 1, highWaterMask = 2, rollingRule = LOG_FILE_ROLLING_DAILY, maxSizeBytes = 1024, startDate = ''2024/01/01''\<rparr>"

text \<open>A run: \<open>n\<close> steps of the log thread on a day.\<close>

fun thread_steps :: "nat \<Rightarrow> log_conf \<Rightarrow> string \<Rightarrow> log_state \<Rightarrow> log_state" where
  "thread_steps 0 conf d s = s"
| "thread_steps (Suc n) conf d s = thread_steps n conf d (thread_step conf d s)"

lemma thread_steps_reachable: "log_reachable conf s \<Longrightarrow> log_reachable conf (thread_steps n conf d s)"
  by (induction n arbitrary: s) (auto intro: log_reachable.step log_step.thread)

lemma check_reachable: "log_reachable conf s \<Longrightarrow> log_reachable conf (append_check l s)"
  by (rule log_reachable.step [OF _ log_step.check])

lemma push_reachable: "log_reachable conf s \<Longrightarrow> log_reachable conf (append_push i s)"
  by (rule log_reachable.step [OF _ log_step.push])

lemma stop_reachable: "log_reachable conf s \<Longrightarrow> log_reachable conf (log_stop s)"
  by (rule log_reachable.step [OF _ log_step.stop])

lemmas run_reachable = log_reachable.init thread_steps_reachable check_reachable push_reachable stop_reachable

definition logged_two :: log_state where
  "logged_two = thread_steps 5 sample_conf ''2024/01/01''
     (append_push 0 (append_push 0 (append_check ''b'' (append_check ''a'' (log_start sample_conf)))))"

lemma logged_two_reachable: "log_reachable sample_conf logged_two"
  unfolding logged_two_def by (intro run_reachable)

lemma log_keeps_lines_in_order_witness:
  "file_text logged_two = texts [''a'', ''b''] \<and> map fst (files logged_two) = [''log_0'']"
proof -
  have "log_pc logged_two = Testing" "nextBuffer logged_two = []" "currentBuffer logged_two = []"
    "pushed logged_two = [''a'', ''b'']" "suffix logged_two = 1" "show_nat 0 = ''0''" by code_simp+
  with log_keeps_lines_in_order [OF logged_two_reachable] show ?thesis by (simp add: sample_conf_def)
qed

text \<open>The date the daily rolling compares with is never updated: in every reachable state it is the date of the start, so once
  that day is over every single flush opens a new file. The log thread needs at most three steps for it.\<close>

lemma daily_rolling_never_settles:
  assumes "log_reachable conf s" "log_pc s = Rolling" "today \<noteq> startDate conf"
    "rollingRule conf \<in> {LOG_FILE_ROLLING_DAILY, LOG_FILE_ROLLING_SIZEDAILY}"
  shows "\<exists>n \<le> 3. log_pc (thread_steps n conf today s) = Testing \<and> currentDate (thread_steps n conf today s) = startDate conf \<and>
    map fst (files (thread_steps n conf today s)) = map fst (files s) @ [logfilename conf @ ''_'' @ show_nat (suffix s)]"
proof -
  note rules = LOG_FILE_ROLLING_NONE_def LOG_FILE_ROLLING_SIZE_def LOG_FILE_ROLLING_DAILY_def LOG_FILE_ROLLING_SIZEDAILY_def
  have d: "currentDate s = startDate conf" using log_inv_reachable [OF assms(1)] by (simp add: log_inv_def)
  show ?thesis
  proof (cases "rollingRule conf = LOG_FILE_ROLLING_DAILY")
    case True
    then have "roll conf today s = Opening" using assms(3) d by (simp add: roll_def rules)
    then show ?thesis using assms(2) d
      by (intro exI [of _ 2]) (simp add: numeral_2_eq_2 thread_step_def getNextLogFileName_def open_next_def)
  next
    case False
    then have "roll conf today s = Resetting" using assms(3,4) d by (simp add: roll_def rules)
    then show ?thesis using assms(2) d
      by (intro exI [of _ 3]) (simp add: numeral_3_eq_3 thread_step_def getNextLogFileName_def open_next_def)
  qed
qed

lemma daily_rolling_never_settles_witness:
  "\<exists>n \<le> 3. map fst (files (thread_steps n sample_conf ''2024/01/02'' (thread_steps 4 sample_conf ''2024/01/02''
     (append_push 0 (append_check ''a'' (log_start sample_conf)))))) = [''log_0'', ''log_1'']"
proof -
  let ?s = "thread_steps 4 sample_conf ''2024/01/02'' (append_push 0 (append_check ''a'' (log_start sample_conf)))"
  have "log_reachable sample_conf ?s" by (intro run_reachable)
  moreover have "log_pc ?s = Rolling" "map fst (files ?s) = [''log_0'']" "suffix ?s = 1" "show_nat 1 = ''1''" by code_simp+
  ultimately show ?thesis using daily_rolling_never_settles [of sample_conf ?s "''2024/01/02''"] by (auto simp: sample_conf_def)
qed

text \<open>stop() can lose lines. A line whose append has passed the test of _running before stop, but is pushed only after the
  log thread has written its last lines, stays in the buffer: no later run of the thread or of any other step writes it
  to a file.\<close>

lemma late_append_is_lost:
  assumes "log_reachable conf s" "log_pc s = Done" "l \<in> set (pending s)"
  shows "\<exists>i. l \<in> set (currentBuffer (append_push i s)) \<and> log_reachable conf (append_push i s) \<and>
    (\<forall>s'. (log_step conf)\<^sup>*\<^sup>* (append_push i s) s' \<longrightarrow> files s' = files s)"
proof -
  obtain i where i: "i < length (pending s)" "pending s ! i = l" using assms(3) by (auto simp: in_set_conv_nth)
  let ?s = "append_push i s"
  have start: "log_pc ?s = Done" "files ?s = files s" using assms(2) by (simp_all add: append_push_def)
  have "log_pc s' = Done \<and> files s' = files s" if "(log_step conf)\<^sup>*\<^sup>* ?s s'" for s'
    using that
  proof (induction rule: rtranclp_induct)
    case base
    then show ?case using start by simp
  next
    case (step y z)
    from step.hyps(2) step.IH show ?case
      by (cases rule: log_stepE) (auto simp: append_check_def append_push_def log_stop_def thread_step_def Let_def)
  qed
  moreover have "l \<in> set (currentBuffer ?s)" using i by (simp add: append_push_def)
  ultimately show ?thesis using push_reachable [OF assms(1)] by blast
qed

lemma late_append_is_lost_witness:
  "\<exists>i. ''x'' \<in> set (currentBuffer (append_push i (thread_steps 3 sample_conf [] (log_stop (append_check ''x'' (log_start sample_conf))))))"
proof -
  let ?s = "thread_steps 3 sample_conf [] (log_stop (append_check ''x'' (log_start sample_conf)))"
  have "log_reachable sample_conf ?s" by (intro run_reachable)
  moreover have "log_pc ?s = Done" "''x'' \<in> set (pending ?s)" by code_simp+
  ultimately show ?thesis using late_append_is_lost by blast
qed

end
