(* ===== verification/Server.thy ===== *)
theory Server
  imports Worker Async_Log
begin

text \<open>
  Class \<open>TcpServer\<close> of \<open>src/tcpServer.h\<close> and \<open>src/tcpServer.cpp\<close> (construction, load balancing, new connections, the
  periodic work, \<open>start\<close>) and the accept loop of \<open>src/acceptor.cpp\<close>. The workers are the list \<open>threadPool\<close>; the static
  variables of the functions are fields. The results of \<open>accept\<close>, \<open>fcntl\<close>, \<open>rand\<close>, the clock and the memory use
  are arguments, and so is \<open>std::hash\<close>. The loops \<open>while(true)\<close> of the acceptor and the workers are modelled by
  their rounds; \<open>Whole_Server\<close> interleaves them.
\<close>

section \<open>The server\<close>

record server =
  cfg :: config
  threadPool :: "worker list"
  exceedMaxMemory :: bool
  timeString :: string
  rr_index :: int
  last_id :: "64 word"
  logger :: log_conf

text \<open>The settings of the logger. The two members that its constructor leaves alone are 0 here; they are set before they
  are used.\<close>

definition logger_setup :: "config \<Rightarrow> string \<Rightarrow> log_conf res" where
  "logger_setup c today =
     (let l0 = AsyncLogging_new [] 5 100 today 0 0; l1 = setName (log_file_name_prefix c) l0 in
     bind_res (get_set (log_flush_interval_second c)) (\<lambda>flush. let l2 = setFlushInterval flush l1 in
     bind_res (get_set (log_high_watermask c)) (\<lambda>wm. let l3 = setHighWaterMask wm l2 in
     bind_res (get_set (log_file_rolling c)) (\<lambda>rule. let l4 = setRolling rule l3 in
     bind_res (get_set (log_file_max_size_bytes c)) (\<lambda>bytes. Inr (setLogFileMaxSize bytes l4))))))"

text \<open>The constructor; \<open>file\<close> is the content of \<open>yeyj.config\<close>, if it can be opened.\<close>

definition TcpServer_new :: "string option \<Rightarrow> tm \<Rightarrow> server res" where
  "TcpServer_new file now =
     bind_res (loadConfig file config_unset) (\<lambda>c.
     bind_res (updateTime now) (\<lambda>ts.
     bind_res (logger_setup c (getDateAsString now)) (\<lambda>l.
       Inr \<lparr>cfg = c, threadPool = [], exceedMaxMemory = False, timeString = ts, rr_index = 0, last_id = 0, logger = l\<rparr>)))"

definition checkMaxMemory :: "rat \<Rightarrow> rat \<Rightarrow> server \<Rightarrow> server res" where
  "checkMaxMemory vm_usage resident_set s =
     bind_res (get_set (max_vm_kb (cfg s))) (\<lambda>vm.
     bind_res (if vm_usage > of_int vm then Inr True
       else bind_res (get_set (max_rss_kb (cfg s))) (\<lambda>rss. Inr (resident_set > of_int rss))) (\<lambda>b.
       Inr (s\<lparr>exceedMaxMemory := b\<rparr>)))"

definition serverCron :: "tm \<Rightarrow> rat \<Rightarrow> rat \<Rightarrow> server \<Rightarrow> server res" where
  "serverCron now vm_usage resident_set s =
     bind_res (updateTime now) (\<lambda>ts. checkMaxMemory vm_usage resident_set (s\<lparr>timeString := ts\<rparr>))"

text \<open>\<open>start(n)\<close> up to the accept loop. The loop appends a worker and then configures \<open>_threadPool[i]\<close>, which is the same one
  only when the pool was empty. Starting the threads is \<open>start_threads\<close> of the theory \<open>Program\<close>.\<close>

fun start_loop :: "nat \<Rightarrow> nat \<Rightarrow> int \<Rightarrow> worker list \<Rightarrow> worker list" where
  "start_loop 0 i mc pool = pool"
| "start_loop (Suc k) i mc pool =
     (let pool' = pool @ [Worker_new] in start_loop k (i + 1) mc (pool'[i := setMaxConnection mc (pool' ! i)]))"

definition server_start :: "int \<Rightarrow> server \<Rightarrow> server res" where
  "server_start n s =
     bind_res (get_set (max_tcp (cfg s))) (\<lambda>mt.
     bind_res (c_div mt n) (\<lambda>q.
     bind_res (get_set (max_tcp_per_worker (cfg s))) (\<lambda>pw.
       let m = min pw q; mc = (if m \<le> 0 then 1 else m)
       in Inr (s\<lparr>threadPool := start_loop (nat n) 0 mc (threadPool s)\<rparr>))))"

lemma start_loop_step:
  "start_loop k (length ds) mc (ds @ old @ rest) = ds @ start_loop k 0 mc (old @ rest)"
proof (induction k arbitrary: ds old rest)
  case (Suc k)
  show ?case
  proof (cases "old @ rest")
    case Nil
    then show ?thesis using Suc.IH [of ds "[setMaxConnection mc Worker_new]" "[]"]
      Suc.IH [of "ds @ [setMaxConnection mc Worker_new]" "[]" "[]"] Suc.IH [of "[setMaxConnection mc Worker_new]" "[]" "[]"] by simp
  next
    case (Cons w ws)
    then show ?thesis
      using Suc.IH [of "ds @ [setMaxConnection mc w]" ws "[Worker_new]"] Suc.IH [of "[setMaxConnection mc w]" ws "[Worker_new]"]
      by (simp add: list_update_append)
  qed
qed simp

lemma start_loop_0:
  "start_loop (Suc k) 0 mc [] = setMaxConnection mc Worker_new # start_loop k 0 mc []"
  "start_loop (Suc k) 0 mc (w # ws) = setMaxConnection mc w # start_loop k 0 mc (ws @ [Worker_new])"
  using start_loop_step [of k "[setMaxConnection mc Worker_new]" mc "[]" "[]"]
    start_loop_step [of k "[setMaxConnection mc w]" mc ws "[Worker_new]"] by simp_all

lemma start_loop_fresh: "start_loop k 0 mc [] = replicate k (setMaxConnection mc Worker_new)"
  by (induction k) (simp_all only: start_loop.simps(1) start_loop_0 replicate.simps)

lemma start_loop_old: "length ws = k \<Longrightarrow> start_loop k 0 mc (ws @ replicate m Worker_new) = map (setMaxConnection mc) ws @ replicate (m + k) Worker_new"
proof (induction k arbitrary: ws m)
  case (Suc k)
  then obtain v vs where v: "ws = v # vs" "length vs = k" by (cases ws) auto
  have "(vs @ replicate m Worker_new) @ [Worker_new] = vs @ replicate (Suc m) Worker_new" by (simp add: replicate_append_same)
  then show ?case using v Suc.IH [of vs "Suc m"] by (simp only: append_Cons start_loop_0 list.map add_Suc_right add_Suc)
qed simp

section \<open>Load balancing\<close>

text \<open>Each function gives the index of the chosen worker. A \<open>size_t\<close> modulo zero traps.\<close>

definition size_mod :: "64 word \<Rightarrow> nat \<Rightarrow> nat res" where
  "size_mod x n = (if n = 0 then Inl Div_By_Zero else Inr (unat x mod n))"

definition loadBalanceRoundRobin :: "server \<Rightarrow> (nat \<times> server) res" where
  "loadBalanceRoundRobin s =
     bind_res (c_int (rr_index s + 1)) (\<lambda>i.
     bind_res (size_mod (word_of_int (rr_index s)) (length (threadPool s))) (\<lambda>k. Inr (k, s\<lparr>rr_index := i\<rparr>)))"

definition loadBalanceRandom :: "int \<Rightarrow> server \<Rightarrow> (nat \<times> server) res" where
  "loadBalanceRandom r s =
     bind_res (size_mod (word_of_int r) (length (threadPool s))) (\<lambda>k. Inr (k, s))"

fun min_loop :: "worker list \<Rightarrow> nat \<Rightarrow> nat \<Rightarrow> int \<Rightarrow> nat" where
  "min_loop [] i index connections = index"
| "min_loop (w # ws) i index connections =
     (if getConnectionNum w < connections then min_loop ws (i + 1) i (getConnectionNum w)
      else min_loop ws (i + 1) index connections)"

definition loadBalanceMinConnection :: "server \<Rightarrow> (nat \<times> server) res" where
  "loadBalanceMinConnection s = (case threadPool s of
       [] \<Rightarrow> Inl Out_Of_Bounds
     | w # ws \<Rightarrow> Inr (min_loop ws 1 0 (getConnectionNum w), s))"

definition loadBalanceIPHash :: "(32 word \<Rightarrow> 64 word) \<Rightarrow> 32 word \<Rightarrow> server \<Rightarrow> (nat \<times> server) res" where
  "loadBalanceIPHash iphash ip s = bind_res (size_mod (iphash ip) (length (threadPool s))) (\<lambda>k. Inr (k, s))"

text \<open>\<open>_loadBalance(ip)\<close>; \<open>r\<close> is what \<open>rand()\<close> returns.\<close>

definition load_balance :: "(32 word \<Rightarrow> 64 word) \<Rightarrow> int \<Rightarrow> 32 word \<Rightarrow> server \<Rightarrow> (nat \<times> server) res" where
  "load_balance iphash r ip s = (case loadBalance (cfg s) of
       None \<Rightarrow> Inl Bad_Function_Call
     | Some RoundRobin \<Rightarrow> loadBalanceRoundRobin s
     | Some Random \<Rightarrow> loadBalanceRandom r s
     | Some MinConnection \<Rightarrow> loadBalanceMinConnection s
     | Some IPHash \<Rightarrow> loadBalanceIPHash iphash ip s)"

section \<open>New connections\<close>

text \<open>What the system answers while one connection is taken over.\<close>

record accept_env =
  ae_rand :: int
  ae_flags :: int
  ae_setfl :: int
  ae_time :: int

definition newConnection :: "(32 word \<Rightarrow> 64 word) \<Rightarrow> accept_env \<Rightarrow> int \<Rightarrow> sockaddr_in \<Rightarrow> server \<Rightarrow> server res" where
  "newConnection iphash e connSock peer s =
     bind_res (load_balance iphash (ae_rand e) (getIP peer) s) (\<lambda>(k, s1).
     bind_res (rd (threadPool s1) (int k)) (\<lambda>w.
     let i = last_id s1 + 1 in
     bind_res (get_set (tcp_read_buffer_init_size_bytes (cfg s1))) (\<lambda>rinit.
     bind_res (get_set (tcp_read_buffer_max_size_bytes (cfg s1))) (\<lambda>rmax.
     bind_res (get_set (tcp_write_buffer_init_size_bytes (cfg s1))) (\<lambda>winit.
     bind_res (get_set (tcp_write_buffer_max_size_bytes (cfg s1))) (\<lambda>wmax.
     bind_res (TcpConnection_new i connSock peer rinit rmax winit wmax (ae_flags e) (ae_setfl e) (ae_time e)) (\<lambda>c.
       Inr (s1\<lparr>last_id := i, threadPool := (threadPool s1)[k := push_connection c w]\<rparr>))))))))"

text \<open>One readable event of the listening socket: \<open>accept\<close> until it fails. The list gives what the calls return; when it
  is used up, \<open>EAGAIN\<close>.\<close>

datatype accept_result = Accepted int sockaddr_in accept_env | AcceptError int

definition EINTR :: int where "EINTR = 4"
definition EPROTO :: int where "EPROTO = 71"
definition ECONNABORTED :: int where "ECONNABORTED = 103"
definition EMFILE :: int where "EMFILE = 24"

fun accept_loop :: "(32 word \<Rightarrow> 64 word) \<Rightarrow> accept_result list \<Rightarrow> server \<Rightarrow> (server \<times> accept_result list) res" where
  "accept_loop iphash [] s = Inr (s, [])"
| "accept_loop iphash (AcceptError e # rs) s =
     (if e = EAGAIN \<or> e = ECONNABORTED \<or> e = EPROTO \<or> e = EINTR then Inr (s, rs) else Inl Assert_Failed)"
| "accept_loop iphash (Accepted fd peer env # rs) s =
     bind_res (newConnection iphash env fd peer s) (accept_loop iphash rs)"

text \<open>A round of \<open>Acceptor::start\<close>: \<open>nfds\<close> is what \<open>epoll_wait\<close> returns.\<close>

definition acceptor_round :: "(32 word \<Rightarrow> 64 word) \<Rightarrow> int \<Rightarrow> accept_result list \<Rightarrow> tm \<Rightarrow> rat \<Rightarrow> rat \<Rightarrow> server \<Rightarrow>
    (server \<times> accept_result list) res" where
  "acceptor_round iphash nfds rs now vm_usage resident_set s =
     bind_res (if nfds = 1 then accept_loop iphash rs s else Inr (s, rs)) (\<lambda>(s1, rest).
     bind_res (serverCron now vm_usage resident_set s1) (\<lambda>s2. Inr (s2, rest)))"

section \<open>Facts\<close>

lemma min_loop_spec:
  assumes "index < i" "connections = nums ! index" "\<forall>j < i. connections \<le> nums ! j" "\<forall>j < index. connections < nums ! j"
    "length nums = i + length ws" "\<forall>j < length ws. getConnectionNum (ws ! j) = nums ! (i + j)"
  shows "min_loop ws i index connections < length nums \<and>
    (\<forall>j < length nums. nums ! (min_loop ws i index connections) \<le> nums ! j) \<and>
    (\<forall>j < min_loop ws i index connections. nums ! (min_loop ws i index connections) < nums ! j)"
  using assms
proof (induction ws arbitrary: i index connections)
  case Nil
  then show ?case by simp
next
  case (Cons w ws)
  have w: "getConnectionNum w = nums ! i" using Cons.prems(6) by force
  have tl: "\<forall>j < length ws. getConnectionNum (ws ! j) = nums ! (Suc i + j)" using Cons.prems(6) by force
  show ?case
  proof (cases "getConnectionNum w < connections")
    case True
    have "\<forall>j < Suc i. getConnectionNum w \<le> nums ! j" "\<forall>j < i. getConnectionNum w < nums ! j"
      using True Cons.prems(3) w by (force simp: less_Suc_eq)+
    with Cons.IH [of i "Suc i" "getConnectionNum w"] True Cons.prems(5) tl w show ?thesis by simp
  next
    case False
    then have "\<forall>j < Suc i. connections \<le> nums ! j" using Cons.prems(3) w by (force simp: less_Suc_eq)
    with Cons.IH [of index "Suc i" connections] False Cons.prems tl show ?thesis by simp
  qed
qed

lemma size_mod_lt: "0 < n \<Longrightarrow> \<exists>k. size_mod x n = Inr k \<and> k < n"
  by (simp add: size_mod_def)

lemma load_balance_in_range:
  assumes "threadPool s \<noteq> []" "loadBalance (cfg s) \<noteq> None" "0 \<le> rr_index s" "rr_index s < INT_MAX"
  shows "\<exists>k i. load_balance iphash r ip s = Inr (k, s\<lparr>rr_index := i\<rparr>) \<and> k < length (threadPool s) \<and>
    0 \<le> i \<and> i \<le> rr_index s + 1"
proof -
  obtain b where b: "loadBalance (cfg s) = Some b" using assms(2) by auto
  have n: "0 < length (threadPool s)" using assms(1) by simp
  have same: "s\<lparr>rr_index := rr_index s\<rparr> = s" by simp
  have c: "c_int (rr_index s + 1) = Inr (rr_index s + 1)" using assms(3,4) by (intro c_int_nonneg) simp_all
  show ?thesis
  proof (cases b)
    case RoundRobin
    then show ?thesis using b c size_mod_lt [OF n] assms(3)
      by (auto simp: load_balance_def loadBalanceRoundRobin_def size_mod_def n)
  next
    case Random
    then show ?thesis using b n assms(3)
      by (intro exI [of _ "unat (word_of_int r :: 64 word) mod length (threadPool s)"] exI [of _ "rr_index s"])
        (simp add: load_balance_def loadBalanceRandom_def size_mod_def)
  next
    case MinConnection
    obtain w ws where ws: "threadPool s = w # ws" using assms(1) by (cases "threadPool s") auto
    have "min_loop ws 1 0 (getConnectionNum w) < length (threadPool s)"
      using min_loop_spec [of 0 1 "getConnectionNum w" "map getConnectionNum (threadPool s)" ws] ws by simp
    then show ?thesis using b MinConnection ws assms(3)
      by (intro exI [of _ "min_loop ws 1 0 (getConnectionNum w)"] exI [of _ "rr_index s"])
        (simp add: load_balance_def loadBalanceMinConnection_def)
  next
    case IPHash
    then show ?thesis using b n assms(3)
      by (intro exI [of _ "unat (iphash ip) mod length (threadPool s)"] exI [of _ "rr_index s"])
        (simp add: load_balance_def loadBalanceIPHash_def size_mod_def)
  qed
qed

section \<open>The invariant of the server\<close>

text \<open>Every worker keeps its invariant; no two connections of the server have the same id or descriptor; and no connection has
  an id above the last one given.\<close>

definition server_ids :: "server \<Rightarrow> 64 word list" where
  "server_ids s = concat (map (\<lambda>w. map conn_id (heap w)) (threadPool s))"

definition server_fds :: "server \<Rightarrow> int list" where
  "server_fds s = concat (map (\<lambda>w. map connfd (heap w)) (threadPool s))"

definition server_inv :: "(64 word \<Rightarrow> 64 word) \<Rightarrow> (connection \<Rightarrow> bool) \<Rightarrow> server \<Rightarrow> bool" where
  "server_inv hf G s \<longleftrightarrow> 0 \<le> rr_index s \<and>
     (\<forall>w \<in> set (threadPool s). worker_ok hf G w \<and> (\<forall>c \<in> set (heap w). conn_id c \<le> last_id s)) \<and>
     distinct (server_ids s) \<and> distinct (server_fds s)"

lemma mset_concat_update:
  "k < length xs \<Longrightarrow> f y = f (xs ! k) @ [z] \<Longrightarrow>
   mset (concat (map f (xs[k := y]))) = mset (z # concat (map f xs))"
proof (induction xs arbitrary: k)
  case (Cons x xs)
  then show ?case by (cases k) simp_all
qed simp

lemma distinct_concat_update:
  assumes "k < length xs" "f y = f (xs ! k) @ [z]" "distinct (concat (map f xs))" "z \<notin> set (concat (map f xs))"
  shows "distinct (concat (map f (xs[k := y])))"
  using mset_eq_imp_distinct_iff [OF mset_concat_update [OF assms(1,2)]] assms(3,4) by simp

lemma set_concat_update:
  assumes "k < length xs" "f y = f (xs ! k) @ [z]"
  shows "set (concat (map f (xs[k := y]))) = insert z (set (concat (map f xs)))"
  using arg_cong [OF mset_concat_update [OF assms], of set_mset] by simp

text \<open>Buffer sizes with which every connection starts well-formed.\<close>

definition buffer_config :: "config \<Rightarrow> bool" where
  "buffer_config c \<longleftrightarrow> (\<exists>ri rm wi wm. tcp_read_buffer_init_size_bytes c = Some ri \<and> tcp_read_buffer_max_size_bytes c = Some rm \<and>
     tcp_write_buffer_init_size_bytes c = Some wi \<and> tcp_write_buffer_max_size_bytes c = Some wm \<and>
     2 \<le> ri \<and> ri \<le> rm \<and> rm \<le> 2 ^ 29 \<and> 2 \<le> wi \<and> wi \<le> wm \<and> wm \<le> 2 ^ 29)"

definition env_ok :: "accept_env \<Rightarrow> bool" where
  "env_ok e \<longleftrightarrow> 0 \<le> ae_flags e \<and> 0 \<le> ae_setfl e \<and> INT_time (ae_time e)"

lemma push_connection_ok:
  assumes ok: "worker_ok hf G w" and c: "G c" "INT_time (lastActiveTime c)" "\<not> conn_closed c"
    and fresh: "\<forall>b \<in> set (heap w). conn_id b < conn_id c \<and> connfd b \<noteq> connfd c"
  shows "worker_ok hf G (push_connection c w)"
proof -
  let ?w = "push_connection c w"
  have h: "heap ?w = heap w @ [c]" "pool_map ?w = pool_map w"
    "incomingConnection ?w = incomingConnection w @ [Some (length (heap w))]" "connectionPool ?w = connectionPool w"
    by (simp_all add: push_connection_def enqueue_connection_def pool_map_def)
  note d = worker_invD [OF ok]
  have old: "heap ?w ! b = heap w ! b" if "b < length (heap w)" for b using that h(1) by (simp add: nth_append)
  have new: "pool_map w (conn_id c) = None"
  proof (rule ccontr)
    assume "pool_map w (conn_id c) \<noteq> None"
    then obtain p where "pool_map w (conn_id c) = Some p" by auto
    with d(2) obtain b where "b < length (heap w)" "conn_id (heap w ! b) = conn_id c" by (auto elim: pool_okE)
    with fresh show False by (metis less_irrefl nth_mem)
  qed
  have "pool_ok {} ?w" unfolding pool_ok_def
  proof (intro allI impI)
    fix k p assume "pool_map ?w k = Some p"
    then have "pool_map w k = Some p" using h(2) by simp
    with d(2) obtain b where "p = Some b" "b < length (heap w)" "conn_id (heap w ! b) = k" "\<not> conn_closed (heap w ! b)"
      by (auto elim: pool_okE)
    with old h(1) show "\<exists>b. p = Some b \<and> b < length (heap ?w) \<and> conn_id (heap ?w ! b) = k \<and>
        (conn_closed (heap ?w ! b) \<longrightarrow> b \<in> {})" by auto
  qed
  moreover have "queue_ok {} ?w"
  proof -
    from d(3) obtain as where as: "incomingConnection w = map Some as" by (auto simp: queue_ok_def)
    note q = queue_okD [OF d(3) as]
    let ?as = "as @ [length (heap w)]"
    have ids: "conn_id (heap w ! b) \<noteq> conn_id c" if "b \<in> set as" for b
      using that q(1) fresh by (metis less_irrefl nth_mem)
    have mp: "map (\<lambda>b. conn_id (heap ?w ! b)) as = map (\<lambda>b. conn_id (heap w ! b)) as" using q(1) old by simp
    have "conn_id (heap ?w ! length (heap w)) = conn_id c" using h(1) by simp
    then have me: "map (\<lambda>b. conn_id (heap ?w ! b)) ?as = map (\<lambda>b. conn_id (heap w ! b)) as @ [conn_id c]"
      using mp by simp
    have "conn_id c \<notin> set (map (\<lambda>b. conn_id (heap w ! b)) as)"
    proof
      assume "conn_id c \<in> set (map (\<lambda>b. conn_id (heap w ! b)) as)"
      then obtain b where "b \<in> set as" "conn_id (heap w ! b) = conn_id c" by auto
      with ids show False by blast
    qed
    then have "distinct (map (\<lambda>b. conn_id (heap w ! b)) as @ [conn_id c])" using q(2) by simp
    then have "distinct (map (\<lambda>b. conn_id (heap ?w ! b)) ?as)" unfolding me .
    moreover have "\<forall>b \<in> set ?as. b < length (heap ?w) \<and> b \<notin> {} \<and> \<not> conn_closed (heap ?w ! b) \<and>
        pool_map ?w (conn_id (heap ?w ! b)) = None" using q(1) old h c(3) new by auto
    moreover have "incomingConnection ?w = map Some ?as" using h(3) as by simp
    ultimately show ?thesis unfolding queue_ok_def by blast
  qed
  moreover have "watch_ok ?w"
  proof -
    have "conn_id c \<notin> set (map conn_id (heap w))" "connfd c \<notin> set (map connfd (heap w))" using fresh by auto
    then have "distinct (map conn_id (heap ?w))" "distinct (map connfd (heap ?w))"
      using d(6) h(1) by (simp_all add: watch_ok_def)
    moreover have "interest ?w = interest w" by (simp add: push_connection_def enqueue_connection_def)
    moreover have "{connfd (heap ?w ! a) | a. a < length (heap ?w) \<and> pool_map ?w (conn_id (heap ?w ! a)) = Some (Some a)} =
        {connfd (heap w ! a) | a. a < length (heap w) \<and> pool_map w (conn_id (heap w ! a)) = Some (Some a)}"
      using new unfolding h by (intro Collect_cong ex_cong1) (auto simp: nth_append less_Suc_eq)
    ultimately show ?thesis using d(6) by (simp add: watch_ok_def)
  qed
  moreover have "\<forall>b < length (heap ?w). G (heap ?w ! b) \<and> INT_time (lastActiveTime (heap ?w ! b))"
    using d(4,5) c(1,2) h(1) by (auto simp: less_Suc_eq nth_append)
  ultimately show ?thesis using d(1) h(4) by (simp add: worker_inv_def)
qed

lemma newConnection_ok:
  assumes inv: "server_inv hf echo_ready s" and cfg: "buffer_config (cfg s)" "loadBalance (cfg s) \<noteq> None" "threadPool s \<noteq> []"
    and rr: "rr_index s < INT_MAX" and ids: "last_id s < NO_ID" and e: "env_ok e"
    and fd: "fd \<notin> set (server_fds s)"
  shows "\<exists>s' k c. newConnection iphash e fd peer s = Inr s' \<and> server_inv hf echo_ready s' \<and> cfg s' = cfg s \<and>
    k < length (threadPool s) \<and> threadPool s' = (threadPool s)[k := push_connection c (threadPool s ! k)] \<and>
    conn_id c = last_id s + 1 \<and> last_id s' = last_id s + 1 \<and> rr_index s' \<le> rr_index s + 1 \<and>
    set (server_fds s') = insert fd (set (server_fds s)) \<and>
    (\<forall>w \<in> set (threadPool s). \<forall>b \<in> set (heap w). conn_id b < conn_id c \<and> connfd b \<noteq> connfd c) \<and>
    echo_ready c \<and> INT_time (lastActiveTime c) \<and> \<not> conn_closed c \<and> timeString s' = timeString s \<and>
    exceedMaxMemory s' = exceedMaxMemory s"
proof -
  have rr0: "0 \<le> rr_index s" using inv by (simp add: server_inv_def)
  obtain k i where k: "load_balance iphash (ae_rand e) (getIP peer) s = Inr (k, s\<lparr>rr_index := i\<rparr>)"
    "k < length (threadPool s)" "0 \<le> i" "i \<le> rr_index s + 1"
    using load_balance_in_range [OF cfg(3,2) rr0 rr] by blast
  obtain ri rm wi wm where b: "tcp_read_buffer_init_size_bytes (cfg s) = Some ri"
    "tcp_read_buffer_max_size_bytes (cfg s) = Some rm" "tcp_write_buffer_init_size_bytes (cfg s) = Some wi"
    "tcp_write_buffer_max_size_bytes (cfg s) = Some wm"
    "2 \<le> ri" "ri \<le> rm" "rm \<le> 2 ^ 29" "2 \<le> wi" "wi \<le> wm" "wm \<le> 2 ^ 29" using cfg(1) by (auto simp: buffer_config_def)
  have le: "rm \<le> 2 ^ 30" "wm \<le> 2 ^ 30" using b(7,10) by simp_all
  let ?id = "last_id s + 1"
  obtain c where c: "TcpConnection_new ?id fd peer ri rm wi wm (ae_flags e) (ae_setfl e) (ae_time e) = Inr c"
    "conn_ok c" "inbox c = []" "conn_id c = ?id" "\<not> conn_closed c" "maxSize (readBuffer c) = rm"
    "maxSize (writeBuffer c) = wm" "lastActiveTime c = ae_time e" "connfd c = fd"
    using TcpConnection_new_fields [OF b(5,6) le(1) b(8,9) le(2), of "ae_flags e" "ae_setfl e" ?id fd peer "ae_time e"] e
    by (auto simp: env_ok_def)
  have lt: "last_id s < ?id"
  proof -
    have "NO_ID = - 1" by (simp add: NO_ID_def)
    then have "last_id s \<noteq> - 1" using ids by auto
    then have "last_id s + 1 \<noteq> 0" by (simp add: eq_neg_iff_add_eq_0)
    then show ?thesis using unatSuc [of "last_id s"] by (simp add: word_less_nat_alt add.commute)
  qed
  let ?w = "threadPool s ! k"
  have w: "worker_ok hf echo_ready ?w" "\<forall>b \<in> set (heap ?w). conn_id b \<le> last_id s"
    using inv nth_mem [OF k(2)] unfolding server_inv_def by blast+
  have "worker_ok hf echo_ready (push_connection c ?w)"
  proof (rule push_connection_ok [OF w(1)])
    show "echo_ready c" using c(2,3,6,7) b(7,10) by (simp add: echo_ready_def)
    show "INT_time (lastActiveTime c)" using c(8) e by (simp add: env_ok_def)
    show "\<not> conn_closed c" by fact
    have "connfd b \<noteq> fd" if "b \<in> set (heap ?w)" for b
      using that fd nth_mem [OF k(2)] by (auto simp: server_fds_def)
    then show "\<forall>b \<in> set (heap ?w). conn_id b < conn_id c \<and> connfd b \<noteq> connfd c" using w(2) lt c(4,9) by auto
  qed
  moreover have heap: "heap (push_connection c ?w) = heap ?w @ [c]" by (simp add: push_connection_def enqueue_connection_def)
  moreover have "conn_id b \<le> ?id" if "w \<in> set (threadPool s)" "b \<in> set (heap w)" for w b
    using inv that lt by (meson less_imp_le order_trans server_inv_def)
  moreover have "conn_id b \<le> ?id" if "b \<in> set (heap ?w)" for b using w(2) that lt by (meson less_imp_le order_trans)
  moreover have "distinct (concat (map (\<lambda>w. map conn_id (heap w)) ((threadPool s)[k := push_connection c ?w])))"
  proof (rule distinct_concat_update [where z = ?id, OF k(2)])
    show "?id \<notin> set (concat (map (\<lambda>w. map conn_id (heap w)) (threadPool s)))"
      using inv lt unfolding server_inv_def by fastforce
  qed (use heap c(4) inv in \<open>simp_all add: server_inv_def server_ids_def\<close>)
  moreover have "distinct (concat (map (\<lambda>w. map connfd (heap w)) ((threadPool s)[k := push_connection c ?w])))"
    by (rule distinct_concat_update [where z = fd, OF k(2)])
      (use heap c(9) inv fd in \<open>simp_all add: server_inv_def server_fds_def\<close>)
  ultimately have "server_inv hf echo_ready (s\<lparr>rr_index := i, last_id := ?id, threadPool := (threadPool s)[k := push_connection c ?w]\<rparr>)"
    using inv k(2,3) c(4)
    by (auto simp: server_inv_def server_ids_def server_fds_def dest!: set_update_subset_insert [THEN subsetD])
  moreover have "set (server_fds (s\<lparr>rr_index := i, last_id := ?id, threadPool := (threadPool s)[k := push_connection c ?w]\<rparr>)) =
      insert fd (set (server_fds s))"
    using set_concat_update [OF k(2), of "\<lambda>w. map connfd (heap w)" "push_connection c ?w" fd] heap c(9)
    unfolding server_fds_def by simp
  moreover have "newConnection iphash e fd peer s =
      Inr (s\<lparr>rr_index := i, last_id := ?id, threadPool := (threadPool s)[k := push_connection c ?w]\<rparr>)"
    using k(1,2) b c(1) by (simp add: newConnection_def rd_def)
  moreover have "\<forall>w \<in> set (threadPool s). \<forall>b \<in> set (heap w). conn_id b < conn_id c \<and> connfd b \<noteq> connfd c"
  proof (intro ballI conjI)
    fix w b assume b: "w \<in> set (threadPool s)" "b \<in> set (heap w)"
    then have "conn_id b \<le> last_id s" using inv unfolding server_inv_def by blast
    then show "conn_id b < conn_id c" using lt c(4) by simp
    have "connfd b \<in> set (server_fds s)" using b by (auto simp: server_fds_def)
    then show "connfd b \<noteq> connfd c" using fd c(9) by auto
  qed
  moreover have "echo_ready c" "INT_time (lastActiveTime c)"
    using c(2,3,6,7,8) b(7,10) e by (simp_all add: echo_ready_def env_ok_def)
  ultimately show ?thesis using k(2,4) c(4,5)
    by (intro exI [of _ "s\<lparr>rr_index := i, last_id := ?id, threadPool := (threadPool s)[k := push_connection c ?w]\<rparr>"]
        exI [of _ k] exI [of _ c] conjI) (assumption | simp (no_asm_simp))+
qed


text \<open>Several connections, one after the other.\<close>

fun new_connections :: "(32 word \<Rightarrow> 64 word) \<Rightarrow> (accept_env \<times> int \<times> sockaddr_in) list \<Rightarrow> server \<Rightarrow> server res" where
  "new_connections iphash [] s = Inr s"
| "new_connections iphash ((e, fd, peer) # xs) s = bind_res (newConnection iphash e fd peer s) (new_connections iphash xs)"

fun picks :: "nat \<Rightarrow> server \<Rightarrow> (nat list \<times> server) res" where
  "picks 0 s = Inr ([], s)"
| "picks (Suc n) s = bind_res (loadBalanceRoundRobin s) (\<lambda>(k, s1). bind_res (picks n s1) (\<lambda>(ks, s2). Inr (k # ks, s2)))"

lemma picks_eq:
  assumes "threadPool s \<noteq> []" "rr_index s = int i" "int i + int n \<le> INT_MAX"
  shows "picks n s = Inr (map (\<lambda>j. j mod length (threadPool s)) [i..<i + n], s\<lparr>rr_index := int (i + n)\<rparr>)"
  using assms
proof (induction n arbitrary: s i)
  case 0
  then have "s\<lparr>rr_index := int i\<rparr> = s" by simp
  then show ?case by simp
next
  case (Suc n)
  have "c_int (int i + 1) = Inr (int i + 1)" using Suc.prems(3) by (intro c_int_nonneg) simp_all
  moreover have "unat (word_of_int (int i) :: 64 word) = i" using Suc.prems(3)
    by (simp add: unat_of_nat64 INT_MAX_def)
  ultimately have "loadBalanceRoundRobin s = Inr (i mod length (threadPool s), s\<lparr>rr_index := int (Suc i)\<rparr>)"
    using Suc.prems(1,2) by (simp add: loadBalanceRoundRobin_def size_mod_def add.commute)
  moreover have "picks n (s\<lparr>rr_index := int (Suc i)\<rparr>) =
      Inr (map (\<lambda>j. j mod length (threadPool s)) [Suc i..<Suc i + n], s\<lparr>rr_index := int (Suc i + n)\<rparr>)"
    using Suc.IH [of "s\<lparr>rr_index := int (Suc i)\<rparr>" "Suc i"] Suc.prems by simp
  moreover have "[i..<i + Suc n] = i # [Suc i..<Suc i + n]" by (simp add: upt_conv_Cons)
  ultimately show ?case by simp
qed

lemma count_list_distinct: "distinct xs \<Longrightarrow> k \<in> set xs \<Longrightarrow> count_list xs k = 1"
  by (induction xs) auto

lemma count_mod_range:
  assumes "k < m"
  shows "count_list (map (\<lambda>j. j mod m) [i..<i + m]) k = 1"
proof -
  have "distinct (map (\<lambda>j. j mod m) [i..<i + m])"
  proof (unfold distinct_map, intro conjI inj_onI)
    fix x y assume x: "x \<in> set [i..<i + m]" and y: "y \<in> set [i..<i + m]" and eq: "x mod m = y mod m"
    show "x = y"
    proof (rule ccontr)
      assume "x \<noteq> y"
      then consider "x < y" | "y < x" by linarith
      then show False
      proof cases
        case 1
        then have "m dvd y - x" using eq mod_eq_dvd_iff_nat [of x y m] by simp
        then have "m \<le> y - x" using 1 by (intro dvd_imp_le) simp_all
        then show False using x y 1 by simp
      next
        case 2
        then have "m dvd x - y" using eq mod_eq_dvd_iff_nat [of y x m] by simp
        then have "m \<le> x - y" using 2 by (intro dvd_imp_le) simp_all
        then show False using x y 2 by simp
      qed
    qed
  qed simp
  moreover have "set (map (\<lambda>j. j mod m) [i..<i + m]) = {..<m}"
  proof (rule card_subset_eq)
    show "set (map (\<lambda>j. j mod m) [i..<i + m]) \<subseteq> {..<m}" using assms by auto
    have "card (set (map (\<lambda>j. j mod m) [i..<i + m])) = m"
      using distinct_card [OF calculation] by simp
    then show "card (set (map (\<lambda>j. j mod m) [i..<i + m])) = card {..<m}" by simp
  qed simp
  ultimately show ?thesis using assms by (simp add: count_list_distinct)
qed

lemma count_rounds:
  "k < m \<Longrightarrow> count_list (map (\<lambda>j. j mod m) [i..<i + r * m]) k = r"
proof (induction r arbitrary: i)
  case (Suc r)
  have "[i..<i + Suc r * m] = [i..<i + m] @ [i + m..<(i + m) + r * m]"
    using upt_add_eq_append [of i "i + m" "r * m"] by (simp add: add.assoc)
  then show ?case using Suc.IH [OF Suc.prems, of "i + m"] count_mod_range [OF Suc.prems, of i]
    by (simp add: count_list_append)
qed simp

section \<open>Properties\<close>

text \<open>C18: Taking over any number of accepted connections keeps the invariant of every worker, and gives every connection an id
  that no connection of any worker has had. It needs the balancing and buffer settings, at least one worker,
  fewer than 2^31 connections in all, and that the system gives no descriptor twice (none is ever closed).\<close>

theorem new_connections_keep_invariant:
  assumes "server_inv hf echo_ready s" "buffer_config (cfg s)" "loadBalance (cfg s) \<noteq> None" "threadPool s \<noteq> []"
    "rr_index s + int (length xs) \<le> INT_MAX" "unat (last_id s) + length xs < 2 ^ 64" "\<forall>x \<in> set xs. env_ok (fst x)"
    "distinct (map (\<lambda>x. fst (snd x)) xs)" "\<forall>x \<in> set xs. fst (snd x) \<notin> set (server_fds s)"
  shows "\<exists>s'. new_connections iphash xs s = Inr s' \<and> server_inv hf echo_ready s' \<and>
    unat (last_id s') = unat (last_id s) + length xs \<and>
    length (threadPool s') = length (threadPool s) \<and>
    sum_list (map (\<lambda>w. length (heap w)) (threadPool s')) = sum_list (map (\<lambda>w. length (heap w)) (threadPool s)) + length xs"
  using assms
proof (induction xs arbitrary: s)
  case (Cons x xs)
  obtain e fd peer where x: "x = (e, fd, peer)" by (cases x)
  have "unat (last_id s) < 2 ^ 64 - 1" using Cons.prems(6) by simp
  then have "last_id s < NO_ID" by (simp add: NO_ID_def word_less_nat_alt)
  moreover have "rr_index s < INT_MAX" using Cons.prems(5) by simp
  moreover have "env_ok e" "fd \<notin> set (server_fds s)" using Cons.prems(7,9) x by simp_all
  ultimately obtain s1 k c where s1: "newConnection iphash e fd peer s = Inr s1" "server_inv hf echo_ready s1" "cfg s1 = cfg s"
    "k < length (threadPool s)" "threadPool s1 = (threadPool s)[k := push_connection c (threadPool s ! k)]"
    "last_id s1 = last_id s + 1" "rr_index s1 \<le> rr_index s + 1" "set (server_fds s1) = insert fd (set (server_fds s))"
    using newConnection_ok [OF Cons.prems(1-4), of e fd iphash peer] by blast
  have id1: "unat (last_id s1) = unat (last_id s) + 1"
    using s1(6) Cons.prems(6) by (simp add: unat_word_ariths unat_add_lem [THEN iffD1])
  have "heap (push_connection c (threadPool s ! k)) = heap (threadPool s ! k) @ [c]"
    by (simp add: push_connection_def enqueue_connection_def)
  then have sum1: "sum_list (map (\<lambda>w. length (heap w)) (threadPool s1)) = sum_list (map (\<lambda>w. length (heap w)) (threadPool s)) + 1"
    using s1(4,5) elem_le_sum_list [of k "map (\<lambda>w. length (heap w)) (threadPool s)"]
    by (simp add: map_update sum_list_update)
  have "threadPool s1 \<noteq> []" using s1(4,5) by auto
  moreover have "rr_index s1 + int (length xs) \<le> INT_MAX" using s1(7) Cons.prems(5) by simp
  moreover have "unat (last_id s1) + length xs < 2 ^ 64" using id1 Cons.prems(6) by simp
  moreover have "\<forall>y \<in> set xs. fst (snd y) \<notin> set (server_fds s1)"
  proof
    fix y assume "y \<in> set xs"
    then have "fst (snd y) \<in> (\<lambda>x. fst (snd x)) ` set xs" by (rule imageI)
    then have "fst (snd y) \<noteq> fd" using Cons.prems(8) x by auto
    then show "fst (snd y) \<notin> set (server_fds s1)" using \<open>y \<in> set xs\<close> Cons.prems(9) s1(8) by simp
  qed
  ultimately obtain s' where "new_connections iphash xs s1 = Inr s'" "server_inv hf echo_ready s'"
    "unat (last_id s') = unat (last_id s1) + length xs" "length (threadPool s') = length (threadPool s1)"
    "sum_list (map (\<lambda>w. length (heap w)) (threadPool s')) = sum_list (map (\<lambda>w. length (heap w)) (threadPool s1)) + length xs"
    using Cons.IH [OF s1(2)] Cons.prems(2,3,7,8) s1(3) by auto
  then show ?case using x s1(1,5) id1 sum1 by auto
qed simp

text \<open>A server with two fresh workers.\<close>

definition sample_server :: server where
  "sample_server = \<lparr>cfg = shipped_config, threadPool = [Worker_new, Worker_new], exceedMaxMemory = False, timeString = [],
     rr_index = 0, last_id = 0, logger = sample_conf\<rparr>"

lemma sample_server_facts: "server_inv id echo_ready sample_server" "buffer_config (cfg sample_server)"
  "loadBalance (cfg sample_server) \<noteq> None" "threadPool sample_server \<noteq> []"
  by (simp_all add: server_inv_def sample_server_def Worker_new_def worker_inv_def dict_new_inv pool_ok_def pool_map_def
      queue_ok_def buffer_config_def shipped_config_def watch_ok_def server_ids_def server_fds_def)

lemma new_connections_keep_invariant_witness:
  "\<exists>s'. new_connections (\<lambda>ip. ucast ip) [(\<lparr>ae_rand = 3, ae_flags = 2, ae_setfl = 0, ae_time = 100\<rparr>, 8, InetSockAddr 2 5 80)]
     sample_server = Inr s' \<and> server_inv id echo_ready s'"
  using new_connections_keep_invariant [OF sample_server_facts,
      of "[(\<lparr>ae_rand = 3, ae_flags = 2, ae_setfl = 0, ae_time = 100\<rparr>, 8, InetSockAddr 2 5 80)]" "\<lambda>ip. ucast ip"]
  by (auto simp: env_ok_def INT_time_def INT_MAX_def sample_server_def server_fds_def Worker_new_def)

text \<open>Round robin is fair: in any run of r * m consecutive connections over m workers every worker is chosen exactly r
  times.\<close>

lemma round_robin_fair:
  assumes "threadPool s \<noteq> []" "0 \<le> rr_index s" "rr_index s + int (r * length (threadPool s)) \<le> INT_MAX"
  shows "\<exists>ks s'. picks (r * length (threadPool s)) s = Inr (ks, s') \<and> threadPool s' = threadPool s \<and>
    (\<forall>k < length (threadPool s). count_list ks k = r)"
proof -
  obtain i where i: "rr_index s = int i" using assms(2) nonneg_int_cases by blast
  from picks_eq [OF assms(1) i, of "r * length (threadPool s)"] assms(3) i count_rounds show ?thesis by simp
qed

lemma round_robin_fair_witness:
  "\<exists>ks s'. picks (3 * length (threadPool sample_server)) sample_server = Inr (ks, s') \<and> count_list ks 0 = 3 \<and> count_list ks 1 = 3"
proof -
  have "length (threadPool sample_server) = 2" by (simp add: sample_server_def)
  then show ?thesis using round_robin_fair [of sample_server 3] by (auto simp: sample_server_def INT_MAX_def)
qed

text \<open>Round robin counts its connections in an int: the connection after 2^31 - 1 others overflows it.\<close>

lemma round_robin_counter_overflows:
  "rr_index s = INT_MAX \<Longrightarrow> loadBalanceRoundRobin s = Inl Signed_Overflow"
  by (simp add: loadBalanceRoundRobin_def c_int_over)

text \<open>The least-connections balancer chooses an existing worker with the fewest connections, the first one if there are
  several.\<close>

lemma min_connection_least:
  assumes "threadPool s \<noteq> []"
  shows "\<exists>k. loadBalanceMinConnection s = Inr (k, s) \<and> k < length (threadPool s) \<and>
    (\<forall>j < length (threadPool s). getConnectionNum (threadPool s ! k) \<le> getConnectionNum (threadPool s ! j)) \<and>
    (\<forall>j < k. getConnectionNum (threadPool s ! k) < getConnectionNum (threadPool s ! j))"
proof -
  obtain w ws where ws: "threadPool s = w # ws" using assms by (cases "threadPool s") auto
  let ?n = "map getConnectionNum (threadPool s)" and ?k = "min_loop ws 1 0 (getConnectionNum w)"
  have m: "?k < length ?n" "\<forall>j < length ?n. ?n ! ?k \<le> ?n ! j" "\<forall>j < ?k. ?n ! ?k < ?n ! j"
    using min_loop_spec [of 0 1 "getConnectionNum w" ?n ws] ws by simp_all
  then have k: "?k < length (threadPool s)" by simp
  have "\<forall>j < length (threadPool s). getConnectionNum (threadPool s ! ?k) \<le> getConnectionNum (threadPool s ! j)"
    using m(2) k by simp
  moreover have "\<forall>j < ?k. getConnectionNum (threadPool s ! ?k) < getConnectionNum (threadPool s ! j)"
    using m(3) k by simp
  moreover have "loadBalanceMinConnection s = Inr (?k, s)" using ws by (simp add: loadBalanceMinConnection_def)
  ultimately show ?thesis using k by blast
qed

lemma min_connection_least_witness:
  "loadBalanceMinConnection (sample_server\<lparr>threadPool := [sample_worker, Worker_new]\<rparr>) =
     Inr (1, sample_server\<lparr>threadPool := [sample_worker, Worker_new]\<rparr>)"
proof -
  have "getConnectionNum sample_worker = 1" "getConnectionNum Worker_new = 0" by code_simp+
  with min_connection_least [of "sample_server\<lparr>threadPool := [sample_worker, Worker_new]\<rparr>"]
  show ?thesis by (auto simp: less_Suc_eq nth_Cons')
qed

text \<open>With the shipped configuration, start reads the uninitialised max-tcp; with a configuration that sets it, start of a new
  server makes n workers whose epoll array has room for max(1, min(max-tcp-per-worker, max-tcp / n)) events. The workers a
  second start adds are not configured when there are as many of them as old ones.\<close>

lemma start_needs_max_tcp:
  "(cfg s = shipped_config \<longrightarrow> server_start n s = Inl Uninitialised_Read) \<and>
   (\<forall>mt pw. max_tcp (cfg s) = Some mt \<and> max_tcp_per_worker (cfg s) = Some pw \<and> 0 \<le> mt \<and> mt \<le> INT_MAX \<and> 0 < n \<longrightarrow>
      (\<exists>s'. server_start n s = Inr s' \<and> cfg s' = cfg s \<and>
         (threadPool s = [] \<longrightarrow> threadPool s' = replicate (nat n) (setMaxConnection (max 1 (min pw (mt div n))) Worker_new)) \<and>
         (length (threadPool s) = nat n \<longrightarrow>
            threadPool s' = map (setMaxConnection (max 1 (min pw (mt div n)))) (threadPool s) @ replicate (nat n) Worker_new)))"
proof (intro conjI impI allI)
  assume "cfg s = shipped_config"
  then show "server_start n s = Inl Uninitialised_Read" by (simp add: server_start_def shipped_config_def)
next
  fix mt pw assume a: "max_tcp (cfg s) = Some mt \<and> max_tcp_per_worker (cfg s) = Some pw \<and> 0 \<le> mt \<and> mt \<le> INT_MAX \<and> 0 < n"
  then have "mt sdiv n = mt div n" by (simp add: sdiv_nonneg)
  moreover have "0 \<le> mt div n" "mt div n \<le> INT_MAX"
    using a zdiv_mono2 [of mt 1 n] by (simp_all add: pos_imp_zdiv_nonneg_iff)
  ultimately have "c_div mt n = Inr (mt div n)" using a by (simp add: c_div_def c_int_nonneg)
  then show "\<exists>s'. server_start n s = Inr s' \<and> cfg s' = cfg s \<and>
      (threadPool s = [] \<longrightarrow> threadPool s' = replicate (nat n) (setMaxConnection (max 1 (min pw (mt div n))) Worker_new)) \<and>
      (length (threadPool s) = nat n \<longrightarrow>
         threadPool s' = map (setMaxConnection (max 1 (min pw (mt div n)))) (threadPool s) @ replicate (nat n) Worker_new)"
    using a start_loop_old [of "threadPool s" "nat n" _ 0]
    by (auto simp: server_start_def start_loop_fresh Let_def max_def)
qed

lemma start_needs_max_tcp_witness:
  "server_start 2 sample_server = Inl Uninitialised_Read \<and>
   (\<exists>s'. server_start 2 (sample_server\<lparr>cfg := shipped_config\<lparr>max_tcp := Some 100\<rparr>\<rparr>) = Inr s' \<and>
      threadPool s' = replicate 2 (setMaxConnection 50 Worker_new) @ [Worker_new, Worker_new])"
  using start_needs_max_tcp [of sample_server 2]
    start_needs_max_tcp [of "sample_server\<lparr>cfg := shipped_config\<lparr>max_tcp := Some 100\<rparr>\<rparr>" 2]
  by (auto simp: sample_server_def shipped_config_def INT_MAX_def numeral_2_eq_2)

text \<open>A readable listening socket: every connection accepted before the first error is taken over in order; an error other
  than the expected ones, such as too many open files, fails an assertion and ends the server; after an expected
  error the connections still waiting are left (the socket is edge-triggered).\<close>

lemma accept_loop_behaviour:
  "accept_loop iphash (map (\<lambda>(e, fd, peer). Accepted fd peer e) xs @ AcceptError err # rest) s =
     bind_res (new_connections iphash xs s) (\<lambda>s'.
       if err \<in> {EAGAIN, ECONNABORTED, EPROTO, EINTR} then Inr (s', rest) else Inl Assert_Failed)"
proof (induction xs arbitrary: s)
  case (Cons x xs)
  obtain e fd peer where "x = (e, fd, peer)" by (cases x)
  moreover have "accept_loop iphash (map (\<lambda>(e, fd, peer). Accepted fd peer e) xs @ AcceptError err # rest) =
      (\<lambda>s. bind_res (new_connections iphash xs s) (\<lambda>s'.
       if err \<in> {EAGAIN, ECONNABORTED, EPROTO, EINTR} then Inr (s', rest) else Inl Assert_Failed))"
    using Cons by (intro ext)
  ultimately show ?case by (simp add: bind_res_assoc)
qed simp

end
