(* ===== verification/Whole_Server.thy ===== *)
theory Whole_Server
  imports Server
begin

text \<open>
  The running server: the main thread, which accepts connections (\<open>src/acceptor.cpp\<close>, \<open>TcpServer::newConnection\<close>) and does the
  periodic work, and the worker threads (\<open>Worker::workFunction\<close> of \<open>src/worker.cpp\<close>), interleaved. A worker does not run its
  round at once, as in \<open>Worker\<close>, but in steps: one event, the swap of the queue, one registration, each eviction. Between
  any two of them the main thread may put connections into its queue. A step of the system is a function of an
  \<open>action\<close>, which says who moves and what the operating system answers; \<open>os_allows\<close> is the contract of the operating system.
\<close>

section \<open>A worker in steps\<close>

text \<open>Where a worker is in its loop: at \<open>epoll_wait\<close>; with events left to handle; with connections taken from the queue
  left to register; before \<open>manageInactiveConnection\<close>; before the test of the limits.\<close>

datatype worker_pc = Polling | Handling "event list" | Registering "conn_ptr list" | Managing | Limiting

record worker_env =
  we_events :: "event list"
  we_time :: int
  we_random :: "64 word list"

fun worker_step :: "(64 word \<Rightarrow> 64 word) \<Rightarrow> callbacks \<Rightarrow> config \<Rightarrow> bool \<Rightarrow> worker_env \<Rightarrow> worker_pc \<times> worker \<Rightarrow>
    (worker_pc \<times> worker) option res" where
  "worker_step hf cbs conf exceed e (Polling, w) = Inr (Some (Handling (we_events e), w))"
| "worker_step hf cbs conf exceed e (Handling [], w) =
     Inr (Some (Registering (incomingConnection w), w\<lparr>incomingConnection := []\<rparr>))"
| "worker_step hf cbs conf exceed e (Handling (ev # evs), w) =
     bind_res (handle_event hf cbs ev w) (\<lambda>w1. Inr (Some (Handling evs, w1)))"
| "worker_step hf cbs conf exceed e (Registering [], w) = Inr (Some (Managing, w))"
| "worker_step hf cbs conf exceed e (Registering (p # ps), w) =
     bind_res (register_loop hf cbs [p] w) (\<lambda>w1. Inr (Some (Registering ps, w1)))"
| "worker_step hf cbs conf exceed e (Managing, w) =
     bind_env (manageInactiveConnection hf conf (we_time e) (we_random e) w) (\<lambda>(_, w1). Inr (Some (Limiting, w1)))"
| "worker_step hf cbs conf exceed e (Limiting, w) =
     bind_res (getMaxTcpConnectionPerWorker conf) (\<lambda>mx.
       if dict_size (connectionPool w) > mx \<or> exceed
       then bind_env (eviction hf conf (we_time e) (we_random e) w) (\<lambda>(_, w1). Inr (Some (Polling, w1)))
       else Inr (Some (Polling, w)))"

section \<open>The system\<close>

record system =
  srv :: server
  pcs :: "worker_pc list"

text \<open>\<open>Accept_Error\<close>: a call of \<open>accept\<close> that fails. \<open>Peer_Gone\<close>: a worker goes on with its event, and the peer of the connection
  has closed or reset it, so that \<open>write\<close> raises \<open>SIGPIPE\<close>, which the program does not handle.\<close>

datatype action = Connect accept_env int sockaddr_in | Accept_Error int | Cron tm rat rat | Step nat worker_env | Peer_Gone nat

text \<open>Whether \<open>write\<close> is called for an event: \<open>onWritableEvent\<close> runs and finds something to send. The last call of its loop finds
  out that the peer is gone, if no earlier one does.\<close>

definition writes_now :: "(64 word \<Rightarrow> 64 word) \<Rightarrow> callbacks \<Rightarrow> event \<Rightarrow> worker \<Rightarrow> bool" where
  "writes_now hf cbs ev w \<longleftrightarrow> has_flag (ev_flags ev) EPOLLOUT \<and>
     bind_res (dict_at hf None (ev_id ev) (connectionPool w)) (\<lambda>(p, d).
     bind_res (event_error hf ev p (w\<lparr>connectionPool := d\<rparr>)) (\<lambda>w1.
     bind_res (event_in cbs ev p w1) (\<lambda>w2.
     bind_res (deref p w2) (\<lambda>c. Inr (getSize (writeBuffer c) > 0))))) = Inr True"

definition about_to_write :: "(64 word \<Rightarrow> 64 word) \<Rightarrow> callbacks \<Rightarrow> worker_pc \<Rightarrow> worker \<Rightarrow> bool" where
  "about_to_write hf cbs pc w = (case pc of Handling (ev # evs) \<Rightarrow> writes_now hf cbs ev w | _ \<Rightarrow> False)"

fun sys_step :: "(64 word \<Rightarrow> 64 word) \<Rightarrow> (32 word \<Rightarrow> 64 word) \<Rightarrow> callbacks \<Rightarrow> action \<Rightarrow> system \<Rightarrow> system option res" where
  "sys_step hf iphash cbs (Connect e fd peer) s =
     bind_res (newConnection iphash e fd peer (srv s)) (\<lambda>s1. Inr (Some (s\<lparr>srv := s1\<rparr>)))"
| "sys_step hf iphash cbs (Accept_Error er) s =
     (if er = EAGAIN \<or> er = ECONNABORTED \<or> er = EPROTO \<or> er = EINTR then Inr (Some s) else Inl Assert_Failed)"
| "sys_step hf iphash cbs (Cron now vm_usage resident_set) s =
     bind_res (serverCron now vm_usage resident_set (srv s)) (\<lambda>s1. Inr (Some (s\<lparr>srv := s1\<rparr>)))"
| "sys_step hf iphash cbs (Step i e) s =
     (if i < length (pcs s)
      then bind_env (worker_step hf cbs (cfg (srv s)) (exceedMaxMemory (srv s)) e (pcs s ! i, threadPool (srv s) ! i))
             (\<lambda>(pc, w). Inr (Some (s\<lparr>pcs := (pcs s)[i := pc], srv := (srv s)\<lparr>threadPool := (threadPool (srv s))[i := w]\<rparr>\<rparr>)))
      else Inr (Some s))"
| "sys_step hf iphash cbs (Peer_Gone i) s =
     (if i < length (pcs s) \<and> about_to_write hf cbs (pcs s ! i) (threadPool (srv s) ! i)
      then Inl Killed_By_Signal else Inr (Some s))"

definition sys_start :: "string option \<Rightarrow> tm \<Rightarrow> int \<Rightarrow> system res" where
  "sys_start file now n =
     bind_res (TcpServer_new file now) (\<lambda>s0.
     bind_res (server_start n s0) (\<lambda>s1.
       Inr \<lparr>srv = s1, pcs = replicate (length (threadPool s1)) Polling\<rparr>))"

text \<open>What the operating system keeps to. \<open>epoll_wait\<close> reports events only for descriptors that are watched, each at most
  once; \<open>accept\<close> gives descriptors that are not open (the program closes none); times are not negative. The
  number of connections is bounded, because ids and the round-robin counter would overflow, and the tables are bounded.
  Any call of \<open>accept\<close> and of \<open>fcntl\<close> may fail, and any peer may go away at any time.\<close>

definition reported :: "worker \<Rightarrow> event list \<Rightarrow> bool" where
  "reported w evs \<longleftrightarrow> distinct (map ev_id evs) \<and> (\<forall>ev \<in> set evs. INT_time (ev_read_time ev) \<and> INT_time (ev_write_time ev) \<and>
     (\<exists>a < length (heap w). conn_id (heap w ! a) = ev_id ev \<and> connfd (heap w ! a) \<in> set (interest w)))"

fun os_allows :: "action \<Rightarrow> system \<Rightarrow> bool" where
  "os_allows (Connect e fd peer) s \<longleftrightarrow> INT_time (ae_time e) \<and> fd \<notin> set (server_fds (srv s)) \<and> unat (last_id (srv s)) < 2 ^ 28"
| "os_allows (Accept_Error er) s \<longleftrightarrow> True"
| "os_allows (Cron now vm_usage resident_set) s \<longleftrightarrow> tm_ok now \<and> 0 \<le> tm_year now + 1900 \<and> tm_year now + 1900 < 10000"
| "os_allows (Step i e) s \<longleftrightarrow> INT_time (we_time e) \<and>
     (i < length (pcs s) \<and> pcs s ! i = Polling \<longrightarrow> reported (threadPool (srv s) ! i) (we_events e))"
| "os_allows (Peer_Gone i) s \<longleftrightarrow> True"

text \<open>The settings a server needs: every member that the running server reads has been set, and the sizes of the buffers are in their bounds.\<close>

definition limits_set :: "config \<Rightarrow> bool" where
  "limits_set c \<longleftrightarrow> max_tcp_per_worker c \<noteq> None \<and> max_tcp_eviction_rule c \<noteq> None \<and> inactive_tcp_eviction_rule c \<noteq> None \<and>
     eviction_pool_size c \<noteq> None \<and> inactive_tcp_timeout c \<noteq> None"

definition sys_config :: "config \<Rightarrow> bool" where
  "sys_config c \<longleftrightarrow> buffer_config c \<and> loadBalance c \<noteq> None \<and> limits_set c \<and> max_vm_kb c \<noteq> None \<and> max_rss_kb c \<noteq> None"

text \<open>Random eviction follows a null pointer when it finds the pool empty. It is asked of an empty pool when memory is exceeded, or when the
  limit is negative.\<close>

definition evicts_from_empty :: "config \<Rightarrow> bool \<Rightarrow> worker \<Rightarrow> bool" where
  "evicts_from_empty conf exceed w \<longleftrightarrow> max_tcp_eviction_rule conf = Some MAX_TCP_EVICTION_RANDOM \<and> pool_map w = Map.empty \<and>
     (exceed \<or> (\<exists>mx < 0. max_tcp_per_worker conf = Some mx))"

text \<open>The steps that fail: an assertion on the descriptor of a new connection or on the result of \<open>accept\<close>, a write to a peer that is gone,
  and random eviction from an empty pool.\<close>

fun step_fails :: "(64 word \<Rightarrow> 64 word) \<Rightarrow> callbacks \<Rightarrow> action \<Rightarrow> system \<Rightarrow> bool" where
  "step_fails hf cbs (Connect e fd peer) s \<longleftrightarrow> ae_flags e < 0 \<or> ae_setfl e < 0"
| "step_fails hf cbs (Accept_Error er) s \<longleftrightarrow> er \<notin> {EAGAIN, ECONNABORTED, EPROTO, EINTR}"
| "step_fails hf cbs (Cron now vm_usage resident_set) s \<longleftrightarrow> False"
| "step_fails hf cbs (Step i e) s \<longleftrightarrow> i < length (pcs s) \<and> pcs s ! i = Limiting \<and>
     evicts_from_empty (cfg (srv s)) (exceedMaxMemory (srv s)) (threadPool (srv s) ! i)"
| "step_fails hf cbs (Peer_Gone i) s \<longleftrightarrow> i < length (pcs s) \<and> about_to_write hf cbs (pcs s ! i) (threadPool (srv s) ! i)"

inductive sys_reachable :: "(64 word \<Rightarrow> 64 word) \<Rightarrow> (32 word \<Rightarrow> 64 word) \<Rightarrow> callbacks \<Rightarrow> system \<Rightarrow> bool" for hf iphash cbs where
  start: "sys_start file now n = Inr s \<Longrightarrow> 0 < n \<Longrightarrow> sys_config (cfg (srv s)) \<Longrightarrow> sys_reachable hf iphash cbs s"
| step: "sys_reachable hf iphash cbs s \<Longrightarrow> os_allows act s \<Longrightarrow> sys_step hf iphash cbs act s = Inr (Some s') \<Longrightarrow>
    sys_reachable hf iphash cbs s'"

section \<open>One step of a worker\<close>

text \<open>The queue of a worker together with the connections it has already taken from it.\<close>

definition taken :: "worker_pc \<Rightarrow> conn_ptr list" where
  "taken pc = (case pc of Registering ps \<Rightarrow> ps | _ \<Rightarrow> [])"

definition with_taken :: "worker_pc \<Rightarrow> worker \<Rightarrow> worker" where
  "with_taken pc w = w\<lparr>incomingConnection := taken pc @ incomingConnection w\<rparr>"

definition pc_ok :: "worker_pc \<Rightarrow> worker \<Rightarrow> bool" where
  "pc_ok pc w \<longleftrightarrow> (case pc of Handling evs \<Rightarrow> round_events w evs | _ \<Rightarrow> True)"

lemma with_taken_simps [simp]:
  "heap (with_taken pc w) = heap w" "pool_map (with_taken pc w) = pool_map w" "interest (with_taken pc w) = interest w"
  "connectionPool (with_taken pc w) = connectionPool w" "taken pc = [] \<Longrightarrow> with_taken pc w = w"
  "taken Polling = []" "taken (Handling evs) = []" "taken Managing = []" "taken Limiting = []" "taken (Registering ps) = ps"
  by (simp_all add: with_taken_def taken_def)

lemma worker_ok_suffix:
  assumes "worker_ok hf G (w\<lparr>incomingConnection := ps @ incomingConnection w\<rparr>)"
  shows "worker_ok hf G w"
proof -
  note d = worker_invD [OF assms]
  from d(3) obtain as where as: "ps @ incomingConnection w = map Some as" by (auto simp: queue_ok_def)
  then obtain xs ys where xy: "as = xs @ ys" "incomingConnection w = map Some ys" by (metis append_eq_map_conv)
  have "queue_ok {} w" using queue_okD [OF d(3), of as] as xy by (auto simp: queue_ok_def intro!: exI [of _ ys])
  then show ?thesis using assms by (simp add: worker_inv_def pool_ok_def watch_ok_def)
qed

lemma worker_ok_taken: "worker_ok hf G (with_taken pc w) \<Longrightarrow> worker_ok hf G w"
  unfolding with_taken_def by (rule worker_ok_suffix)

text \<open>Pool and queue hold different connections of the heap.\<close>

lemma pool_queue_le_heap:
  assumes ok: "worker_ok hf G w"
  shows "card (dom (pool_map w)) + length (incomingConnection w) \<le> length (heap w)"
proof -
  note d = worker_invD [OF ok]
  from d(3) obtain as where as: "incomingConnection w = map Some as" by (auto simp: queue_ok_def)
  note q = queue_okD [OF d(3) as]
  define f where "f k = (THE a. pool_map w k = Some (Some a))" for k
  have f: "pool_map w k = Some (Some (f k)) \<and> f k < length (heap w) \<and> conn_id (heap w ! f k) = k" if "k \<in> dom (pool_map w)" for k
  proof -
    from that obtain p where p: "pool_map w k = Some p" by auto
    with d(2) obtain a where "p = Some a" "a < length (heap w)" "conn_id (heap w ! a) = k" by (rule pool_okE)
    then show ?thesis using p by (simp add: f_def)
  qed
  have inj: "inj_on f (dom (pool_map w))" using f by (metis inj_onI)
  have "f ` dom (pool_map w) \<inter> set as = {}"
  proof (rule ccontr)
    assume "f ` dom (pool_map w) \<inter> set as \<noteq> {}"
    then obtain k where "k \<in> dom (pool_map w)" "f k \<in> set as" by auto
    with f q(1) show False by force
  qed
  moreover have "finite (dom (pool_map w))" by (simp add: pool_map_def dict_finite)
  moreover have "distinct as" using q(2) by (rule distinct_map [THEN iffD1, THEN conjunct1])
  ultimately have "card (f ` dom (pool_map w) \<union> set as) = card (dom (pool_map w)) + length as"
    using card_image [OF inj] distinct_card by (simp add: card_Un_disjoint)
  moreover have "card (f ` dom (pool_map w) \<union> set as) \<le> card {..<length (heap w)}"
    using f q(1) by (intro card_mono) auto
  ultimately show ?thesis using as by simp
qed

lemma pool_size: "worker_ok hf G w \<Longrightarrow> dict_size (connectionPool w) = int (card (dom (pool_map w)))"
  using pool.size_law [OF worker_invD(1)] by (simp add: pool_map_def)

text \<open>The events that epoll reports are for connections of the pool.\<close>

lemma reported_round_events:
  assumes "worker_ok hf G w" "reported w evs"
  shows "round_events w evs"
  using assms(2) watch_okD(3) [OF worker_invD(6) [OF assms(1)]]
  unfolding reported_def round_events_def by fastforce

lemma round_events_rest:
  assumes "round_events w (ev # evs)" "pool_map w1 = pool_map w \<or> pool_map w1 = (pool_map w)(ev_id ev := None)"
  shows "round_events w1 evs"
proof -
  have "ev_id x \<in> dom (pool_map w1)" if "x \<in> set evs" for x
  proof -
    have "ev_id x \<in> set (map ev_id evs)" using that by simp
    then have "ev_id x \<noteq> ev_id ev" using assms(1) by (auto simp: round_events_def)
    then show ?thesis using assms that by (auto simp: round_events_def)
  qed
  then show ?thesis using assms(1) by (simp add: round_events_def)
qed

context event_contract begin

lemma worker_step_ok:
  assumes ok: "worker_ok hf G (with_taken pc w)" "pc_ok pc w" and small: "length (heap w) < 2 ^ 29"
    and conf: "limits_set conf" and t: "INT_time (we_time e)" and rep: "pc = Polling \<longrightarrow> reported w (we_events e)"
  shows "pc = Limiting \<and> evicts_from_empty conf exceed w \<and> worker_step hf cbs conf exceed e (pc, w) = Inl Null_Deref \<or>
    \<not> (pc = Limiting \<and> evicts_from_empty conf exceed w) \<and> (worker_step hf cbs conf exceed e (pc, w) = Inr None \<or>
    (\<exists>pc' w'. worker_step hf cbs conf exceed e (pc, w) = Inr (Some (pc', w')) \<and> worker_ok hf G (with_taken pc' w') \<and>
       pc_ok pc' w' \<and> same_conns w w'))"
proof -
  have okw: "worker_ok hf G w" using ok(1) by (rule worker_ok_taken)
  have room: "card (dom (pool_map w)) < 2 ^ 29" using pool_queue_le_heap [OF okw] small by simp
  obtain mx rule where c: "max_tcp_per_worker conf = Some mx" "max_tcp_eviction_rule conf = Some rule"
    "inactive_tcp_eviction_rule conf \<noteq> None" "eviction_pool_size conf \<noteq> None" "inactive_tcp_timeout conf \<noteq> None"
    using conf by (auto simp: limits_set_def)
  show ?thesis
  proof (cases pc)
    case Polling
    then show ?thesis using okw rep reported_round_events [OF okw] by (simp add: pc_ok_def)
  next
    case (Handling evs)
    show ?thesis
    proof (cases evs)
      case Nil
      then show ?thesis using okw Handling by (simp add: pc_ok_def with_taken_def taken_def same_conns_def)
    next
      case (Cons ev evs')
      have evs: "round_events w (ev # evs')" using ok(2) Handling Cons by (simp add: pc_ok_def)
      then obtain w1 where "handle_event hf cbs ev w = Inr w1" "worker_ok hf G w1" "same_conns w w1"
        "pool_map w1 = pool_map w \<or> pool_map w1 = (pool_map w)(ev_id ev := None)"
        using handle_event_ok [OF okw room, of ev] by (auto simp: round_events_def)
      then show ?thesis using Handling Cons round_events_rest [OF evs] by (simp add: pc_ok_def)
    qed
  next
    case (Registering ps)
    show ?thesis
    proof (cases ps)
      case Nil
      then show ?thesis using okw Registering by (simp add: pc_ok_def)
    next
      case (Cons p ps')
      have q: "with_taken pc w = w\<lparr>incomingConnection := p # ps' @ incomingConnection w\<rparr>"
        using Registering Cons by (simp add: with_taken_def taken_def)
      from worker_invD(3) [OF ok(1)] obtain a as where as: "p = Some a" "ps' @ incomingConnection w = map Some as"
        unfolding q queue_ok_def by (auto simp: Cons_eq_map_conv)
      have "worker_ok hf G (w\<lparr>incomingConnection := map Some (a # as)\<rparr>)" using ok(1) as unfolding q by simp
      from register_one_ok [OF this room] obtain w1 where w1: "register_loop hf cbs [p] w = Inr w1"
        "worker_ok hf G (w1\<lparr>incomingConnection := map Some as\<rparr>)" "incomingConnection w1 = incomingConnection w"
        "same_conns w w1" using as(1) by auto
      have "with_taken (Registering ps') w1 = w1\<lparr>incomingConnection := map Some as\<rparr>"
        using as(2) w1(3) by (simp add: with_taken_def taken_def)
      then show ?thesis using Registering Cons w1 by (simp add: pc_ok_def del: register_loop.simps)
    qed
  next
    case Managing
    from manageInactive_ok [OF okw t c(3-5) room, of "we_random e"] show ?thesis
      using Managing by (auto simp: pc_ok_def same_conns_def)
  next
    case Limiting
    note size = pool_size [OF okw]
    show ?thesis
    proof (cases "evicts_from_empty conf exceed w")
      case True
      then have "eviction hf conf (we_time e) (we_random e) w = Inl Null_Deref" "dict_size (connectionPool w) > mx \<or> exceed"
        using empty_pool_eviction [OF worker_invD(1) [OF okw]] c(1) size by (auto simp: evicts_from_empty_def)
      then show ?thesis using Limiting True c(1) by auto
    next
      case False
      show ?thesis
      proof (cases "dict_size (connectionPool w) > mx \<or> exceed")
        case True
        then have "rule = MAX_TCP_EVICTION_RANDOM \<longrightarrow> pool_map w \<noteq> Map.empty" using False c(1,2) size by (auto simp: evicts_from_empty_def)
        from eviction_ok [OF okw t c(2,4) room this, of "we_random e"] show ?thesis
          using Limiting c(1) okw False by (auto simp: pc_ok_def same_conns_def)
      qed (use Limiting c(1) okw False in \<open>auto simp: pc_ok_def same_conns_def\<close>)
    qed
  qed
qed

end

section \<open>The invariant of the system\<close>

definition sys_inv :: "(64 word \<Rightarrow> 64 word) \<Rightarrow> system \<Rightarrow> bool" where
  "sys_inv hf s \<longleftrightarrow> sys_config (cfg (srv s)) \<and> threadPool (srv s) \<noteq> [] \<and> length (pcs s) = length (threadPool (srv s)) \<and>
     (\<forall>i < length (pcs s). worker_ok hf echo_ready (with_taken (pcs s ! i) (threadPool (srv s) ! i)) \<and>
        pc_ok (pcs s ! i) (threadPool (srv s) ! i)) \<and>
     server_inv hf echo_ready (srv s) \<and> rr_index (srv s) \<le> int (unat (last_id (srv s))) \<and>
     length (server_ids (srv s)) \<le> unat (last_id (srv s)) \<and> unat (last_id (srv s)) \<le> 2 ^ 28"

lemma sys_invD:
  assumes "sys_inv hf s"
  shows "sys_config (cfg (srv s))" "threadPool (srv s) \<noteq> []" "length (pcs s) = length (threadPool (srv s))"
    "i < length (pcs s) \<Longrightarrow> worker_ok hf echo_ready (with_taken (pcs s ! i) (threadPool (srv s) ! i))"
    "i < length (pcs s) \<Longrightarrow> pc_ok (pcs s ! i) (threadPool (srv s) ! i)"
    "server_inv hf echo_ready (srv s)" "rr_index (srv s) \<le> int (unat (last_id (srv s)))"
    "length (server_ids (srv s)) \<le> unat (last_id (srv s))" "unat (last_id (srv s)) \<le> 2 ^ 28"
  using assms by (simp_all add: sys_inv_def)

lemma heap_le_server: "w \<in> set (threadPool s) \<Longrightarrow> length (heap w) \<le> length (server_ids s)"
  by (auto simp: server_ids_def length_concat comp_def intro!: member_le_sum_list [of "length (heap w)" "map (\<lambda>w. length (heap w)) (threadPool s)"])

lemma map_update_same: "i < length xs \<Longrightarrow> f y = f (xs ! i) \<Longrightarrow> map f (xs[i := y]) = map f xs"
  by (metis list_update_id map_update)

text \<open>Replacing a worker by one with the same connections changes neither the ids nor the descriptors of the server.\<close>

lemma same_conns_server:
  assumes "i < length (threadPool s)" "same_conns (threadPool s ! i) w"
  shows "server_ids (s\<lparr>threadPool := (threadPool s)[i := w]\<rparr>) = server_ids s"
    "server_fds (s\<lparr>threadPool := (threadPool s)[i := w]\<rparr>) = server_fds s"
  using map_update_same [OF assms(1), of "\<lambda>w. map conn_id (heap w)" w]
    map_update_same [OF assms(1), of "\<lambda>w. map connfd (heap w)" w] assms(2)
  by (simp_all add: server_ids_def server_fds_def same_conns_def)

lemma step_inv:
  assumes inv: "sys_inv hf s" and os: "os_allows (Step i e) s"
  shows "(\<exists>err. sys_step hf iphash main_callbacks (Step i e) s = Inl err) \<and> step_fails hf main_callbacks (Step i e) s \<or>
    (sys_step hf iphash main_callbacks (Step i e) s = Inr None \<or>
     (\<exists>s'. sys_step hf iphash main_callbacks (Step i e) s = Inr (Some s') \<and> sys_inv hf s')) \<and> \<not> step_fails hf main_callbacks (Step i e) s"
proof (cases "i < length (pcs s)")
  case False
  then show ?thesis using inv by simp
next
  case True
  note d = sys_invD [OF inv]
  let ?w = "threadPool (srv s) ! i" and ?c = "cfg (srv s)"
  have w: "?w \<in> set (threadPool (srv s))" using True d(3) by simp
  have "length (heap ?w) < 2 ^ 29" using heap_le_server [OF w] d(8,9) by simp
  moreover have "limits_set ?c" using d(1) by (simp add: sys_config_def)
  ultimately have "pcs s ! i = Limiting \<and> evicts_from_empty ?c (exceedMaxMemory (srv s)) ?w \<and>
      worker_step hf main_callbacks ?c (exceedMaxMemory (srv s)) e (pcs s ! i, ?w) = Inl Null_Deref \<or>
    \<not> (pcs s ! i = Limiting \<and> evicts_from_empty ?c (exceedMaxMemory (srv s)) ?w) \<and> (worker_step hf main_callbacks ?c (exceedMaxMemory (srv s)) e (pcs s ! i, ?w) = Inr None \<or>
    (\<exists>pc' w'. worker_step hf main_callbacks ?c (exceedMaxMemory (srv s)) e (pcs s ! i, ?w) = Inr (Some (pc', w')) \<and>
       worker_ok hf echo_ready (with_taken pc' w') \<and> pc_ok pc' w' \<and> same_conns ?w w'))"
    using echo.worker_step_ok [OF d(4,5) [OF True]] os True by auto
  then show ?thesis
  proof (elim disjE exE conjE)
    assume "worker_step hf main_callbacks ?c (exceedMaxMemory (srv s)) e (pcs s ! i, ?w) = Inl Null_Deref"
      "pcs s ! i = Limiting" "evicts_from_empty ?c (exceedMaxMemory (srv s)) ?w"
    then show ?thesis using True by simp
  next
    assume "worker_step hf main_callbacks ?c (exceedMaxMemory (srv s)) e (pcs s ! i, ?w) = Inr None"
      "\<not> (pcs s ! i = Limiting \<and> evicts_from_empty ?c (exceedMaxMemory (srv s)) ?w)"
    then show ?thesis using True by simp
  next
    assume nf: "\<not> (pcs s ! i = Limiting \<and> evicts_from_empty ?c (exceedMaxMemory (srv s)) ?w)"
    fix pc w' assume st: "worker_step hf main_callbacks ?c (exceedMaxMemory (srv s)) e (pcs s ! i, ?w) = Inr (Some (pc, w'))"
      and w': "worker_ok hf echo_ready (with_taken pc w')" "pc_ok pc w'" "same_conns ?w w'"
    let ?s1 = "(srv s)\<lparr>threadPool := (threadPool (srv s))[i := w']\<rparr>"
    have il: "i < length (threadPool (srv s))" using True d(3) by simp
    note same = same_conns_server [OF il w'(3)]
    have "set (map conn_id (heap w')) = set (map conn_id (heap ?w))" using w'(3) unfolding same_conns_def by metis
    then have ids: "\<forall>c \<in> set (heap w'). conn_id c \<le> last_id (srv s)"
      using d(6) w unfolding server_inv_def by (metis (no_types, lifting) image_iff list.set_map)
    have "server_inv hf echo_ready ?s1"
      using d(6) same worker_ok_taken [OF w'(1)] ids
      by (auto simp: server_inv_def dest!: set_update_subset_insert [THEN subsetD])
    then have "sys_inv hf (s\<lparr>pcs := (pcs s)[i := pc], srv := ?s1\<rparr>)"
      using d(1-5,7-9) w' same True il unfolding sys_inv_def by (auto simp: nth_list_update)
    then show ?thesis using True st nf by simp
  qed
qed

lemma with_taken_push: "with_taken pc (push_connection c w) = push_connection c (with_taken pc w)"
  by (simp add: with_taken_def push_connection_def enqueue_connection_def)

lemma pc_ok_push: "pc_ok pc (push_connection c w) = pc_ok pc w"
  by (simp add: pc_ok_def round_events_def push_connection_def enqueue_connection_def pool_map_def split: worker_pc.split)

lemma newConnection_env: "newConnection iphash e fd peer s = Inr s' \<Longrightarrow> 0 \<le> ae_flags e \<and> 0 \<le> ae_setfl e"
  by (auto simp: newConnection_def TcpConnection_new_def bind_res_eq_Inr Let_def split: prod.splits if_splits)

lemma connect_fails: "ae_flags e < 0 \<or> ae_setfl e < 0 \<Longrightarrow> \<exists>err. sys_step hf iphash cbs (Connect e fd peer) s = Inl err"
  using newConnection_env [of iphash e fd peer "srv s"] by (cases "newConnection iphash e fd peer (srv s)") auto

lemma connect_inv:
  assumes inv: "sys_inv hf s" and os: "os_allows (Connect e fd peer) s" and env: "0 \<le> ae_flags e" "0 \<le> ae_setfl e"
  shows "\<exists>s'. sys_step hf iphash cbs (Connect e fd peer) s = Inr (Some s') \<and> sys_inv hf s'"
proof -
  note d = sys_invD [OF inv]
  have conf: "buffer_config (cfg (srv s))" "loadBalance (cfg (srv s)) \<noteq> None" using d(1) by (simp_all add: sys_config_def)
  have small: "unat (last_id (srv s)) < 2 ^ 28" using os by simp
  then have "rr_index (srv s) < INT_MAX" using d(7) by (simp add: INT_MAX_def del: of_nat_unat)
  moreover have "last_id (srv s) < NO_ID" using small by (simp add: NO_ID_def word_less_nat_alt)
  moreover note small
  ultimately obtain s1 k c where
    s1: "newConnection iphash e fd peer (srv s) = Inr s1" "server_inv hf echo_ready s1" "cfg s1 = cfg (srv s)"
      "k < length (threadPool (srv s))" "threadPool s1 = (threadPool (srv s))[k := push_connection c (threadPool (srv s) ! k)]"
      "last_id s1 = last_id (srv s) + 1" "rr_index s1 \<le> rr_index (srv s) + 1"
    and c: "\<forall>w \<in> set (threadPool (srv s)). \<forall>b \<in> set (heap w). conn_id b < conn_id c \<and> connfd b \<noteq> connfd c"
      "echo_ready c" "INT_time (lastActiveTime c)" "\<not> conn_closed c"
    using newConnection_ok [OF d(6) conf d(2), of e fd iphash peer] os env by (auto simp: env_ok_def)
  let ?w = "threadPool (srv s) ! k"
  have k: "k < length (pcs s)" using s1(4) d(3) by simp
  have "worker_ok hf echo_ready (with_taken (pcs s ! k) (push_connection c ?w))"
    unfolding with_taken_push using c(2-4) bspec [OF c(1) nth_mem [OF s1(4)]]
    by (intro push_connection_ok [OF d(4) [OF k]]) simp_all
  then have workers: "worker_ok hf echo_ready (with_taken (pcs s ! i) (threadPool s1 ! i)) \<and> pc_ok (pcs s ! i) (threadPool s1 ! i)"
    if "i < length (pcs s)" for i
    using that d(3,4,5) s1(4,5) by (auto simp: nth_list_update pc_ok_push)
  have id: "unat (last_id s1) = unat (last_id (srv s)) + 1"
    using s1(6) small by (subst s1(6), subst unat_add_lem [THEN iffD1]) simp_all
  have "size (mset (server_ids s1)) = size (mset (conn_id c # server_ids (srv s)))"
    unfolding server_ids_def s1(5)
    using mset_concat_update [OF s1(4), of "\<lambda>w. map conn_id (heap w)" "push_connection c ?w" "conn_id c"]
    by (simp add: push_connection_def enqueue_connection_def)
  then have "length (server_ids s1) = length (server_ids (srv s)) + 1" by simp
  then have "sys_inv hf (s\<lparr>srv := s1\<rparr>)"
    using d(1-3,7-9) s1 workers id small unfolding sys_inv_def by auto
  then show ?thesis using s1(1) by simp
qed

lemma cron_inv:
  assumes inv: "sys_inv hf s" and os: "os_allows (Cron now vm_usage resident_set) s"
  shows "\<exists>s'. sys_step hf iphash cbs (Cron now vm_usage resident_set) s = Inr (Some s') \<and> sys_inv hf s'"
proof -
  note d = sys_invD [OF inv]
  obtain ts where ts: "updateTime now = Inr ts" using updateTime_fits [of now] os by auto
  obtain vm rss where m: "max_vm_kb (cfg (srv s)) = Some vm" "max_rss_kb (cfg (srv s)) = Some rss"
    using d(1) by (auto simp: sys_config_def)
  define b where "b = (vm_usage > of_int vm \<or> resident_set > of_int rss)"
  have b: "serverCron now vm_usage resident_set (srv s) = Inr ((srv s)\<lparr>timeString := ts, exceedMaxMemory := b\<rparr>)"
    using ts m by (simp add: serverCron_def checkMaxMemory_def b_def)
  have "sys_inv hf (s\<lparr>srv := (srv s)\<lparr>timeString := ts, exceedMaxMemory := b\<rparr>\<rparr>)"
    using inv by (simp add: sys_inv_def server_inv_def server_ids_def server_fds_def)
  then show ?thesis using b by simp
qed

lemma fresh_worker_ok: "worker_ok hf G (setMaxConnection m Worker_new)"
  by (simp add: setMaxConnection_def Worker_new_def worker_inv_def dict_new_inv pool_ok_def pool_map_def queue_ok_def watch_ok_def)

lemma start_inv:
  assumes "sys_start file now n = Inr s" "0 < n" "sys_config (cfg (srv s))"
  shows "sys_inv hf s"
proof -
  from assms(1) obtain s0 where s0: "TcpServer_new file now = Inr s0" "server_start n s0 = Inr (srv s)"
    "pcs s = replicate (length (threadPool (srv s))) Polling" by (auto simp: sys_start_def bind_res_eq_Inr)
  have z: "threadPool s0 = []" "rr_index s0 = 0" "last_id s0 = 0" using s0(1) by (auto simp: TcpServer_new_def bind_res_eq_Inr)
  from s0(2) have "\<exists>m. s0\<lparr>threadPool := threadPool s0 @ replicate (nat n) (setMaxConnection m Worker_new)\<rparr> = srv s"
    by (auto simp: server_start_def start_loop_fresh z bind_res_eq_Inr Let_def)
  then obtain m where m: "srv s = s0\<lparr>threadPool := threadPool s0 @ replicate (nat n) (setMaxConnection m Worker_new)\<rparr>"
    by metis
  have heap: "heap (setMaxConnection m Worker_new) = []" by (simp add: setMaxConnection_def Worker_new_def)
  have "server_ids (srv s) = []" "server_fds (srv s) = []" by (simp_all add: m z server_ids_def server_fds_def heap)
  then show ?thesis
    using assms(2,3) s0(3) z by (simp add: sys_inv_def m server_inv_def fresh_worker_ok pc_ok_def heap)
qed

text \<open>A step of any thread that the operating system allows fails exactly when \<open>step_fails\<close> says so.\<close>

lemma sys_step_inv:
  assumes inv: "sys_inv hf s" and os: "os_allows act s"
  shows "(\<exists>err. sys_step hf iphash main_callbacks act s = Inl err) \<and> step_fails hf main_callbacks act s \<or>
    (sys_step hf iphash main_callbacks act s = Inr None \<or>
     (\<exists>s'. sys_step hf iphash main_callbacks act s = Inr (Some s') \<and> sys_inv hf s')) \<and> \<not> step_fails hf main_callbacks act s"
proof (cases act)
  case (Connect e fd peer)
  show ?thesis
  proof (cases "ae_flags e < 0 \<or> ae_setfl e < 0")
    case True
    then show ?thesis using connect_fails [OF True] Connect by (auto simp del: sys_step.simps)
  next
    case False
    then show ?thesis using connect_inv [OF inv, of e fd peer iphash main_callbacks] os Connect by (auto simp del: sys_step.simps)
  qed
next
  case (Cron now vm_usage resident_set)
  then show ?thesis using cron_inv [OF inv, of now vm_usage resident_set iphash main_callbacks] os by auto
next
  case (Step i e)
  then show ?thesis using step_inv [OF inv, of i e iphash] os by (simp del: sys_step.simps os_allows.simps step_fails.simps)
qed (use inv in auto)

lemma reachable_inv: "sys_reachable hf iphash main_callbacks s \<Longrightarrow> sys_inv hf s"
proof (induction rule: sys_reachable.induct)
  case (start fl now n s)
  then show ?case by (rule start_inv)
next
  case (step s act s')
  then show ?case using sys_step_inv [OF step.IH step.hyps(2), of iphash] by (auto simp del: sys_step.simps)
qed

section \<open>A worker alone\<close>

text \<open>Several steps of a worker that nothing interrupts.\<close>

fun worker_run :: "(64 word \<Rightarrow> 64 word) \<Rightarrow> callbacks \<Rightarrow> config \<Rightarrow> bool \<Rightarrow> worker_env list \<Rightarrow> worker_pc \<times> worker \<Rightarrow>
    (worker_pc \<times> worker) option res" where
  "worker_run hf cbs conf exceed [] st = Inr (Some st)"
| "worker_run hf cbs conf exceed (e # es) st =
     bind_env (worker_step hf cbs conf exceed e st) (worker_run hf cbs conf exceed es)"

lemma bind_env_assoc: "bind_env (bind_env m f) g = bind_env m (\<lambda>x. bind_env (f x) g)"
  by (cases m) (auto simp: bind_env_def split: option.split)

lemma bind_env_res: "bind_env (bind_res m (\<lambda>x. Inr (Some (f x)))) g = bind_res m (\<lambda>x. g (f x))"
  by (cases m) auto

lemma worker_run_append:
  "worker_run hf cbs conf exceed (es @ fs) st =
     bind_env (worker_run hf cbs conf exceed es st) (worker_run hf cbs conf exceed fs)"
  by (induction es arbitrary: st) (auto simp: bind_env_assoc intro!: arg_cong [where f = "bind_env m" for m] ext)

lemma run_handling:
  "worker_run hf cbs conf exceed (replicate (Suc (length evs)) e) (Handling evs, w) =
     bind_res (handle_events hf cbs evs w) (\<lambda>w1.
       Inr (Some (Registering (incomingConnection w1), w1\<lparr>incomingConnection := []\<rparr>)))"
  by (induction evs arbitrary: w) (simp_all add: bind_env_res bind_res_assoc)

lemma run_registering:
  "worker_run hf cbs conf exceed (replicate (Suc (length ps)) e) (Registering ps, w) =
     bind_res (register_loop hf cbs ps w) (\<lambda>w1. Inr (Some (Managing, w1)))"
proof (induction ps arbitrary: w)
  case (Cons p ps)
  then show ?case
    by (subst register_loop_Cons) (simp add: bind_env_res bind_res_assoc del: register_loop.simps)
qed simp

text \<open>Up to the evictions a round needs one step for each event and each queued connection, and three more.\<close>

definition round_steps :: "worker_env \<Rightarrow> nat \<Rightarrow> worker_env list" where
  "round_steps e q = replicate (length (we_events e) + q + 3) e"

lemma run_to_managing:
  assumes "handle_events hf cbs (we_events e) w = Inr w1"
  shows "worker_run hf cbs conf exceed (round_steps e (length (incomingConnection w1))) (Polling, w) =
    bind_res (registerNewConnection hf cbs w1) (\<lambda>w2. Inr (Some (Managing, w2)))"
proof -
  have "round_steps e (length (incomingConnection w1)) =
      [e] @ replicate (Suc (length (we_events e))) e @ replicate (Suc (length (incomingConnection w1))) e"
    by (simp add: round_steps_def replicate_add [symmetric] numeral_3_eq_3 del: replicate.simps flip: replicate_Suc)
  then show ?thesis
    using run_handling [of hf cbs conf exceed "we_events e" e w] assms
    by (simp add: worker_run_append run_registering registerNewConnection_def del: replicate_Suc)
qed

section \<open>An event of the echo server\<close>

lemma flags_in_out: "has_flag (EPOLLIN OR EPOLLOUT) EPOLLIN" "has_flag (EPOLLIN OR EPOLLOUT) EPOLLOUT"
  "\<not> has_flag (EPOLLIN OR EPOLLOUT) EPOLLERR" "\<not> has_flag (EPOLLIN OR EPOLLOUT) EPOLLHUP"
  by (simp_all add: has_flag_def EPOLLIN_def EPOLLOUT_def EPOLLERR_def EPOLLHUP_def)

definition plain_exchange :: "connection \<Rightarrow> event \<Rightarrow> bool" where
  "plain_exchange c ev \<longleftrightarrow> outbox c = [] \<and> ev_flags ev = (EPOLLIN OR EPOLLOUT) \<and> arrived (ev_incoming ev) \<noteq> [] \<and>
     length (arrived (ev_incoming ev)) \<le> in_room c \<and> length (arrived (ev_incoming ev)) \<le> out_room c \<and>
     (\<exists>n ks. ev_accepts ev = n # ks \<and> length (arrived (ev_incoming ev)) \<le> n)"

lemma echo_event:
  assumes ok: "worker_ok hf echo_ready w" and room: "card (dom (pool_map w)) < 2 ^ 29"
    and p: "pool_map w (ev_id ev) = Some (Some a)" and ex: "plain_exchange (heap w ! a) ev"
  shows "\<exists>w'. handle_event hf main_callbacks ev w = Inr w' \<and> pool_map w' = pool_map w \<and> heap w' \<noteq> [] \<and>
    sent w' = sent w @ [(ev_id ev, c_str (arrived (ev_incoming ev)))] \<and> outbox (heap w' ! a) = [] \<and>
    logged w' = logged w @ [(LOG_DEBUG, c_str (arrived (ev_incoming ev)))]"
proof -
  obtain b where "Some a = Some b" "b < length (heap w)" "conn_id (heap w ! b) = ev_id ev" "\<not> conn_closed (heap w ! b)"
    using worker_invD(2) [OF ok] p by (rule pool_okE) blast
  then have a: "a < length (heap w)" "conn_id (heap w ! a) = ev_id ev" "\<not> conn_closed (heap w ! a)" by simp_all
  obtain d where d: "dict_at hf None (ev_id ev) (connectionPool w) = Inr (Some a, d)" "dict_map d = pool_map w"
    using pool_at [OF ok room p] by metis
  have c: "conn_ok (heap w ! a)" "inbox (heap w ! a) = []" using worker_invD(4) [OF ok a(1)] by (simp_all add: echo_ready_def)
  obtain n ks where n: "ev_accepts ev = n # ks" "length (arrived (ev_incoming ev)) \<le> n"
    using ex by (auto simp: plain_exchange_def)
  obtain c1 ins' c2 where e: "onReadableEvent main_callbacks (ev_read_time ev) (ev_incoming ev) (heap w ! a) =
      Inr (c1, ins', [(LOG_DEBUG, c_str (arrived (ev_incoming ev)))])"
    "onWritableEvent (ev_write_time ev) (n # ks) c1 = Inr (c2, c_str (arrived (ev_incoming ev)))"
    "outbox c2 = []" "conn_id c1 = ev_id ev" "\<not> conn_closed c2"
    using echo_exchange [OF c _ _ _ _ n(2)] ex a(2,3) unfolding plain_exchange_def by metis
  let ?l = "[(LOG_DEBUG, c_str (arrived (ev_incoming ev)))]" and ?o = "c_str (arrived (ev_incoming ev))"
  let ?w1 = "w\<lparr>connectionPool := d, heap := (heap w)[a := c1], logged := logged w @ ?l\<rparr>"
  let ?w2 = "?w1\<lparr>heap := (heap w)[a := c2], sent := sent w @ [(ev_id ev, ?o)]\<rparr>"
  have f: "ev_flags ev = (EPOLLIN OR EPOLLOUT)" using ex by (simp add: plain_exchange_def)
  have "event_in main_callbacks ev (Some a) (w\<lparr>connectionPool := d\<rparr>) = Inr ?w1"
    using a(1) e(1) by (simp add: event_in_def f flags_in_out store_conn_def)
  moreover have "event_out ev (Some a) ?w1 = Inr ?w2"
    using a(1) e(2,4) n(1) by (simp add: event_out_def f flags_in_out store_conn_def)
  moreover have "event_close hf (Some a) ?w2 = Inr ?w2" using a(1) e(5) by (simp add: event_close_def)
  moreover have "event_error hf ev (Some a) (w\<lparr>connectionPool := d\<rparr>) = Inr (w\<lparr>connectionPool := d\<rparr>)"
    by (simp add: event_error_def f flags_in_out)
  ultimately have "handle_event hf main_callbacks ev w = Inr ?w2" using d(1) by (simp add: handle_event_def)
  then show ?thesis using a(1) d(2) e(3) by (auto simp: pool_map_def)
qed

text \<open>The shipped configuration with the key that the code looks for.\<close>

definition fixed_config_lines :: "string list" where
  "fixed_config_lines = yeyj_config_lines[4 := ''max-tcp = 100'']"

definition fixed_config :: config where
  "fixed_config = shipped_config\<lparr>max_tcp := Some 100\<rparr>"

lemma fixed_lines: "config_lines fixed_config_lines config_unset = Inr fixed_config"
  by code_simp

definition fixed_logger :: log_conf where
  "fixed_logger = \<lparr>logfilename = ''yeyjlogfile'', flushInterval = 1, highWaterMask = 1000, rollingRule = 3, maxSizeBytes = 1024,
     startDate = ''2016/05/09''\<rparr>"

definition sample_time :: tm where
  "sample_time = \<lparr>tm_year = 116, tm_mon = 4, tm_mday = 9, tm_hour = 10, tm_min = 20, tm_sec = 30\<rparr>"

lemma sample_time_ok: "tm_ok sample_time" "0 \<le> tm_year sample_time + 1900" "tm_year sample_time + 1900 < 10000"
  by (simp_all add: sample_time_def tm_ok_def)

lemma fixed_sys_config: "sys_config fixed_config"
  by (simp add: sys_config_def fixed_config_def shipped_config_def buffer_config_def limits_set_def)

section \<open>A run of the server\<close>

text \<open>The server starts with the fixed configuration; a client connects, and a worker registers the connection.\<close>

definition demo_connection :: "buffer \<Rightarrow> buffer \<Rightarrow> connection" where
  "demo_connection rb wb = \<lparr>conn_id = 1, connfd = 8, epoll_events = EPOLLIN OR EPOLLOUT OR EPOLLET,
     peerAddr = InetSockAddr 2 5 80, readBuffer = rb, writeBuffer = wb, lastActiveTime = 100, conn_closed = False\<rparr>"

definition demo_worker :: "buffer \<Rightarrow> buffer \<Rightarrow> worker" where
  "demo_worker rb wb = \<lparr>maxConnection = Some 50, incomingConnection = [],
     connectionPool = \<lparr>ht0 = \<lparr>ht_table = Some [Nullptr, Entry 1 (Some 0) Nullptr, Nullptr, Nullptr], ht_size = 4,
         ht_sizemask = 3, ht_used = 1\<rparr>, ht1 = dictht_empty, rehashidx = -1, iterators = 0\<rparr>,
     heap = [demo_connection rb wb], interest = [8], logged = [], sent = []\<rparr>"

definition quiet :: worker_env where
  "quiet = \<lparr>we_events = [], we_time = 200, we_random = []\<rparr>"

lemma demo_registers:
  "worker_run id main_callbacks fixed_config False [quiet, quiet, quiet, quiet, quiet, quiet]
     (Polling, push_connection (demo_connection rb wb) (setMaxConnection 50 Worker_new)) =
   Inr (Some (Polling, demo_worker rb wb))"
  by code_simp
lemma sys_start_fixed:
  "\<exists>ts. sys_start (Some (join_with NEWLINE fixed_config_lines)) sample_time 2 = Inr
     \<lparr>srv = \<lparr>cfg = fixed_config, threadPool = [setMaxConnection 50 Worker_new, setMaxConnection 50 Worker_new],
        exceedMaxMemory = False, timeString = ts, rr_index = 0, last_id = 0, logger = fixed_logger\<rparr>, pcs = [Polling, Polling]\<rparr>"
proof -
  have "\<forall>l \<in> set fixed_config_lines. NEWLINE \<notin> set l" "fixed_config_lines \<noteq> []"
    by (simp_all add: fixed_config_lines_def yeyj_config_lines_def)
  then have load: "loadConfig (Some (join_with NEWLINE fixed_config_lines)) config_unset = Inr fixed_config"
    using fixed_lines by (simp add: loadConfig_lines)
  obtain ts where ts: "updateTime sample_time = Inr ts" using updateTime_fits [OF sample_time_ok(1,2)] sample_time_ok(3) by auto
  have log: "logger_setup fixed_config (getDateAsString sample_time) = Inr fixed_logger" by code_simp
  have "TcpServer_new (Some (join_with NEWLINE fixed_config_lines)) sample_time =
      Inr \<lparr>cfg = fixed_config, threadPool = [], exceedMaxMemory = False, timeString = ts, rr_index = 0, last_id = 0, logger = fixed_logger\<rparr>"
    using load ts log by (simp add: TcpServer_new_def)
  then show ?thesis
    by (simp add: sys_start_def server_start_def start_loop_fresh fixed_config_def shipped_config_def c_div_def c_int_def INT_MAX_def INT_MIN_def
        numeral_2_eq_2)
qed

lemma worker_run_reachable:
  assumes "sys_reachable hf iphash cbs s" "i < length (pcs s)" "i < length (threadPool (srv s))"
    "\<forall>e \<in> set es. we_events e = [] \<and> INT_time (we_time e)"
    "worker_run hf cbs (cfg (srv s)) (exceedMaxMemory (srv s)) es (pcs s ! i, threadPool (srv s) ! i) = Inr (Some (pc, w))"
  shows "sys_reachable hf iphash cbs
    (s\<lparr>pcs := (pcs s)[i := pc], srv := (srv s)\<lparr>threadPool := (threadPool (srv s))[i := w]\<rparr>\<rparr>)"
  using assms
proof (induction es arbitrary: s)
  case Nil
  from Nil(5) have "pc = pcs s ! i" "w = threadPool (srv s) ! i" by simp_all
  then show ?case using Nil(1) by simp
next
  case (Cons e es)
  from Cons.prems(5) obtain r where "worker_step hf cbs (cfg (srv s)) (exceedMaxMemory (srv s)) e (pcs s ! i, threadPool (srv s) ! i) = Inr r"
    by (auto simp: bind_env_def bind_res_eq_Inr)
  with Cons.prems(5) obtain pc1 w1 where
    st: "worker_step hf cbs (cfg (srv s)) (exceedMaxMemory (srv s)) e (pcs s ! i, threadPool (srv s) ! i) = Inr (Some (pc1, w1))"
    "worker_run hf cbs (cfg (srv s)) (exceedMaxMemory (srv s)) es (pc1, w1) = Inr (Some (pc, w))"
    by (cases r) auto
  let ?s = "s\<lparr>pcs := (pcs s)[i := pc1], srv := (srv s)\<lparr>threadPool := (threadPool (srv s))[i := w1]\<rparr>\<rparr>"
  have "os_allows (Step i e) s" using Cons.prems(4) by (simp add: reported_def)
  moreover have "sys_step hf iphash cbs (Step i e) s = Inr (Some ?s)" using Cons.prems(2) st(1) by simp
  ultimately have "sys_reachable hf iphash cbs ?s" using Cons.prems(1) by (rule sys_reachable.step [rotated])
  from Cons.IH [OF this] show ?case using Cons.prems(2-4) st(2) by simp
qed

definition sample_connect :: action where
  "sample_connect = Connect \<lparr>ae_rand = 3, ae_flags = 2, ae_setfl = 0, ae_time = 100\<rparr> 8 (InetSockAddr 2 5 80)"

definition demo_buffer :: buffer where
  "demo_buffer = \<lparr>bufData = replicate 1048576 NUL, currentSize = 1048576, maxSize = 10485760, bufBegin = 0, bufEnd = 0,
     bufCount = 0, growFactor = float_1_5\<rparr>"

lemma demo_buffer_new: "Buffer_new 1048576 10485760 float_1_5 = Inr demo_buffer"
  by (simp add: Buffer_new_def new_chars0_def demo_buffer_def)

lemma demo_reachable:
  "\<exists>ts. sys_reachable id (\<lambda>_. 1) main_callbacks
     \<lparr>srv = \<lparr>cfg = fixed_config, threadPool = [setMaxConnection 50 Worker_new, demo_worker demo_buffer demo_buffer],
        exceedMaxMemory = False, timeString = ts, rr_index = 0, last_id = 1, logger = fixed_logger\<rparr>, pcs = [Polling, Polling]\<rparr>"
proof -
  let ?W = "setMaxConnection 50 Worker_new"
  obtain ts where s0: "sys_start (Some (join_with NEWLINE fixed_config_lines)) sample_time 2 = Inr
     \<lparr>srv = \<lparr>cfg = fixed_config, threadPool = [?W, ?W],
        exceedMaxMemory = False, timeString = ts, rr_index = 0, last_id = 0, logger = fixed_logger\<rparr>, pcs = [Polling, Polling]\<rparr>" (is "_ = Inr ?s0")
    using sys_start_fixed by blast
  let ?s1 = "\<lparr>srv = \<lparr>cfg = fixed_config, threadPool = [?W, push_connection (demo_connection demo_buffer demo_buffer) ?W],
        exceedMaxMemory = False, timeString = ts, rr_index = 0, last_id = 1, logger = fixed_logger\<rparr>, pcs = [Polling, Polling]\<rparr>"
  have r0: "sys_reachable id (\<lambda>_. 1) main_callbacks ?s0"
    using fixed_sys_config by (intro sys_reachable.start [OF s0]) simp_all
  have "os_allows sample_connect ?s0"
    by (simp add: sample_connect_def env_ok_def INT_time_def INT_MAX_def server_fds_def setMaxConnection_def Worker_new_def)
  moreover have "sys_step id (\<lambda>_. 1) main_callbacks sample_connect ?s0 = Inr (Some ?s1)"
    by (simp add: sample_connect_def newConnection_def load_balance_def loadBalanceIPHash_def size_mod_def fixed_config_def
        shipped_config_def TcpConnection_new_def demo_buffer_new demo_connection_def getIP_def InetSockAddr_def rd_def)
  ultimately have "sys_reachable id (\<lambda>_. 1) main_callbacks ?s1" by (rule sys_reachable.step [OF r0])
  from worker_run_reachable [OF this, of 1 "[quiet, quiet, quiet, quiet, quiet, quiet]" Polling "demo_worker demo_buffer demo_buffer"]
  show ?thesis using demo_registers by (auto simp: quiet_def INT_time_def INT_MAX_def)
qed

text \<open>An exchange with a client, and one with the client of the run.\<close>

lemma exchange_in_two_steps:
  assumes "sys_reachable hf iphash main_callbacks s" "i < length (pcs s)" "pcs s ! i = Polling"
    "os_allows (Step i e) s" "we_events e = [ev]" "pool_map (threadPool (srv s) ! i) (ev_id ev) = Some (Some a)"
    "plain_exchange (heap (threadPool (srv s) ! i) ! a) ev"
  shows "\<exists>s1 s2. sys_step hf iphash main_callbacks (Step i e) s = Inr (Some s1) \<and>
    sys_step hf iphash main_callbacks (Step i e') s1 = Inr (Some s2) \<and>
    sent (threadPool (srv s2) ! i) = sent (threadPool (srv s) ! i) @ [(ev_id ev, c_str (arrived (ev_incoming ev)))] \<and>
    pool_map (threadPool (srv s2) ! i) = pool_map (threadPool (srv s) ! i) \<and>
    outbox (heap (threadPool (srv s2) ! i) ! a) = [] \<and> length (threadPool (srv s2)) = length (threadPool (srv s)) \<and>
    logged (threadPool (srv s2) ! i) = logged (threadPool (srv s) ! i) @ [(LOG_DEBUG, c_str (arrived (ev_incoming ev)))]"
proof -
  note d = sys_invD [OF reachable_inv [OF assms(1)]]
  let ?w = "threadPool (srv s) ! i"
  have il: "i < length (threadPool (srv s))" using assms(2) d(3) by simp
  then have w: "?w \<in> set (threadPool (srv s))" by simp
  have ok: "worker_ok hf echo_ready ?w" using d(4) [OF assms(2)] by (rule worker_ok_taken)
  have "card (dom (pool_map ?w)) < 2 ^ 29" using pool_queue_le_heap [OF ok] heap_le_server [OF w] d(8,9) by simp
  from echo_event [OF ok this assms(6,7)] obtain w' where
    "handle_event hf main_callbacks ev ?w = Inr w'" "pool_map w' = pool_map ?w"
    "sent w' = sent ?w @ [(ev_id ev, c_str (arrived (ev_incoming ev)))]" "outbox (heap w' ! a) = []"
    "logged w' = logged ?w @ [(LOG_DEBUG, c_str (arrived (ev_incoming ev)))]" by blast
  then show ?thesis using assms(2,3,5) il by simp
qed

definition demo_exchange :: worker_env where
  "demo_exchange = \<lparr>we_events = [sample_event], we_time = 300, we_random = []\<rparr>"

lemma demo_exchange_facts:
  "\<exists>s. sys_reachable id (\<lambda>_. 1) main_callbacks s \<and> 1 < length (pcs s) \<and> pcs s ! 1 = Polling \<and>
     os_allows (Step 1 demo_exchange) s \<and> pool_map (threadPool (srv s) ! 1) (ev_id sample_event) = Some (Some 0) \<and>
     plain_exchange (heap (threadPool (srv s) ! 1) ! 0) sample_event \<and> sent (threadPool (srv s) ! 1) = []"
proof -
  let ?w = "demo_worker demo_buffer demo_buffer" and ?c = "demo_connection demo_buffer demo_buffer"
  obtain ts where r: "sys_reachable id (\<lambda>_. 1) main_callbacks
     \<lparr>srv = \<lparr>cfg = fixed_config, threadPool = [setMaxConnection 50 Worker_new, ?w],
        exceedMaxMemory = False, timeString = ts, rr_index = 0, last_id = 1, logger = fixed_logger\<rparr>, pcs = [Polling, Polling]\<rparr>"
    (is "sys_reachable _ _ _ ?s") using demo_reachable by blast
  have pool: "pool_map ?w = [1 \<mapsto> Some 0]"
    by (simp add: pool_map_def demo_worker_def dict_map_def dict_entries_def ht_entries_def)
  have c: "heap ?w ! 0 = ?c" "conn_id ?c = 1" "connfd ?c = 8" "interest ?w = [8]" "length (heap ?w) = 1" "sent ?w = []"
    by (simp_all add: demo_worker_def demo_connection_def)
  have room: "outbox ?c = []" "in_room ?c = 10485760" "out_room ?c = 10485760"
    by (simp_all add: demo_connection_def demo_buffer_def outbox_def contents_def in_room_def out_room_def getMaxSpace_def)
  have "os_allows (Step 1 demo_exchange) ?s"
    by (simp add: reported_def demo_exchange_def sample_event_def INT_time_def INT_MAX_def c)
  moreover have "plain_exchange (heap ?w ! 0) sample_event" by (simp add: plain_exchange_def sample_event_def c room)
  moreover have "ev_id sample_event = 1" by (simp add: sample_event_def)
  ultimately show ?thesis using r pool c(6) by (intro exI [of _ ?s]) simp
qed

lemma demo_exchange_events: "we_events demo_exchange = [sample_event]" "ev_id sample_event = 1"
  "c_str (arrived (ev_incoming sample_event)) = ''hi''"
  by (simp_all add: demo_exchange_def sample_event_def c_str_def)

lemma demo_exchange_run:
  "\<exists>s s1 s2. sys_reachable id (\<lambda>_. 1) main_callbacks s \<and> os_allows (Step 1 demo_exchange) s \<and>
     sys_step id (\<lambda>_. 1) main_callbacks (Step 1 demo_exchange) s = Inr (Some s1) \<and> os_allows (Step 1 quiet) s1 \<and>
     sys_step id (\<lambda>_. 1) main_callbacks (Step 1 quiet) s1 = Inr (Some s2) \<and> 1 < length (threadPool (srv s2)) \<and>
     sent (threadPool (srv s2) ! 1) = [(1, ''hi'')]"
proof -
  obtain s where s: "sys_reachable id (\<lambda>_. 1) main_callbacks s" "1 < length (pcs s)" "pcs s ! 1 = Polling"
    "os_allows (Step 1 demo_exchange) s" "pool_map (threadPool (srv s) ! 1) (ev_id sample_event) = Some (Some 0)"
    "plain_exchange (heap (threadPool (srv s) ! 1) ! 0) sample_event" "sent (threadPool (srv s) ! 1) = []"
    using demo_exchange_facts by blast
  have "1 < length (threadPool (srv s))" using sys_invD(3) [OF reachable_inv [OF s(1)]] s(2) by simp
  moreover have "os_allows (Step 1 quiet) s'" for s' by (simp add: quiet_def reported_def INT_time_def INT_MAX_def)
  ultimately show ?thesis
    using exchange_in_two_steps [OF s(1-4) demo_exchange_events(1) s(5,6), of quiet] s(1,4,7) demo_exchange_events(2,3)
    by (auto simp del: sys_step.simps os_allows.simps)
qed

section \<open>Properties\<close>





text \<open>Every connection in the queue of a worker that waits in \<open>epoll_wait\<close> gets registered: after as many steps of the
  worker as there are events and queued connections, and three more, it is in the pool under its own id. No step
  fails, and the invariant holds afterwards.\<close>

lemma queue_gets_registered:
  assumes ok: "worker_ok hf echo_ready w" and room: "pool_room w" and rep: "reported w (we_events e)"
  shows "\<exists>w'. worker_run hf main_callbacks conf exceed (round_steps e (length (incomingConnection w))) (Polling, w) =
      Inr (Some (Managing, w')) \<and> worker_ok hf echo_ready w' \<and> same_conns w w' \<and>
    (\<forall>a. Some a \<in> set (incomingConnection w) \<longrightarrow> pool_map w' (conn_id (heap w ! a)) = Some (Some a))"
proof -
  note round = reported_round_events [OF ok rep]
  have "card (dom (pool_map w)) < 2 ^ 29" using room by (simp add: pool_room_def)
  with echo.handle_events_ok [OF ok] round obtain w1 where w1: "handle_events hf main_callbacks (we_events e) w = Inr w1"
    "worker_ok hf echo_ready w1" "incomingConnection w1 = incomingConnection w" "pool_map w1 \<subseteq>\<^sub>m pool_map w" "same_conns w w1"
    unfolding round_events_def by blast
  have "pool_room w1" using room w1(3) card_pool_le [OF w1(4)] by (simp add: pool_room_def)
  then obtain w2 where w2: "registerNewConnection hf main_callbacks w1 = Inr w2" "worker_ok hf echo_ready w2" "same_conns w1 w2"
    "\<forall>a. Some a \<in> set (incomingConnection w1) \<longrightarrow> pool_map w2 (conn_id (heap w1 ! a)) = Some (Some a)"
    using echo.registerNewConnection_ok [OF w1(2)] by blast
  have "conn_id (heap w1 ! a) = conn_id (heap w ! a)" if "Some a \<in> set (incomingConnection w)" for a
  proof -
    from worker_invD(3) [OF ok] that have "a < length (heap w)" by (auto simp: queue_ok_def)
    then show ?thesis by (rule same_connsD(2) [OF w1(5)])
  qed
  with w2(4) w1(3) have "\<forall>a. Some a \<in> set (incomingConnection w) \<longrightarrow> pool_map w2 (conn_id (heap w ! a)) = Some (Some a)"
    by simp
  then show ?thesis
    using run_to_managing [OF w1(1), of conf exceed] w1(3) w2(1,2) same_conns_trans [OF w1(5) w2(3)] by simp
qed

lemma queue_gets_registered_witness:
  "\<exists>w'. worker_run id main_callbacks shipped_config True (round_steps demo_exchange 1) (Polling, sample_worker) =
     Inr (Some (Managing, w')) \<and> pool_map w' 2 = Some (Some 1)"
proof -
  have "reported sample_worker (we_events demo_exchange)"
    by (simp add: reported_def demo_exchange_def sample_event_def INT_time_def INT_MAX_def sample_worker_def sample_connection_def
        exI [of _ "0 :: nat"])
  moreover have "incomingConnection sample_worker = [Some 1]" "conn_id (heap sample_worker ! 1) = 2" by (simp_all add: sample_worker_def)
  ultimately show ?thesis
    using queue_gets_registered [OF sample_worker_facts(2,3), of demo_exchange shipped_config True] by auto
qed

text \<open>The round of a worker, as the theory \<open>Worker\<close> has it, is what the worker's thread does step by step when the main
  thread puts nothing into its queue meanwhile: whenever the round gives a worker, a run of steps from \<open>epoll_wait\<close> back to
  \<open>epoll_wait\<close> gives the same one.\<close>

lemma work_round_as_steps:
  assumes "work_round hf cbs conf evs t1 t2 exceed rs w = Inr (Some w')"
  shows "\<exists>es. worker_run hf cbs conf exceed es (Polling, w) = Inr (Some (Polling, w'))"
proof -
  obtain w1 w2 where w: "handle_events hf cbs evs w = Inr w1" "registerNewConnection hf cbs w1 = Inr w2"
    and r: "bind_env (manageInactiveConnection hf conf t1 rs w2) (\<lambda>(rs1, w3).
     bind_res (get_set (max_tcp_per_worker conf)) (\<lambda>mx.
       if dict_size (connectionPool w3) > mx \<or> exceed
       then bind_env (eviction hf conf t2 rs1 w3) (\<lambda>(_, w4). Inr (Some w4))
       else Inr (Some w3))) = Inr (Some w')"
    using assms unfolding work_round_def by (auto simp: bind_res_eq_Inr)
  from r obtain x where x: "manageInactiveConnection hf conf t1 rs w2 = Inr x" by (auto simp: bind_env_def bind_res_eq_Inr)
  with r obtain rs1 w3 where m: "manageInactiveConnection hf conf t1 rs w2 = Inr (Some (rs1, w3))" by (cases x) auto
  let ?e = "\<lparr>we_events = evs, we_time = t1, we_random = rs\<rparr>" and ?f = "\<lparr>we_events = [], we_time = t2, we_random = rs1\<rparr>"
  have "worker_run hf cbs conf exceed (round_steps ?e (length (incomingConnection w1)) @ [?e, ?f]) (Polling, w) =
      worker_run hf cbs conf exceed [?f] (Limiting, w3)"
    using run_to_managing [of hf cbs ?e w w1 conf exceed] w m by (simp add: worker_run_append)
  also have "\<dots> = Inr (Some (Polling, w'))"
    using r m by (auto simp: bind_res_eq_Inr bind_env_def bind_res_assoc split: if_splits option.splits intro!: exI)
  finally show ?thesis by blast
qed

lemma work_round_as_steps_witness:
  "\<exists>rs w' es. work_round id main_callbacks shipped_config [sample_event] 9 9 True rs sample_worker = Inr (Some w') \<and>
     worker_run id main_callbacks shipped_config True es (Polling, sample_worker) = Inr (Some (Polling, w'))"
proof -
  have "round_events sample_worker [sample_event]"
    by (simp add: round_events_def sample_worker_facts sample_event_def INT_time_def INT_MAX_def)
  moreover have "round_config shipped_config True"
    by (simp add: round_config_def shipped_config_def MAX_TCP_EVICTION_RANDOM_def)
  ultimately obtain ss w' where "work_round id main_callbacks shipped_config [sample_event] 9 9 True (ss @ []) sample_worker = Inr (Some w')"
    using echo.work_round_draws [OF sample_worker_facts(2,3), of "[sample_event]" shipped_config True 9 9]
    by (auto simp: INT_time_def INT_MAX_def)
  then show ?thesis using work_round_as_steps by blast
qed

end
