(* ===== verification/Threads.thy ===== *)
theory Threads
  imports Prelude
begin

text \<open>
  The wrappers of pthread calls: \<open>MutexLock\<close> and \<open>MutexLockGuard\<close> of \<open>src/mutex.h\<close>, \<open>Condition\<close> of \<open>src/condition.h\<close>
  (the deadline of \<open>waitForSeconds\<close> is in \<open>Sock_Addr\<close>) and \<open>Thread\<close> of \<open>src/thread.h\<close>. The pthread objects are modelled by
  what POSIX says of them: the owner of a mutex, the threads that wait on a condition, the threads that run and those that
  have ended and not been joined. A thread is a number. A call that has to wait has no result for now, \<open>None\<close>;
  a call that POSIX leaves undefined is the error \<open>Bad_Handle\<close>. The locale \<open>monitor\<close> is what a client needs of the lock.
\<close>

section \<open>MutexLock and MutexLockGuard\<close>

record mutex_lock =
  mutex_owner :: "nat option"
  holder :: int

definition MutexLock_new :: mutex_lock where
  "MutexLock_new = \<lparr>mutex_owner = None, holder = 0\<rparr>"

definition mutex_lock :: "nat \<Rightarrow> mutex_lock \<Rightarrow> mutex_lock option" where
  "mutex_lock t m = (case mutex_owner m of None \<Rightarrow> Some (m\<lparr>mutex_owner := Some t\<rparr>) | Some _ \<Rightarrow> None)"

definition mutex_unlock :: "nat \<Rightarrow> mutex_lock \<Rightarrow> mutex_lock res" where
  "mutex_unlock t m = (if mutex_owner m = Some t then Inr (m\<lparr>mutex_owner := None\<rparr>) else Inl Bad_Handle)"

text \<open>Destroying a locked mutex is undefined.\<close>

definition MutexLock_delete :: "mutex_lock \<Rightarrow> mutex_lock res" where
  "MutexLock_delete m = (let m1 = m\<lparr>holder := 0\<rparr> in if mutex_owner m1 = None then Inr m1 else Inl Bad_Handle)"

definition MutexLockGuard_new :: "nat \<Rightarrow> mutex_lock \<Rightarrow> mutex_lock option" where
  "MutexLockGuard_new t m = mutex_lock t m"

definition MutexLockGuard_delete :: "nat \<Rightarrow> mutex_lock \<Rightarrow> mutex_lock res" where
  "MutexLockGuard_delete t m = mutex_unlock t m"

section \<open>Condition\<close>

record condition = waiters :: "nat list"

definition Condition_new :: condition where "Condition_new = \<lparr>waiters = []\<rparr>"

text \<open>\<open>pthread_cond_wait\<close> and \<open>pthread_cond_timedwait\<close>, in two parts. The first lets the thread wait and releases the mutex.
  The second is over when the thread has been signalled or, with \<open>by_itself\<close>, when the time is up or it wakes up
  without a reason; after it the thread takes the mutex again.\<close>

definition cond_wait :: "nat \<Rightarrow> condition \<times> mutex_lock \<Rightarrow> (condition \<times> mutex_lock) res" where
  "cond_wait t cm = bind_res (mutex_unlock t (snd cm)) (\<lambda>m. Inr ((fst cm)\<lparr>waiters := waiters (fst cm) @ [t]\<rparr>, m))"

definition cond_wakes :: "nat \<Rightarrow> bool \<Rightarrow> condition \<Rightarrow> condition option" where
  "cond_wakes t by_itself c =
     (if t \<notin> set (waiters c) then Some c else if by_itself then Some (c\<lparr>waiters := removeAll t (waiters c)\<rparr>) else None)"

text \<open>\<open>pthread_cond_signal\<close> unblocks one of the threads that wait, the system chooses which; \<open>pthread_cond_broadcast\<close> all.\<close>

definition notify :: "nat \<Rightarrow> condition \<Rightarrow> condition" where
  "notify k c = (if k < length (waiters c) then c\<lparr>waiters := removeAll (waiters c ! k) (waiters c)\<rparr>
     else c\<lparr>waiters := tl (waiters c)\<rparr>)"

definition notifyAll :: "condition \<Rightarrow> condition" where
  "notifyAll c = c\<lparr>waiters := []\<rparr>"

section \<open>Thread\<close>

record thread =
  thread_name :: string
  thread_id :: nat

record os_threads =
  live_threads :: "nat list"
  ended_threads :: "nat list"

definition Thread_new :: "string \<Rightarrow> thread" where
  "Thread_new name = \<lparr>thread_name = name, thread_id = 0\<rparr>"

definition Thread_getTid :: "thread \<Rightarrow> nat" where "Thread_getTid th = thread_id th"
definition Thread_getName :: "thread \<Rightarrow> string" where "Thread_getName th = thread_name th"

text \<open>\<open>start()\<close>: \<open>pthread_create\<close> makes the thread \<open>t\<close>, which runs \<open>startThread\<close>; the thread ends when \<open>startThread\<close> returns.\<close>

definition thread_start :: "nat \<Rightarrow> thread \<times> os_threads \<Rightarrow> thread \<times> os_threads" where
  "thread_start t to = ((fst to)\<lparr>thread_id := t\<rparr>, (snd to)\<lparr>live_threads := live_threads (snd to) @ [t]\<rparr>)"

definition startThread_returns :: "nat \<Rightarrow> os_threads \<Rightarrow> os_threads" where
  "startThread_returns t os = os\<lparr>live_threads := removeAll t (live_threads os), ended_threads := ended_threads os @ [t]\<rparr>"

definition thread_join :: "thread \<Rightarrow> os_threads \<Rightarrow> os_threads option res" where
  "thread_join th os =
     (if thread_id th \<in> set (ended_threads os) then Inr (Some (os\<lparr>ended_threads := removeAll (thread_id th) (ended_threads os)\<rparr>))
      else if thread_id th \<in> set (live_threads os) then Inr None
      else Inl Bad_Handle)"

text \<open>The destructor detaches. A joined thread no longer exists, and a thread that was never started has the id 0.\<close>

definition Thread_delete :: "thread \<Rightarrow> os_threads \<Rightarrow> os_threads res" where
  "Thread_delete th os =
     (if thread_id th \<in> set (ended_threads os) \<union> set (live_threads os)
      then Inr (os\<lparr>ended_threads := removeAll (thread_id th) (ended_threads os)\<rparr>) else Inl Bad_Handle)"

section \<open>What a client of the lock needs\<close>

text \<open>The mutex is held by the thread that is in its critical section, if there is one.\<close>

definition guards :: "('m \<Rightarrow> nat option) \<Rightarrow> 'm \<Rightarrow> (nat \<Rightarrow> bool) \<Rightarrow> bool" where
  "guards own m crit \<longleftrightarrow> (\<forall>t. own m = Some t \<longleftrightarrow> crit t)"

lemma guards_exclusive: "guards own m crit \<Longrightarrow> crit t \<Longrightarrow> crit u \<Longrightarrow> t = u"
  by (metis guards_def option.inject)

locale monitor =
  fixes acquire :: "nat \<Rightarrow> 'm \<Rightarrow> 'm option" and release :: "nat \<Rightarrow> 'm \<Rightarrow> 'm res" and owner_of :: "'m \<Rightarrow> nat option"
  assumes acquire_free: "owner_of m = None \<Longrightarrow> \<exists>m'. acquire t m = Some m' \<and> owner_of m' = Some t"
    and acquire_busy: "owner_of m = Some u \<Longrightarrow> acquire t m = None"
    and release_own: "owner_of m = Some t \<Longrightarrow> \<exists>m'. release t m = Inr m' \<and> owner_of m' = None"
begin

lemma acquireD: "acquire t m = Some m' \<Longrightarrow> owner_of m = None \<and> owner_of m' = Some t"
proof -
  assume a: "acquire t m = Some m'"
  then have "owner_of m = None" using acquire_busy by (cases "owner_of m") fastforce+
  with acquire_free [of m t] a show ?thesis by auto
qed

lemma acquire_blocked: "acquire t m = None \<longleftrightarrow> owner_of m \<noteq> None"
  using acquireD acquire_busy acquire_free by (metis not_None_eq)

lemma releaseE:
  assumes "owner_of m = Some t"
  obtains m' where "release t m = Inr m'" "owner_of m' = None"
  using release_own [OF assms] by blast

text \<open>How the guard moves: entering a critical section, leaving it, waiting.\<close>

lemma guards_acquire:
  assumes "guards owner_of m crit" "acquire t m = Some m'"
  shows "guards owner_of m' (crit(t := True))"
  using acquireD [OF assms(2)] assms(1) by (auto simp: guards_def)

lemma guards_release:
  assumes "guards owner_of m crit" "crit t"
  shows "\<exists>m'. release t m = Inr m' \<and> guards owner_of m' (crit(t := False))"
proof -
  have "owner_of m = Some t" using assms by (simp add: guards_def)
  from releaseE [OF this] obtain m' where m': "release t m = Inr m'" "owner_of m' = None" .
  have "u = t" if "crit u" for u using guards_exclusive [OF assms(1) that assms(2)] .
  with m' show ?thesis by (auto simp: guards_def)
qed

lemma guards_blocked: "guards owner_of m crit \<Longrightarrow> acquire t m = None \<longleftrightarrow> (\<exists>u. crit u)"
  unfolding acquire_blocked guards_def by (metis not_None_eq)

end

interpretation lock: monitor mutex_lock mutex_unlock mutex_owner
  by unfold_locales (auto simp: mutex_lock_def mutex_unlock_def)

interpretation guard: monitor MutexLockGuard_new MutexLockGuard_delete mutex_owner
  by unfold_locales (auto simp: MutexLockGuard_new_def MutexLockGuard_delete_def mutex_lock_def mutex_unlock_def)

section \<open>Facts\<close>

text \<open>A thread that is started and returns can be joined once; the destructor after that detaches a thread that does not exist.\<close>

lemma join_then_destroy:
  assumes "t \<notin> set (live_threads os)" "t \<notin> set (ended_threads os)" "thread_start t (th, os) = (th1, os1)"
  shows "thread_join th1 os1 = Inr None \<and>
    (\<exists>os2. thread_join th1 (startThread_returns t os1) = Inr (Some os2) \<and> Thread_delete th1 os2 = Inl Bad_Handle)"
  using assms by (auto simp: thread_start_def thread_join_def startThread_returns_def Thread_delete_def)

lemma destroy_unstarted: "0 \<notin> set (live_threads os) \<union> set (ended_threads os) \<Longrightarrow> Thread_delete (Thread_new n) os = Inl Bad_Handle"
  by (simp add: Thread_delete_def Thread_new_def)

end
