(* ===== verification/Log_Threads.thy ===== *)
theory Log_Threads
  imports Async_Log Threads "HOL-Library.Multiset"
begin

text \<open>
  \<open>AsyncLogging\<close> of \<open>src/asyncLogging.cpp\<close> once more, with its threads: the owner, which calls \<open>start()\<close> and \<open>stop()\<close>, the log
  thread, and any number of threads that call \<open>append\<close>. They interleave between statements, and the mutex, the condition
  and the thread object are those of the theory \<open>Threads\<close>. \<open>Async_Log\<close> takes a critical section for one step and does
  not have the waiting; here it is shown that each step of the threads is one step of it, or none, so that what is proved
  there holds here. The two statements of \<open>append\<close> that change the buffer and the counter are one step. Members that are read without the
  mutex (\<open>_running\<close>, \<open>_accumulateBytes\<close>, \<open>_currentBuffer\<close> after the loop) are read as if they were atomic.
\<close>

section \<open>State\<close>

text \<open>Where the log thread is. \<open>L_Locked\<close>, \<open>L_Swap\<close>, \<open>L_Unlock\<close>, \<open>L_Reset\<close> and \<open>L_RUnlock\<close> are in critical sections; in
  \<open>L_Waiting\<close> the thread is in \<open>waitForSeconds\<close>, in \<open>L_Relock\<close> it has been woken up and takes the mutex again.\<close>

datatype log_thread_pc = L_None | L_Open | L_Test | L_Lock | L_Locked | L_Waiting | L_Relock | L_Swap | L_Unlock | L_Empty |
  L_Write | L_Roll | L_RLock | L_Reset | L_RUnlock | L_Reopen | L_Final | L_Done | L_Crash

datatype append_pc = A_Idle | A_Lock string | A_Push string | A_Signal | A_Unlock

datatype owner_pc = O_New | O_Start | O_Running | O_Stop | O_Join | O_Stopped

record log_threads = log_data +
  lmutex :: mutex_lock
  lcond :: condition
  lthread :: thread
  los :: os_threads
  lpc :: log_thread_pc
  opc :: owner_pc
  apcs :: "append_pc list"

definition log_tid :: nat where "log_tid = 1"
definition append_tid :: "nat \<Rightarrow> nat" where "append_tid i = i + 2"

text \<open>After the constructor, with \<open>n\<close> threads that may call \<open>append\<close>.\<close>

definition threads_init :: "log_conf \<Rightarrow> nat \<Rightarrow> log_threads" where
  "threads_init conf n = \<lparr>running = False, currentBuffer = [], nextBuffer = [], accumulateBytes = 0,
     currentDate = startDate conf, suffix = 0, files = [], pushed = [], lmutex = MutexLock_new, lcond = Condition_new,
     lthread = Thread_new ''Log'', los = \<lparr>live_threads = [], ended_threads = []\<rparr>, lpc = L_None, opc = O_New,
     apcs = replicate n A_Idle\<rparr>"

section \<open>Steps\<close>

text \<open>A step has no result, \<open>Inr None\<close>, when the thread is blocked, has ended or has nothing to do.\<close>

definition take_lock :: "nat \<Rightarrow> log_threads \<Rightarrow> log_threads option" where
  "take_lock t s = (case MutexLockGuard_new t (lmutex s) of None \<Rightarrow> None | Some m \<Rightarrow> Some (s\<lparr>lmutex := m\<rparr>))"

definition drop_lock :: "nat \<Rightarrow> log_threads \<Rightarrow> log_threads res" where
  "drop_lock t s = bind_res (MutexLockGuard_delete t (lmutex s)) (\<lambda>m. Inr (s\<lparr>lmutex := m\<rparr>))"

definition goto :: "log_thread_pc \<Rightarrow> log_threads \<Rightarrow> log_threads" where "goto p s = s\<lparr>lpc := p\<rparr>"

text \<open>\<open>size() < _highWaterMask\<close> compares a \<open>size_t\<close> with an \<open>int\<close>, as \<open>size_t\<close>.\<close>

definition below_mask :: "log_conf \<Rightarrow> string list \<Rightarrow> bool" where
  "below_mask conf b \<longleftrightarrow> (of_nat (length b) :: 64 word) < word_of_int (highWaterMask conf)"

text \<open>\<open>start()\<close>, \<open>stop()\<close>.\<close>

definition owner_step :: "log_threads \<Rightarrow> log_threads option res" where
  "owner_step s = (case opc s of
       O_New \<Rightarrow> Inr (Some (s\<lparr>running := True, opc := O_Start\<rparr>))
     | O_Start \<Rightarrow> (case thread_start log_tid (lthread s, los s) of
           (th, os) \<Rightarrow> Inr (Some (s\<lparr>lthread := th, los := os, lpc := L_Open, opc := O_Running\<rparr>)))
     | O_Running \<Rightarrow> Inr (Some (s\<lparr>lcond := notifyAll (lcond s), opc := O_Stop\<rparr>))
     | O_Stop \<Rightarrow> Inr (Some (s\<lparr>running := False, opc := O_Join\<rparr>))
     | O_Join \<Rightarrow> bind_res (thread_join (lthread s) (los s)) (\<lambda>r. case r of
           None \<Rightarrow> Inr None
         | Some os \<Rightarrow> Inr (Some (s\<lparr>los := os, opc := O_Stopped\<rparr>)))
     | O_Stopped \<Rightarrow> Inr None)"

text \<open>\<open>append(l)\<close> of thread \<open>i\<close>; \<open>k\<close> is the system's choice of the thread to be signalled.\<close>

definition append_step :: "log_conf \<Rightarrow> nat \<Rightarrow> string \<Rightarrow> nat \<Rightarrow> log_threads \<Rightarrow> log_threads option res" where
  "append_step conf i l k s =
     (if \<not> i < length (apcs s) then Inr None
      else case apcs s ! i of
       A_Idle \<Rightarrow> Inr (Some (if \<not> running s then s else s\<lparr>apcs := (apcs s)[i := A_Lock l]\<rparr>))
     | A_Lock logline \<Rightarrow> (case take_lock (append_tid i) s of
           None \<Rightarrow> Inr None | Some s1 \<Rightarrow> Inr (Some (s1\<lparr>apcs := (apcs s1)[i := A_Push logline]\<rparr>)))
     | A_Push logline \<Rightarrow> Inr (Some ((push_line logline s)\<lparr>apcs := (apcs s)[i := A_Signal]\<rparr>))
     | A_Signal \<Rightarrow> Inr (Some
          ((if \<not> below_mask conf (currentBuffer s) \<or> accumulateBytes s > maxSizeBytes conf
            then s\<lparr>lcond := notify k (lcond s)\<rparr> else s)\<lparr>apcs := (apcs s)[i := A_Unlock]\<rparr>))
     | A_Unlock \<Rightarrow> bind_res (drop_lock (append_tid i) s) (\<lambda>s1. Inr (Some (s1\<lparr>apcs := (apcs s1)[i := A_Idle]\<rparr>))))"

definition lock_goto :: "log_thread_pc \<Rightarrow> log_threads \<Rightarrow> log_threads option res" where
  "lock_goto p s = (case take_lock log_tid s of None \<Rightarrow> Inr None | Some s1 \<Rightarrow> Inr (Some (goto p s1)))"

definition unlock_goto :: "log_thread_pc \<Rightarrow> log_threads \<Rightarrow> log_threads option res" where
  "unlock_goto p s = bind_res (drop_lock log_tid s) (\<lambda>s1. Inr (Some (goto p s1)))"

text \<open>\<open>threadFunction\<close>. \<open>now\<close> is the clock \<open>waitForSeconds\<close> reads; an invalid deadline makes it return at once, with the
  mutex still held.\<close>

definition log_thread_step :: "log_conf \<Rightarrow> string \<Rightarrow> timespec \<Rightarrow> bool \<Rightarrow> log_threads \<Rightarrow> log_threads option res" where
  "log_thread_step conf today now by_itself s = (case lpc s of
       L_None \<Rightarrow> Inr None
     | L_Open \<Rightarrow> Inr (Some (goto L_Test (open_next conf s)))
     | L_Test \<Rightarrow> Inr (Some (goto (if running s then L_Lock else L_Final) s))
     | L_Lock \<Rightarrow> lock_goto L_Locked s
     | L_Locked \<Rightarrow>
         (if running s \<and> below_mask conf (currentBuffer s) \<and> waitForSeconds_waits (flushInterval conf) now
          then bind_res (cond_wait log_tid (lcond s, lmutex s)) (\<lambda>(c, m).
                 Inr (Some (goto L_Waiting (s\<lparr>lcond := c, lmutex := m\<rparr>))))
          else Inr (Some (goto L_Swap s)))
     | L_Waiting \<Rightarrow> (case cond_wakes log_tid by_itself (lcond s) of
           None \<Rightarrow> Inr None | Some c \<Rightarrow> Inr (Some (goto L_Relock (s\<lparr>lcond := c\<rparr>))))
     | L_Relock \<Rightarrow> lock_goto L_Swap s
     | L_Swap \<Rightarrow> Inr (Some (goto L_Unlock (s\<lparr>currentBuffer := nextBuffer s, nextBuffer := currentBuffer s\<rparr>)))
     | L_Unlock \<Rightarrow> unlock_goto L_Empty s
     | L_Empty \<Rightarrow> Inr (Some (goto (if nextBuffer s = [] then L_Test else L_Write) s))
     | L_Write \<Rightarrow> (case writeLines (nextBuffer s) of
           Inl _ \<Rightarrow> Inr (Some (goto L_Crash s))
         | Inr t \<Rightarrow> Inr (Some (goto L_Roll ((add_text t s)\<lparr>nextBuffer := []\<rparr>))))
     | L_Roll \<Rightarrow> Inr (Some (goto (case roll conf today s of Resetting \<Rightarrow> L_RLock | Opening \<Rightarrow> L_Reopen | _ \<Rightarrow> L_Test) s))
     | L_RLock \<Rightarrow> lock_goto L_Reset s
     | L_Reset \<Rightarrow> Inr (Some (goto L_RUnlock (s\<lparr>accumulateBytes := 0\<rparr>)))
     | L_RUnlock \<Rightarrow> unlock_goto L_Reopen s
     | L_Reopen \<Rightarrow> Inr (Some (goto L_Test (open_next conf s)))
     | L_Final \<Rightarrow> (case writeLines (currentBuffer s) of
           Inl _ \<Rightarrow> Inr (Some (goto L_Crash s))
         | Inr t \<Rightarrow> Inr (Some (goto L_Done ((add_text t s)\<lparr>los := startThread_returns log_tid (los s)\<rparr>))))
     | L_Done \<Rightarrow> Inr None
     | L_Crash \<Rightarrow> Inr None)"

datatype log_action = Owner_Acts | Append_Acts nat string nat | Log_Acts string timespec bool

fun threads_step :: "log_conf \<Rightarrow> log_action \<Rightarrow> log_threads \<Rightarrow> log_threads option res" where
  "threads_step conf Owner_Acts s = owner_step s"
| "threads_step conf (Append_Acts i l k) s = append_step conf i l k s"
| "threads_step conf (Log_Acts today now by_itself) s = log_thread_step conf today now by_itself s"

inductive threads_reachable :: "log_conf \<Rightarrow> nat \<Rightarrow> log_threads \<Rightarrow> bool" for conf n where
  init: "threads_reachable conf n (threads_init conf n)"
| step: "threads_reachable conf n s \<Longrightarrow> threads_step conf act s = Inr (Some s') \<Longrightarrow> threads_reachable conf n s'"

section \<open>The locks\<close>

definition log_critical :: "log_thread_pc \<Rightarrow> bool" where
  "log_critical p \<longleftrightarrow> p \<in> {L_Locked, L_Swap, L_Unlock, L_Reset, L_RUnlock}"

definition append_critical :: "append_pc \<Rightarrow> bool" where
  "append_critical p \<longleftrightarrow> (case p of A_Push _ \<Rightarrow> True | A_Signal \<Rightarrow> True | A_Unlock \<Rightarrow> True | _ \<Rightarrow> False)"

text \<open>The mutex is held by the thread that is in a critical section, only the log thread waits on the condition, and the
  thread object belongs to the log thread.\<close>

definition lock_inv :: "log_threads \<Rightarrow> bool" where
  "lock_inv s \<longleftrightarrow> (mutex_owner (lmutex s) = Some log_tid \<longleftrightarrow> log_critical (lpc s)) \<and>
     (\<forall>i < length (apcs s). mutex_owner (lmutex s) = Some (append_tid i) \<longleftrightarrow> append_critical (apcs s ! i)) \<and>
     (\<forall>t. mutex_owner (lmutex s) = Some t \<longrightarrow> t = log_tid \<or> (\<exists>i < length (apcs s). t = append_tid i)) \<and>
     (waiters (lcond s) = [] \<or> waiters (lcond s) = [log_tid] \<and> lpc s = L_Waiting)"

definition owner_inv :: "log_threads \<Rightarrow> bool" where
  "owner_inv s \<longleftrightarrow> (lpc s = L_None \<longleftrightarrow> opc s \<in> {O_New, O_Start}) \<and> (opc s = O_Stopped \<longrightarrow> lpc s = L_Done) \<and>
     (running s \<longleftrightarrow> opc s \<in> {O_Start, O_Running, O_Stop}) \<and> (lpc s \<noteq> L_None \<longrightarrow> thread_id (lthread s) = log_tid) \<and>
     (lpc s = L_None \<longrightarrow> ended_threads (los s) = [] \<and> live_threads (los s) = []) \<and>
     (lpc s \<notin> {L_None, L_Done} \<longrightarrow> live_threads (los s) = [log_tid] \<and> ended_threads (los s) = []) \<and>
     (lpc s = L_Done \<longrightarrow> live_threads (los s) = [] \<and>
        ended_threads (los s) = (if opc s = O_Stopped then [] else [log_tid]))"

lemma tids [simp]: "append_tid i \<noteq> log_tid" "log_tid \<noteq> append_tid i" "append_tid i = append_tid j \<longleftrightarrow> i = j"
  by (simp_all add: append_tid_def log_tid_def)

lemma take_lockD:
  assumes "take_lock t s = Some s1"
  obtains m where "s1 = s\<lparr>lmutex := m\<rparr>" "mutex_owner (lmutex s) = None" "mutex_owner m = Some t"
proof -
  from assms obtain m where m: "MutexLockGuard_new t (lmutex s) = Some m" "s1 = s\<lparr>lmutex := m\<rparr>"
    by (auto simp: take_lock_def split: option.splits)
  with guard.acquireD [OF m(1)] show ?thesis using that by blast
qed

lemma take_lock_blocked: "take_lock t s = None \<longleftrightarrow> mutex_owner (lmutex s) \<noteq> None"
  using guard.acquire_blocked [of t "lmutex s"] by (cases "MutexLockGuard_new t (lmutex s)") (simp_all add: take_lock_def)

lemma drop_lock_own:
  assumes "mutex_owner (lmutex s) = Some t"
  obtains m where "drop_lock t s = Inr (s\<lparr>lmutex := m\<rparr>)" "mutex_owner m = None"
proof -
  from guard.releaseE [OF assms] obtain m where "MutexLockGuard_delete t (lmutex s) = Inr m" "mutex_owner m = None" .
  then show ?thesis using that by (simp add: drop_lock_def)
qed

lemma lock_invD:
  assumes "lock_inv s"
  shows "mutex_owner (lmutex s) = Some log_tid \<longleftrightarrow> log_critical (lpc s)"
    "i < length (apcs s) \<Longrightarrow> mutex_owner (lmutex s) = Some (append_tid i) \<longleftrightarrow> append_critical (apcs s ! i)"
    "mutex_owner (lmutex s) = Some t \<Longrightarrow> t = log_tid \<or> (\<exists>i < length (apcs s). t = append_tid i)"
    "waiters (lcond s) = [] \<or> waiters (lcond s) = [log_tid] \<and> lpc s = L_Waiting"
  using assms unfolding lock_inv_def by blast+

text \<open>How the invariant moves with the threads: a step outside the lock, taking it, releasing it.\<close>

lemma lock_inv_log_same:
  assumes "lock_inv s" "lmutex s' = lmutex s" "apcs s' = apcs s" "lcond s' = lcond s" "lpc s \<noteq> L_Waiting"
    "log_critical (lpc s') = log_critical (lpc s)"
  shows "lock_inv s'"
  using assms by (auto simp: lock_inv_def)

lemma lock_inv_log_take:
  assumes "lock_inv s" "mutex_owner (lmutex s) = None" "mutex_owner (lmutex s') = Some log_tid" "apcs s' = apcs s"
    "lcond s' = lcond s" "lpc s \<noteq> L_Waiting" "log_critical (lpc s')"
  shows "lock_inv s'"
  using assms by (auto simp: lock_inv_def)

lemma lock_inv_log_drop:
  assumes "lock_inv s" "mutex_owner (lmutex s) = Some log_tid" "mutex_owner (lmutex s') = None" "apcs s' = apcs s"
    "waiters (lcond s') = [] \<or> waiters (lcond s') = [log_tid] \<and> lpc s' = L_Waiting" "\<not> log_critical (lpc s')"
  shows "lock_inv s'"
  using assms by (auto simp: lock_inv_def)

lemma lock_inv_append_same:
  assumes "lock_inv s" "lmutex s' = lmutex s" "lpc s' = lpc s" "waiters (lcond s') = waiters (lcond s) \<or> waiters (lcond s') = []"
    "apcs s' = (apcs s)[i := p]" "i < length (apcs s)" "append_critical p = append_critical (apcs s ! i)"
  shows "lock_inv s'"
  using assms by (auto simp: lock_inv_def nth_list_update)

lemma lock_inv_append_take:
  assumes "lock_inv s" "mutex_owner (lmutex s) = None" "mutex_owner (lmutex s') = Some (append_tid i)" "lpc s' = lpc s"
    "lcond s' = lcond s" "apcs s' = (apcs s)[i := p]" "i < length (apcs s)" "append_critical p"
  shows "lock_inv s'"
  using assms by (auto simp: lock_inv_def nth_list_update)

lemma lock_inv_append_drop:
  assumes "lock_inv s" "mutex_owner (lmutex s) = Some (append_tid i)" "mutex_owner (lmutex s') = None" "lpc s' = lpc s"
    "lcond s' = lcond s" "apcs s' = (apcs s)[i := p]" "i < length (apcs s)" "\<not> append_critical p"
  shows "lock_inv s'"
  using assms by (auto simp: lock_inv_def nth_list_update)

lemma append_step_inv:
  assumes inv: "lock_inv s" "owner_inv s"
  shows "\<exists>r. append_step conf i l k s = Inr r \<and> (\<forall>s'. r = Some s' \<longrightarrow> lock_inv s' \<and> owner_inv s')"
proof (cases "i < length (apcs s)")
  case False
  then show ?thesis by (simp add: append_step_def)
next
  case True
  show ?thesis
  proof (cases "apcs s ! i")
    case A_Idle
    have "lock_inv (s\<lparr>apcs := (apcs s)[i := A_Lock l]\<rparr>)"
      using True A_Idle by (intro lock_inv_append_same [OF inv(1), of _ i "A_Lock l"]) (simp_all add: append_critical_def)
    then show ?thesis using True A_Idle inv by (simp add: append_step_def owner_inv_def)
  next
    case (A_Lock x)
    show ?thesis
    proof (cases "take_lock (append_tid i) s")
      case None
      then show ?thesis using True A_Lock by (simp add: append_step_def)
    next
      case (Some s1)
      then obtain m where m: "s1 = s\<lparr>lmutex := m\<rparr>" "mutex_owner (lmutex s) = None" "mutex_owner m = Some (append_tid i)"
        by (rule take_lockD)
      have "lock_inv (s\<lparr>lmutex := m, apcs := (apcs s)[i := A_Push x]\<rparr>)"
        using True m by (intro lock_inv_append_take [OF inv(1), of _ i "A_Push x"]) (simp_all add: append_critical_def)
      then show ?thesis using True A_Lock Some m(1) inv(2) by (simp add: append_step_def owner_inv_def)
    qed
  next
    case (A_Push x)
    have "lock_inv ((push_line x s)\<lparr>apcs := (apcs s)[i := A_Signal]\<rparr>)"
      using True A_Push by (intro lock_inv_append_same [OF inv(1), of _ i A_Signal]) (simp_all add: append_critical_def push_line_def)
    then show ?thesis using True A_Push inv(2) by (simp add: append_step_def owner_inv_def push_line_def)
  next
    case A_Signal
    have n: "waiters (notify k (lcond s)) = []" using lock_invD(4) [OF inv(1)] by (auto simp: notify_def)
    have "lock_inv (s\<lparr>lcond := c, apcs := (apcs s)[i := A_Unlock]\<rparr>)" if "c = lcond s \<or> c = notify k (lcond s)" for c
      using True A_Signal n that by (intro lock_inv_append_same [OF inv(1), of _ i A_Unlock]) (auto simp: append_critical_def)
    from this [of "lcond s"] this [of "notify k (lcond s)"] show ?thesis
      using True A_Signal inv(2) by (simp add: append_step_def owner_inv_def)
  next
    case A_Unlock
    have own: "mutex_owner (lmutex s) = Some (append_tid i)"
      using lock_invD(2) [OF inv(1) True] A_Unlock by (simp add: append_critical_def)
    then obtain m where m: "drop_lock (append_tid i) s = Inr (s\<lparr>lmutex := m\<rparr>)" "mutex_owner m = None"
      by (rule drop_lock_own)
    have "lock_inv (s\<lparr>lmutex := m, apcs := (apcs s)[i := A_Idle]\<rparr>)"
      using True m(2) by (intro lock_inv_append_drop [OF inv(1) own, of _ A_Idle]) (simp_all add: append_critical_def)
    then show ?thesis using True A_Unlock m(1) inv(2) by (simp add: append_step_def owner_inv_def)
  qed
qed

lemma owner_step_inv:
  assumes inv: "lock_inv s" "owner_inv s"
  shows "\<exists>r. owner_step s = Inr r \<and> (\<forall>s'. r = Some s' \<longrightarrow> lock_inv s' \<and> owner_inv s')"
  using assms
  by (cases "opc s"; cases "lpc s = L_Done")
    (auto simp: owner_step_def owner_inv_def lock_inv_def thread_start_def thread_join_def notifyAll_def log_critical_def
      split: option.split)

lemma lock_goto_inv:
  assumes inv: "lock_inv s" "owner_inv s" and p: "log_critical p" "lpc s \<notin> {L_None, L_Done, L_Waiting}"
  shows "\<exists>r. lock_goto p s = Inr r \<and> (\<forall>s'. r = Some s' \<longrightarrow> lock_inv s' \<and> owner_inv s')"
proof (cases "take_lock log_tid s")
  case None
  then show ?thesis by (simp add: lock_goto_def)
next
  case (Some s1)
  then obtain m where m: "s1 = s\<lparr>lmutex := m\<rparr>" "mutex_owner (lmutex s) = None" "mutex_owner m = Some log_tid"
    by (rule take_lockD)
  have "lock_inv (s\<lparr>lmutex := m, lpc := p\<rparr>)" using m p by (intro lock_inv_log_take [OF inv(1)]) simp_all
  moreover have "p \<noteq> L_None" "p \<noteq> L_Done" using p(1) by (auto simp: log_critical_def)
  ultimately show ?thesis using Some m(1) p(2) inv(2) by (simp add: lock_goto_def goto_def owner_inv_def)
qed

lemma unlock_goto_inv:
  assumes inv: "lock_inv s" "owner_inv s" and p: "log_critical (lpc s)" "\<not> log_critical p" "p \<noteq> L_None" "p \<noteq> L_Done"
  shows "\<exists>r. unlock_goto p s = Inr r \<and> (\<forall>s'. r = Some s' \<longrightarrow> lock_inv s' \<and> owner_inv s')"
proof -
  have own: "mutex_owner (lmutex s) = Some log_tid" using lock_invD(1) [OF inv(1)] p(1) by simp
  then obtain m where m: "drop_lock log_tid s = Inr (s\<lparr>lmutex := m\<rparr>)" "mutex_owner m = None" by (rule drop_lock_own)
  have "lpc s \<noteq> L_Waiting" "lpc s \<noteq> L_None" "lpc s \<noteq> L_Done" using p(1) by (auto simp: log_critical_def)
  moreover from this(1) have "waiters (lcond s) = []" using lock_invD(4) [OF inv(1)] by simp
  then have "lock_inv (s\<lparr>lmutex := m, lpc := p\<rparr>)"
    using m(2) p(2) by (intro lock_inv_log_drop [OF inv(1) own]) simp_all
  ultimately show ?thesis using m(1) p(3,4) inv(2) by (simp add: unlock_goto_def goto_def owner_inv_def)
qed

lemma log_move_inv:
  assumes inv: "lock_inv s" "owner_inv s" and p: "lpc s \<notin> {L_None, L_Done, L_Waiting}" "log_critical p = log_critical (lpc s)"
    "p \<noteq> L_None" "p \<noteq> L_Done" and same: "lmutex s' = lmutex s" "apcs s' = apcs s" "lcond s' = lcond s" "lpc s' = p"
      "opc s' = opc s" "running s' = running s" "lthread s' = lthread s" "los s' = los s"
  shows "lock_inv s' \<and> owner_inv s'"
proof
  show "lock_inv s'" using p same by (intro lock_inv_log_same [OF inv(1)]) simp_all
  show "owner_inv s'" using inv(2) p same by (simp add: owner_inv_def)
qed

lemma log_wait_inv:
  assumes inv: "lock_inv s" "owner_inv s" and p: "lpc s = L_Locked"
  shows "\<exists>c m. cond_wait log_tid (lcond s, lmutex s) = Inr (c, m) \<and>
    lock_inv (goto L_Waiting (s\<lparr>lcond := c, lmutex := m\<rparr>)) \<and> owner_inv (goto L_Waiting (s\<lparr>lcond := c, lmutex := m\<rparr>))"
proof -
  have own: "mutex_owner (lmutex s) = Some log_tid" using lock_invD(1) [OF inv(1)] p by (simp add: log_critical_def)
  then obtain m where m: "mutex_unlock log_tid (lmutex s) = Inr m" "mutex_owner m = None" by (rule lock.releaseE)
  have w: "waiters (lcond s) = []" using lock_invD(4) [OF inv(1)] p by simp
  let ?c = "lcond s\<lparr>waiters := [log_tid]\<rparr>"
  have "lock_inv (goto L_Waiting (s\<lparr>lcond := ?c, lmutex := m\<rparr>))"
    using m(2) by (intro lock_inv_log_drop [OF inv(1) own]) (simp_all add: goto_def log_critical_def)
  moreover have "owner_inv (goto L_Waiting (s\<lparr>lcond := ?c, lmutex := m\<rparr>))" using inv(2) p by (simp add: owner_inv_def goto_def)
  ultimately show ?thesis using m(1) w by (simp add: cond_wait_def)
qed

lemma log_wake_inv:
  assumes inv: "lock_inv s" "owner_inv s" and p: "lpc s = L_Waiting" and c: "cond_wakes log_tid b (lcond s) = Some c"
  shows "lock_inv (goto L_Relock (s\<lparr>lcond := c\<rparr>)) \<and> owner_inv (goto L_Relock (s\<lparr>lcond := c\<rparr>))"
proof -
  have w: "waiters c = []" using lock_invD(4) [OF inv(1)] c by (auto simp: cond_wakes_def split: if_splits)
  then have "lock_inv (goto L_Relock (s\<lparr>lcond := c\<rparr>))"
    using inv(1) p unfolding lock_inv_def by (simp add: goto_def log_critical_def)
  then show ?thesis using inv(2) p by (simp add: owner_inv_def goto_def)
qed

lemmas thread_moves = lock_goto_inv unlock_goto_inv log_move_inv log_wait_inv log_wake_inv

lemma log_thread_step_inv:
  assumes inv: "lock_inv s" "owner_inv s"
  shows "\<exists>r. log_thread_step conf today now by_itself s = Inr r \<and> (\<forall>s'. r = Some s' \<longrightarrow> lock_inv s' \<and> owner_inv s')"
proof (cases "lpc s")
  case L_Locked
  from log_wait_inv [OF inv L_Locked] log_move_inv [OF inv, of L_Swap "goto L_Swap s"]
  show ?thesis using L_Locked by (auto simp: log_thread_step_def goto_def log_critical_def)
next
  case L_Waiting
  from log_wake_inv [OF inv L_Waiting, of by_itself] show ?thesis
    using L_Waiting by (cases "cond_wakes log_tid by_itself (lcond s)") (simp_all add: log_thread_step_def)
next
  case L_Final
  show ?thesis
  proof (cases "writeLines (currentBuffer s)")
    case (Inl e)
    then show ?thesis using L_Final log_move_inv [OF inv, of L_Crash "goto L_Crash s"]
      by (simp add: log_thread_step_def goto_def log_critical_def)
  next
    case (Inr t)
    let ?s = "goto L_Done ((add_text t s)\<lparr>los := startThread_returns log_tid (los s)\<rparr>)"
    have "lock_inv ?s" using L_Final
      by (intro lock_inv_log_same [OF inv(1)]) (simp_all add: goto_def add_text_def log_critical_def)
    moreover have "owner_inv ?s" using inv(2) L_Final
      by (auto simp: owner_inv_def goto_def add_text_def startThread_returns_def)
    ultimately show ?thesis using L_Final Inr by (simp add: log_thread_step_def)
  qed
next
  case L_Write
  then show ?thesis
    using log_move_inv [OF inv, of L_Crash "goto L_Crash s"]
      log_move_inv [OF inv, of L_Roll "goto L_Roll ((add_text t s)\<lparr>nextBuffer := []\<rparr>)" for t]
    by (cases "writeLines (nextBuffer s)") (simp_all add: log_thread_step_def goto_def add_text_def log_critical_def)
next
  case L_Roll
  then show ?thesis
    using log_move_inv [OF inv, of L_Test "goto L_Test s"] log_move_inv [OF inv, of L_RLock "goto L_RLock s"]
      log_move_inv [OF inv, of L_Reopen "goto L_Reopen s"] roll_cases [of conf today s]
    by (auto simp: log_thread_step_def goto_def log_critical_def)
next
  case L_Open
  then show ?thesis using log_move_inv [OF inv, of L_Test "goto L_Test (open_next conf s)"]
    by (simp add: log_thread_step_def goto_def log_critical_def open_next_def)
next
  case L_Reopen
  then show ?thesis using log_move_inv [OF inv, of L_Test "goto L_Test (open_next conf s)"]
    by (simp add: log_thread_step_def goto_def log_critical_def open_next_def)
next
  case L_Test
  then show ?thesis using log_move_inv [OF inv, of L_Lock "goto L_Lock s"] log_move_inv [OF inv, of L_Final "goto L_Final s"]
    by (simp add: log_thread_step_def goto_def log_critical_def)
next
  case L_Swap
  then show ?thesis
    using log_move_inv [OF inv, of L_Unlock "goto L_Unlock (s\<lparr>currentBuffer := nextBuffer s, nextBuffer := currentBuffer s\<rparr>)"]
    by (simp add: log_thread_step_def goto_def log_critical_def)
next
  case L_Empty
  then show ?thesis using log_move_inv [OF inv, of L_Test "goto L_Test s"] log_move_inv [OF inv, of L_Write "goto L_Write s"]
    by (simp add: log_thread_step_def goto_def log_critical_def)
next
  case L_Reset
  then show ?thesis using log_move_inv [OF inv, of L_RUnlock "goto L_RUnlock (s\<lparr>accumulateBytes := 0\<rparr>)"]
    by (simp add: log_thread_step_def goto_def log_critical_def)
next
  case L_Lock
  then show ?thesis using lock_goto_inv [OF inv, of L_Locked] by (simp add: log_thread_step_def log_critical_def)
next
  case L_Relock
  then show ?thesis using lock_goto_inv [OF inv, of L_Swap] by (simp add: log_thread_step_def log_critical_def)
next
  case L_RLock
  then show ?thesis using lock_goto_inv [OF inv, of L_Reset] by (simp add: log_thread_step_def log_critical_def)
next
  case L_Unlock
  then show ?thesis using unlock_goto_inv [OF inv, of L_Empty] by (simp add: log_thread_step_def log_critical_def)
next
  case L_RUnlock
  then show ?thesis using unlock_goto_inv [OF inv, of L_Reopen] by (simp add: log_thread_step_def log_critical_def)
qed (simp_all add: log_thread_step_def)

lemma threads_step_inv:
  assumes "lock_inv s" "owner_inv s"
  shows "\<exists>r. threads_step conf act s = Inr r \<and> (\<forall>s'. r = Some s' \<longrightarrow> lock_inv s' \<and> owner_inv s')"
  using append_step_inv [OF assms] owner_step_inv [OF assms] log_thread_step_inv [OF assms] by (cases act) simp_all

lemma threads_inv: "threads_reachable conf n s \<Longrightarrow> lock_inv s \<and> owner_inv s"
proof (induction rule: threads_reachable.induct)
  case init
  then show ?case
    by (simp add: lock_inv_def owner_inv_def threads_init_def MutexLock_new_def Condition_new_def log_critical_def append_critical_def)
next
  case (step s act s')
  then show ?case using threads_step_inv [of s conf act] by auto
qed

section \<open>The simulation\<close>

definition coarse_pc :: "log_threads \<Rightarrow> log_pc" where
  "coarse_pc s = (case lpc s of L_None \<Rightarrow> Starting | L_Open \<Rightarrow> Starting | L_Test \<Rightarrow> Testing | L_Lock \<Rightarrow> Swapping
     | L_Locked \<Rightarrow> Swapping | L_Waiting \<Rightarrow> Swapping | L_Relock \<Rightarrow> Swapping | L_Swap \<Rightarrow> Swapping
     | L_Unlock \<Rightarrow> (if nextBuffer s = [] then Testing else Writing) | L_Empty \<Rightarrow> (if nextBuffer s = [] then Testing else Writing)
     | L_Write \<Rightarrow> Writing | L_Roll \<Rightarrow> Rolling | L_RLock \<Rightarrow> Resetting | L_Reset \<Rightarrow> Resetting | L_RUnlock \<Rightarrow> Opening
     | L_Reopen \<Rightarrow> Opening | L_Final \<Rightarrow> Finishing | L_Done \<Rightarrow> Done | L_Crash \<Rightarrow> Crashed)"

fun pending_line :: "append_pc \<Rightarrow> string multiset" where
  "pending_line (A_Lock l) = {#l#}"
| "pending_line (A_Push l) = {#l#}"
| "pending_line _ = {#}"

definition pending_lines :: "log_threads \<Rightarrow> string multiset" where
  "pending_lines s = \<Sum>\<^sub># (mset (map pending_line (apcs s)))"

text \<open>A state of the threads and a state of \<open>Async_Log\<close> that stands for it. Before \<open>start()\<close> there is no log thread yet.\<close>

definition data_eq :: "log_threads \<Rightarrow> log_state \<Rightarrow> bool" where
  "data_eq s c \<longleftrightarrow> currentBuffer c = currentBuffer s \<and> nextBuffer c = nextBuffer s \<and> accumulateBytes c = accumulateBytes s \<and>
     currentDate c = currentDate s \<and> suffix c = suffix s \<and> files c = files s \<and> pushed c = pushed s"

definition sim :: "log_threads \<Rightarrow> log_state \<Rightarrow> bool" where
  "sim s c \<longleftrightarrow> (running c \<longleftrightarrow> running s \<or> opc s = O_New) \<and> data_eq s c \<and> log_pc c = coarse_pc s \<and>
     mset (pending c) = pending_lines s"

lemma pending_lines_update:
  assumes "i < length (apcs s)" "apcs s' = (apcs s)[i := p]"
  shows "pending_lines s' + pending_line (apcs s ! i) = pending_lines s + pending_line p"
proof -
  have "mset (map pending_line (apcs s')) + {#pending_line (apcs s ! i)#} = mset (map pending_line (apcs s)) + {#pending_line p#}"
    unfolding assms(2) using assms(1)
    by (simp add: map_update mset_update del: mset_map)
  then have "\<Sum>\<^sub># (mset (map pending_line (apcs s')) + {#pending_line (apcs s ! i)#}) =
      \<Sum>\<^sub># (mset (map pending_line (apcs s)) + {#pending_line p#})" by (rule arg_cong)
  then show ?thesis by (simp add: pending_lines_def add.commute)
qed

definition stutters :: "log_conf \<Rightarrow> log_state \<Rightarrow> log_threads \<Rightarrow> bool" where
  "stutters conf c s' \<longleftrightarrow> (\<exists>c'. (c' = c \<or> log_step conf c c') \<and> sim s' c')"

lemma stutters_same: "sim s' c \<Longrightarrow> stutters conf c s'"
  by (auto simp: stutters_def)

lemma stutters_step: "log_step conf c c' \<Longrightarrow> sim s' c' \<Longrightarrow> stutters conf c s'"
  by (auto simp: stutters_def)

lemma owner_sim:
  assumes "sim s c" "owner_inv s" "owner_step s = Inr (Some s')"
  shows "stutters conf c s'"
proof (cases "opc s")
  case O_Stop
  have "sim s' (log_stop c)"
    using assms O_Stop by (auto simp: sim_def owner_step_def log_stop_def data_eq_def coarse_pc_def pending_lines_def)
  then show ?thesis by (rule stutters_step [OF log_step.stop])
qed (use assms in \<open>auto simp: sim_def owner_step_def data_eq_def coarse_pc_def pending_lines_def owner_inv_def thread_start_def
      bind_res_eq_Inr split: option.splits intro!: stutters_same\<close>)

lemma append_sim:
  assumes sim: "sim s c" and st: "append_step conf i l k s = Inr (Some s')"
  shows "stutters conf c s'"
proof -
  have i: "i < length (apcs s)" using st by (auto simp: append_step_def split: if_splits)
  note upd = pending_lines_update [OF i]
  show ?thesis
  proof (cases "apcs s ! i")
    case A_Idle
    show ?thesis
    proof (cases "running s")
      case True
      then have s': "s' = s\<lparr>apcs := (apcs s)[i := A_Lock l]\<rparr>" using st i A_Idle by (simp add: append_step_def)
      then have "sim s' (append_check l c)"
        using upd [of s'] sim True A_Idle by (simp add: sim_def append_check_def data_eq_def coarse_pc_def)
      then show ?thesis by (rule stutters_step [OF log_step.check])
    next
      case False
      then show ?thesis using st i A_Idle sim by (simp add: append_step_def stutters_same)
    qed
  next
    case (A_Lock x)
    then obtain s1 where s1: "take_lock (append_tid i) s = Some s1" "s' = s1\<lparr>apcs := (apcs s1)[i := A_Push x]\<rparr>"
      using st i by (auto simp: append_step_def split: option.splits)
    then obtain m where "s1 = s\<lparr>lmutex := m\<rparr>" by (auto elim: take_lockD)
    with s1(2) have "sim s' c" using upd [of s' "A_Push x"] sim A_Lock by (simp add: sim_def data_eq_def coarse_pc_def)
    then show ?thesis by (rule stutters_same)
  next
    case (A_Push x)
    then have s': "s' = (push_line x s)\<lparr>apcs := (apcs s)[i := A_Signal]\<rparr>" using st i by (simp add: append_step_def)
    have p: "pending_lines s' + {#x#} = pending_lines s" using upd [of s'] s' A_Push by simp
    have pc: "mset (pending c) = pending_lines s" using sim by (simp add: sim_def)
    then have "mset (pending c) = add_mset x (pending_lines s')" using p by simp
    then have "x \<in> set (pending c)" by (metis set_mset_mset union_single_eq_member add_mset_add_single)
    then obtain j where j: "j < length (pending c)" "pending c ! j = x" by (auto simp: in_set_conv_nth)
    have "pending c = take j (pending c) @ x # drop (Suc j) (pending c)" using id_take_nth_drop [OF j(1)] j(2) by simp
    then have "mset (pending c) = mset (take j (pending c) @ x # drop (Suc j) (pending c))" by (rule arg_cong)
    then have "mset (take j (pending c) @ drop (Suc j) (pending c)) + {#x#} = mset (pending c)" by simp
    then have "mset (take j (pending c) @ drop (Suc j) (pending c)) = pending_lines s'"
      using p pc by (metis add_right_cancel)
    then have "sim s' (append_push j c)"
      using sim j s' by (simp add: sim_def append_push_def data_eq_def coarse_pc_def push_line_def)
    then show ?thesis by (rule stutters_step [OF log_step.push])
  next
    case A_Signal
    then have "s' = s\<lparr>lcond := lcond s', apcs := (apcs s)[i := A_Unlock]\<rparr>"
      using st i by (auto simp: append_step_def intro!: log_threads.equality split: if_splits)
    then obtain d where "s' = s\<lparr>lcond := d, apcs := (apcs s)[i := A_Unlock]\<rparr>" by blast
    then have "sim s' c" using upd [of s' A_Unlock] sim A_Signal by (auto simp: sim_def data_eq_def coarse_pc_def)
    then show ?thesis by (rule stutters_same)
  next
    case A_Unlock
    then have "\<exists>m. s' = s\<lparr>lmutex := m, apcs := (apcs s)[i := A_Idle]\<rparr>"
      using st i by (auto simp: append_step_def drop_lock_def bind_res_eq_Inr)
    then have "sim s' c" using upd [of s' A_Idle] sim A_Unlock by (auto simp: sim_def data_eq_def coarse_pc_def)
    then show ?thesis by (rule stutters_same)
  qed
qed

lemma log_thread_sim:
  assumes sim: "sim s c" and inv: "owner_inv s" and st: "log_thread_step conf today now by_itself s = Inr (Some s')"
  shows "stutters conf c s'"
proof -
  have moved: "sim s' (thread_step conf today c) \<Longrightarrow> stutters conf c s'" by (rule stutters_step [OF log_step.thread])
  note defs = sim_def log_thread_step_def thread_step_def data_eq_def coarse_pc_def pending_lines_def goto_def
  show ?thesis
  proof (cases "lpc s")
    case L_Open
    then show ?thesis using sim st by (intro moved) (auto simp: defs open_next_def getNextLogFileName_def)
  next
    case L_Test
    then show ?thesis using sim st inv by (intro moved) (auto simp: defs owner_inv_def)
  next
    case L_Swap
    then show ?thesis using sim st by (intro moved) (auto simp: defs)
  next
    case L_Write
    then show ?thesis using sim st by (intro moved) (auto simp: defs add_text_def split: sum.splits)
  next
    case L_Roll
    have "accumulateBytes c = accumulateBytes s" "currentDate c = currentDate s" using sim by (simp_all add: sim_def data_eq_def)
    then have "roll conf today c = roll conf today s" by (simp only: roll_def)
    then show ?thesis using sim st L_Roll roll_cases [of conf today s] by (intro moved) (auto simp: defs)
  next
    case L_Reset
    then show ?thesis using sim st by (intro moved) (auto simp: defs)
  next
    case L_Reopen
    then show ?thesis using sim st by (intro moved) (auto simp: defs open_next_def getNextLogFileName_def)
  next
    case L_Final
    then show ?thesis using sim st by (intro moved) (auto simp: defs add_text_def split: sum.splits)
  qed (use sim st in \<open>auto simp: defs lock_goto_def unlock_goto_def take_lock_def drop_lock_def bind_res_eq_Inr
        split: option.splits if_splits intro!: stutters_same\<close>)
qed

lemma threads_step_sim:
  assumes "sim s c" "owner_inv s" "threads_step conf act s = Inr (Some s')"
  shows "stutters conf c s'"
  using owner_sim [OF assms(1,2)] append_sim [OF assms(1)] log_thread_sim [OF assms(1,2)] assms(3) by (cases act) auto

lemma init_sim: "sim (threads_init conf n) (log_start conf)"
  by (simp add: sim_def threads_init_def log_start_def data_eq_def coarse_pc_def pending_lines_def)

lemma threads_sim: "threads_reachable conf n s \<Longrightarrow> \<exists>c. log_reachable conf c \<and> sim s c"
proof (induction rule: threads_reachable.induct)
  case init
  show ?case using init_sim log_reachable.init by blast
next
  case (step s act s')
  then obtain c where c: "log_reachable conf c" "sim s c" by blast
  from threads_step_sim [OF c(2) _ step.hyps(2)] threads_inv [OF step.hyps(1)]
  have "stutters conf c s'" by blast
  then show ?case using c(1) log_reachable.step unfolding stutters_def by blast
qed

section \<open>Runs, and the end of the log thread\<close>

fun threads_run :: "log_conf \<Rightarrow> log_action list \<Rightarrow> log_threads \<Rightarrow> log_threads option res" where
  "threads_run conf [] s = Inr (Some s)"
| "threads_run conf (a # as) s = bind_res (threads_step conf a s) (\<lambda>r. case r of
     None \<Rightarrow> Inr None | Some s1 \<Rightarrow> threads_run conf as s1)"

lemma threads_run_Cons:
  "threads_run conf (a # as) s = Inr (Some s') \<longleftrightarrow>
     (\<exists>s1. threads_step conf a s = Inr (Some s1) \<and> threads_run conf as s1 = Inr (Some s'))"
  by (cases "threads_step conf a s") (auto split: option.split)

declare threads_run.simps(2) [simp del]

lemma threads_run_append:
  "threads_run conf as s = Inr (Some s1) \<Longrightarrow> threads_run conf bs s1 = Inr (Some s2) \<Longrightarrow>
   threads_run conf (as @ bs) s = Inr (Some s2)"
  by (induction as arbitrary: s) (auto simp: threads_run_Cons)

lemma threads_run_reachable:
  "threads_reachable conf n s \<Longrightarrow> threads_run conf as s = Inr (Some s') \<Longrightarrow> threads_reachable conf n s'"
  by (induction as arbitrary: s) (auto simp: threads_run_Cons intro: threads_reachable.step)

text \<open>How many steps the log thread has left once \<open>_running\<close> is false.\<close>

fun log_left :: "log_thread_pc \<Rightarrow> nat" where
  "log_left L_Lock = 15" | "log_left L_Locked = 14" | "log_left L_Waiting = 13" | "log_left L_Relock = 12"
| "log_left L_Swap = 11" | "log_left L_Unlock = 10" | "log_left L_Empty = 9" | "log_left L_Write = 8" | "log_left L_Roll = 7"
| "log_left L_RLock = 6" | "log_left L_Reset = 5" | "log_left L_RUnlock = 4" | "log_left L_Reopen = 3" | "log_left L_Open = 3"
| "log_left L_Test = 2" | "log_left L_Final = 1" | "log_left L_None = 0" | "log_left L_Done = 0" | "log_left L_Crash = 0"

lemma log_left_le: "log_left p \<le> 15" by (cases p) simp_all

lemma data_other [simp]:
  fixes s :: log_threads
  shows "running (add_text t s) = running s" "opc (add_text t s) = opc s" "apcs (add_text t s) = apcs s"
    "running (open_next conf s) = running s" "opc (open_next conf s) = opc s" "apcs (open_next conf s) = apcs s"
  by (simp_all add: add_text_def open_next_def)

lemma log_step_left:
  assumes "log_thread_step conf today now b s = Inr (Some s')" "\<not> running s"
  shows "log_left (lpc s') < log_left (lpc s) \<and> \<not> running s' \<and> opc s' = opc s \<and> apcs s' = apcs s"
  using assms roll_cases [of conf today s]
  by (cases "lpc s") (auto simp: log_thread_step_def goto_def lock_goto_def unlock_goto_def take_lock_def drop_lock_def
      bind_res_eq_Inr split: option.splits sum.splits)

lemma append_step_lpc: "append_step conf i l k s = Inr (Some s') \<Longrightarrow> lpc s' = lpc s \<and> running s' = running s \<and> opc s' = opc s"
  by (auto simp: append_step_def take_lock_def drop_lock_def bind_res_eq_Inr push_line_def
      split: if_splits append_pc.splits option.splits)

lemma owner_join_step: "owner_step s = Inr (Some s') \<Longrightarrow> opc s = O_Join \<Longrightarrow> lpc s' = lpc s \<and> opc s' = O_Stopped \<and> running s' = running s"
  by (auto simp: owner_step_def bind_res_eq_Inr split: option.splits)

definition is_log :: "log_action \<Rightarrow> bool" where "is_log a \<longleftrightarrow> (\<exists>d t b. a = Log_Acts d t b)"

lemma stopped_run_bound:
  "threads_run conf as s = Inr (Some s') \<Longrightarrow> \<not> running s \<Longrightarrow> opc s \<in> {O_Join, O_Stopped} \<Longrightarrow>
   length (filter is_log as) + log_left (lpc s') \<le> log_left (lpc s)"
proof (induction as arbitrary: s)
  case (Cons a as)
  then obtain s1 where s1: "threads_step conf a s = Inr (Some s1)" "threads_run conf as s1 = Inr (Some s')"
    by (auto simp: threads_run_Cons)
  have "\<not> running s1 \<and> opc s1 \<in> {O_Join, O_Stopped} \<and> (if is_log a then log_left (lpc s1) < log_left (lpc s) else lpc s1 = lpc s)"
  proof (cases a)
    case Owner_Acts
    then show ?thesis using s1(1) Cons.prems(2,3) owner_join_step [of s s1]
      by (auto simp: is_log_def) (auto simp: owner_step_def)
  next
    case (Append_Acts i l k)
    then show ?thesis using s1(1) Cons.prems(2,3) append_step_lpc [of conf i l k s s1] by (auto simp: is_log_def)
  next
    case (Log_Acts today now b)
    then show ?thesis using s1(1) Cons.prems(2,3) log_step_left [of conf today now b s s1] by (auto simp: is_log_def)
  qed
  with Cons.IH [OF s1(2)] show ?case by auto
qed simp

text \<open>A thread in a critical section of \<open>append\<close> leaves it in at most three steps.\<close>

fun hold_left :: "append_pc \<Rightarrow> nat" where
  "hold_left (A_Push l) = 3" | "hold_left A_Signal = 2" | "hold_left A_Unlock = 1" | "hold_left _ = 0"

lemma hold_left_pos: "0 < hold_left p \<longleftrightarrow> append_critical p"
  by (cases p) (simp_all add: append_critical_def)

lemma append_leaves:
  assumes "lock_inv s" "i < length (apcs s)" "append_critical (apcs s ! i)"
  shows "\<exists>s1 p. append_step conf i [] 0 s = Inr (Some s1) \<and> apcs s1 = (apcs s)[i := p] \<and> hold_left (apcs s ! i) = Suc (hold_left p)"
proof (cases "apcs s ! i")
  case A_Unlock
  then have "mutex_owner (lmutex s) = Some (append_tid i)" using lock_invD(2) [OF assms(1,2)] assms(3) by simp
  then obtain m where "drop_lock (append_tid i) s = Inr (s\<lparr>lmutex := m\<rparr>)" by (rule drop_lock_own)
  then show ?thesis using A_Unlock assms(2) by (simp add: append_step_def) (metis hold_left.simps(4))
next
  case A_Signal
  then show ?thesis using assms(2) by (simp add: append_step_def) (metis hold_left.simps(3) numeral_1_eq_Suc_0 numerals(1))
next
  case (A_Push l)
  then show ?thesis using assms(2) by (simp add: append_step_def) (metis hold_left.simps(2) numeral_2_eq_2)
qed (use assms(3) in \<open>simp_all add: append_critical_def\<close>)

text \<open>An empty line has been pushed or is about to be: the thread that pushes it has taken the mutex.\<close>

definition empty_line_logged :: "log_threads \<Rightarrow> bool" where
  "empty_line_logged s \<longleftrightarrow> [] \<in> set (pushed s) \<or> (\<exists>i < length (apcs s). apcs s ! i = A_Push [])"

lemma append_no_empty:
  assumes "append_step conf i [] 0 s = Inr (Some s1)" "append_critical (apcs s ! i)" "empty_line_logged s1"
  shows "empty_line_logged s"
proof -
  have i: "i < length (apcs s)" using assms(1) by (auto simp: append_step_def split: if_splits)
  have other: "apcs s ! j = A_Push []" if "(apcs s)[i := p] ! j = A_Push []" "p \<noteq> A_Push []" for p j
    using that i by (cases "j = i") simp_all
  show ?thesis
  proof (cases "apcs s ! i")
    case (A_Push l)
    then show ?thesis using assms(1,3) i other [where p = A_Signal]
      by (cases "l = []") (auto simp: append_step_def empty_line_logged_def push_line_def)
  next
    case A_Signal
    then show ?thesis using assms(1,3) i other [where p = A_Unlock]
      by (auto simp: append_step_def empty_line_logged_def split: if_splits)
  next
    case A_Unlock
    then show ?thesis using assms(1,3) i other [where p = A_Idle]
      by (auto simp: append_step_def empty_line_logged_def drop_lock_def bind_res_eq_Inr)
  qed (use assms(2) in \<open>simp_all add: append_critical_def\<close>)
qed

lemma log_thread_pushed: "log_thread_step conf today now b s = Inr (Some s1) \<Longrightarrow> pushed s1 = pushed s"
  by (cases "lpc s") (auto simp: log_thread_step_def goto_def lock_goto_def unlock_goto_def take_lock_def drop_lock_def
      bind_res_eq_Inr open_next_def split: option.splits sum.splits if_splits)

lemma crash_empty_line: "threads_reachable conf n s \<Longrightarrow> lpc s = L_Crash \<Longrightarrow> [] \<in> set (pushed s)"
  using threads_sim [of conf n s] crash_needs_empty_line [of conf] by (fastforce simp: sim_def data_eq_def coarse_pc_def)

definition appenders_out :: "log_threads \<Rightarrow> bool" where
  "appenders_out s \<longleftrightarrow> (\<forall>i < length (apcs s). \<not> append_critical (apcs s ! i))"

lemma appender_leaves:
  "threads_reachable conf n s \<Longrightarrow> i < length (apcs s) \<Longrightarrow> \<forall>j < length (apcs s). j \<noteq> i \<longrightarrow> \<not> append_critical (apcs s ! j) \<Longrightarrow>
   \<exists>as s1. length as \<le> hold_left (apcs s ! i) \<and> threads_run conf as s = Inr (Some s1) \<and> appenders_out s1 \<and>
     lpc s1 = lpc s \<and> opc s1 = opc s \<and> running s1 = running s \<and> (empty_line_logged s1 \<longrightarrow> empty_line_logged s)"
proof (induction "hold_left (apcs s ! i)" arbitrary: s)
  case 0
  then have "appenders_out s" using hold_left_pos [of "apcs s ! i"] by (auto simp: appenders_out_def)
  then show ?case by (intro exI [of _ "[]"]) simp
next
  case (Suc h)
  have crit: "append_critical (apcs s ! i)" using Suc.hyps(2) hold_left_pos [of "apcs s ! i"] by simp
  obtain s1 p where s1: "append_step conf i [] 0 s = Inr (Some s1)" "apcs s1 = (apcs s)[i := p]"
    "hold_left (apcs s ! i) = Suc (hold_left p)"
    using append_leaves [OF _ Suc.prems(2) crit] threads_inv [OF Suc.prems(1)] by metis
  have st: "threads_step conf (Append_Acts i [] 0) s = Inr (Some s1)" using s1(1) by simp
  have "h = hold_left (apcs s1 ! i)" using s1(2,3) Suc.hyps(2) Suc.prems(2) by simp
  moreover have "threads_reachable conf n s1" using threads_reachable.step [OF Suc.prems(1) st] .
  moreover have "i < length (apcs s1)" "\<forall>j < length (apcs s1). j \<noteq> i \<longrightarrow> \<not> append_critical (apcs s1 ! j)"
    using s1(2) Suc.prems(2,3) by (simp_all add: nth_list_update)
  ultimately obtain as s2 where "length as \<le> h" "threads_run conf as s1 = Inr (Some s2)" "appenders_out s2" "lpc s2 = lpc s1"
    "opc s2 = opc s1" "running s2 = running s1" "empty_line_logged s2 \<longrightarrow> empty_line_logged s1" using Suc.hyps(1) by metis
  then show ?case using st append_step_lpc [OF s1(1)] append_no_empty [OF s1(1) crit] Suc.hyps(2)
    by (intro exI [of _ "Append_Acts i [] 0 # as"] exI [of _ s2]) (simp add: threads_run_Cons)
qed

lemma appenders_leave:
  assumes "threads_reachable conf n s"
  shows "\<exists>as s1. length as \<le> 3 \<and> threads_run conf as s = Inr (Some s1) \<and> appenders_out s1 \<and>
     lpc s1 = lpc s \<and> opc s1 = opc s \<and> running s1 = running s \<and> (empty_line_logged s1 \<longrightarrow> empty_line_logged s)"
proof (cases "appenders_out s")
  case True
  then show ?thesis by (intro exI [of _ "[]"]) simp
next
  case False
  then obtain i where i: "i < length (apcs s)" "append_critical (apcs s ! i)" by (auto simp: appenders_out_def)
  have inv: "lock_inv s" using threads_inv [OF assms] by simp
  have "\<forall>j < length (apcs s). j \<noteq> i \<longrightarrow> \<not> append_critical (apcs s ! j)"
    using lock_invD(2) [OF inv] i by (metis option.inject tids(3))
  then obtain as s1 where "length as \<le> hold_left (apcs s ! i)" "threads_run conf as s = Inr (Some s1) \<and> appenders_out s1 \<and>
     lpc s1 = lpc s \<and> opc s1 = opc s \<and> running s1 = running s \<and> (empty_line_logged s1 \<longrightarrow> empty_line_logged s)"
    using appender_leaves [OF assms i(1)] by blast
  moreover have "hold_left (apcs s ! i) \<le> 3" by (cases "apcs s ! i") simp_all
  ultimately show ?thesis by (intro exI [of _ as] exI [of _ s1]) simp
qed

text \<open>Then the log thread is never blocked, when its waits end.\<close>

lemma log_thread_enabled:
  assumes inv: "lock_inv s" "owner_inv s" and out: "appenders_out s" and p: "lpc s \<notin> {L_None, L_Done, L_Crash}"
  shows "\<exists>s'. log_thread_step conf today now True s = Inr (Some s')"
proof -
  have free: "mutex_owner (lmutex s) = None" if "\<not> log_critical (lpc s)"
  proof (rule ccontr)
    assume "mutex_owner (lmutex s) \<noteq> None"
    then obtain t where t: "mutex_owner (lmutex s) = Some t" by blast
    with lock_invD(3) [OF inv(1)] that lock_invD(1) [OF inv(1)] obtain i where "i < length (apcs s)" "t = append_tid i" by auto
    with t lock_invD(2) [OF inv(1), of i] out show False by (simp add: appenders_out_def)
  qed
  have lock: "lock_goto q s \<noteq> Inr None" if "\<not> log_critical (lpc s)" for q
    using free [OF that] take_lock_blocked [of log_tid s] by (auto simp: lock_goto_def split: option.split)
  obtain r where r: "log_thread_step conf today now True s = Inr r" using log_thread_step_inv [OF inv] by metis
  have unlock: "unlock_goto q s \<noteq> Inr None" for q by (auto simp: unlock_goto_def drop_lock_def bind_res_eq_Inr)
  have "r \<noteq> None"
  proof
    assume "r = None"
    with r p lock unlock show False
      by (cases "lpc s") (auto simp: log_thread_step_def log_critical_def cond_wakes_def bind_res_eq_Inr split: if_splits sum.splits)
  qed
  with r show ?thesis by auto
qed

lemma log_thread_runs_out:
  "threads_reachable conf n s \<Longrightarrow> \<not> running s \<Longrightarrow> opc s = O_Join \<Longrightarrow> appenders_out s \<Longrightarrow>
   \<exists>as s1. length as \<le> log_left (lpc s) \<and> threads_run conf as s = Inr (Some s1) \<and> lpc s1 \<in> {L_Done, L_Crash} \<and> opc s1 = O_Join \<and>
     empty_line_logged s1 = empty_line_logged s"
proof (induction "log_left (lpc s)" arbitrary: s rule: less_induct)
  case less
  note inv = threads_inv [OF less.prems(1)]
  show ?case
  proof (cases "lpc s \<in> {L_Done, L_Crash}")
    case True
    then show ?thesis using less.prems(3) by (intro exI [of _ "[]"] exI [of _ s]) simp
  next
    case False
    moreover have "lpc s \<noteq> L_None" using inv less.prems(3) by (auto simp: owner_inv_def)
    ultimately obtain s1 where s1: "log_thread_step conf [] \<lparr>tv_sec = 0, tv_nsec = 0\<rparr> True s = Inr (Some s1)"
      using log_thread_enabled inv less.prems(4) by blast
    have st: "threads_step conf (Log_Acts [] \<lparr>tv_sec = 0, tv_nsec = 0\<rparr> True) s = Inr (Some s1)" using s1 by simp
    note d = log_step_left [OF s1 less.prems(2)]
    have "appenders_out s1" using less.prems(4) d by (simp add: appenders_out_def)
    then obtain as s2 where "length as \<le> log_left (lpc s1)" "threads_run conf as s1 = Inr (Some s2)"
      "lpc s2 \<in> {L_Done, L_Crash}" "opc s2 = O_Join" "empty_line_logged s2 = empty_line_logged s1"
      using less.hyps [of s1] threads_reachable.step [OF less.prems(1) st] d less.prems(3) by auto
    then show ?thesis using st d log_thread_pushed [OF s1]
      by (intro exI [of _ "Log_Acts [] \<lparr>tv_sec = 0, tv_nsec = 0\<rparr> True # as"] exI [of _ s2]) (simp add: threads_run_Cons empty_line_logged_def)
  qed
qed

section \<open>Properties\<close>

text \<open>C15: What \<open>Async_Log\<close> takes for one step is enough. Each step of a thread between two statements, with the mutex, the
  waiting, the waking up and the joining of threads, is matched by one step of \<open>Async_Log\<close> or by none, from the constructor on.\<close>

theorem threads_refine_log:
  "sim (threads_init conf n) (log_start conf) \<and>
   (\<forall>s c act s'. threads_reachable conf n s \<and> sim s c \<and> threads_step conf act s = Inr (Some s') \<longrightarrow>
      (\<exists>c'. (c' = c \<or> log_step conf c c') \<and> sim s' c'))"
proof (intro conjI allI impI init_sim)
  fix s c act s' assume a: "threads_reachable conf n s \<and> sim s c \<and> threads_step conf act s = Inr (Some s')"
  then have "stutters conf c s'" using threads_step_sim [of s c conf act s'] threads_inv [of conf n s] by simp
  then show "\<exists>c'. (c' = c \<or> log_step conf c c') \<and> sim s' c'" by (simp add: stutters_def)
qed

text \<open>C23: The threads of the log exclude each other: in every reachable state at most one of them is in a critical section, and no
  step of any thread goes wrong: a mutex is released only by the thread that holds it, and a thread is joined only
  while it exists.\<close>

theorem log_threads_exclusion:
  assumes "threads_reachable conf n s"
  shows "(\<exists>r. threads_step conf act s = Inr r) \<and>
    (\<forall>i < length (apcs s). append_critical (apcs s ! i) \<longrightarrow> \<not> log_critical (lpc s) \<and>
       (\<forall>j < length (apcs s). append_critical (apcs s ! j) \<longrightarrow> j = i))"
proof -
  have inv: "lock_inv s" using threads_inv [OF assms] by simp
  have "\<not> log_critical (lpc s) \<and> (\<forall>j < length (apcs s). append_critical (apcs s ! j) \<longrightarrow> j = i)"
    if "i < length (apcs s)" "append_critical (apcs s ! i)" for i
  proof -
    have "mutex_owner (lmutex s) = Some (append_tid i)" using lock_invD(2) [OF inv that(1)] that(2) by simp
    then show ?thesis using lock_invD(1) [OF inv] lock_invD(2) [OF inv] by auto
  qed
  then show ?thesis using threads_step_inv [of s conf act] threads_inv [OF assms] by blast
qed

text \<open>Steps of the owner and of the log thread that lead to a state in which \<open>stop()\<close> waits for a log thread that waits for a signal.\<close>

definition early_clock :: timespec where "early_clock = \<lparr>tv_sec = 100, tv_nsec = 300000000\<rparr>"

definition stop_race :: "log_action list" where
  "stop_race = [Owner_Acts, Owner_Acts, Log_Acts [] early_clock False, Log_Acts [] early_clock False, Owner_Acts,
     Log_Acts [] early_clock False, Log_Acts [] early_clock False, Owner_Acts]"

definition stop_race_state :: "log_conf \<Rightarrow> nat \<Rightarrow> log_threads" where
  "stop_race_state conf n = (case threads_run conf stop_race (threads_init conf n) of Inr (Some s) \<Rightarrow> s | _ \<Rightarrow> threads_init conf n)"

lemma stop_race_state:
  assumes "below_mask conf []" "waitForSeconds_waits (flushInterval conf) early_clock"
  shows "threads_run conf stop_race (threads_init conf n) = Inr (Some (stop_race_state conf n))"
    "opc (stop_race_state conf n) = O_Join" "lpc (stop_race_state conf n) = L_Waiting" "\<not> running (stop_race_state conf n)"
    "waiters (lcond (stop_race_state conf n)) = [log_tid]" "apcs (stop_race_state conf n) = replicate n A_Idle"
    "log_tid \<in> set (live_threads (los (stop_race_state conf n)))" "thread_id (lthread (stop_race_state conf n)) = log_tid"
    "ended_threads (los (stop_race_state conf n)) = []"
  using assms
  by (simp_all add: stop_race_state_def stop_race_def threads_run.simps(2) threads_init_def owner_step_def thread_start_def
      log_thread_step_def goto_def open_next_def lock_goto_def take_lock_def MutexLockGuard_new_def mutex_lock_def MutexLock_new_def
      cond_wait_def mutex_unlock_def Condition_new_def notifyAll_def Thread_new_def)

lemma stop_race_pushed:
  assumes "below_mask conf []" "waitForSeconds_waits (flushInterval conf) early_clock"
  shows "pushed (stop_race_state conf n) = []"
  using assms
  by (simp add: stop_race_state_def stop_race_def threads_run.simps(2) threads_init_def owner_step_def thread_start_def
      log_thread_step_def goto_def open_next_def lock_goto_def take_lock_def MutexLockGuard_new_def mutex_lock_def MutexLock_new_def
      cond_wait_def mutex_unlock_def Condition_new_def notifyAll_def Thread_new_def)

definition sample_log_conf :: log_conf where
  "sample_log_conf = \<lparr>logfilename = ''log'', flushInterval = 1, highWaterMask = 2, rollingRule = LOG_FILE_ROLLING_NONE,
     maxSizeBytes = 1024, startDate = ''2016/05/09''\<rparr>"

text \<open>So what holds of the reachable states of \<open>Async_Log\<close> holds here: the files and the buffers have all lines, in order.\<close>

lemma threads_log_contents:
  assumes "threads_reachable conf n s" "lpc s \<noteq> L_Done"
  shows "file_text s @ texts (nextBuffer s @ currentBuffer s) = texts (pushed s)"
proof -
  obtain c where c: "log_reachable conf c" "sim s c" using threads_sim [OF assms(1)] by blast
  have d: "currentBuffer c = currentBuffer s" "nextBuffer c = nextBuffer s" "files c = files s" "pushed c = pushed s"
    using c(2) by (simp_all add: sim_def data_eq_def)
  have "log_pc c \<noteq> Done" using c(2) assms(2) by (auto simp: sim_def coarse_pc_def split: log_thread_pc.splits)
  then have "file_text c @ texts (nextBuffer c @ currentBuffer c) = texts (pushed c)"
    using log_inv_reachable [OF c(1)] by (simp add: log_inv_def)
  then show ?thesis using d by (simp add: file_text_def)
qed

lemma threads_refine_log_witness:
  "\<exists>s' c'. threads_step sample_log_conf Owner_Acts (threads_init sample_log_conf 2) = Inr (Some s') \<and>
     (c' = log_start sample_log_conf \<or> log_step sample_log_conf (log_start sample_log_conf) c') \<and> sim s' c'"
proof -
  have "\<exists>s'. threads_step sample_log_conf Owner_Acts (threads_init sample_log_conf 2) = Inr (Some s')"
    by (simp add: threads_init_def owner_step_def)
  then obtain s' where "threads_step sample_log_conf Owner_Acts (threads_init sample_log_conf 2) = Inr (Some s')" ..
  then show ?thesis
    using threads_refine_log [of sample_log_conf 2] threads_reachable.init [of sample_log_conf 2] by blast
qed

lemma sample_log_conf_facts: "below_mask sample_log_conf []" "waitForSeconds_waits (flushInterval sample_log_conf) early_clock"
  by (code_simp, code_simp)

lemma stop_race_reachable:
  assumes "below_mask conf []" "waitForSeconds_waits (flushInterval conf) early_clock"
  shows "threads_reachable conf n (stop_race_state conf n)"
  using threads_run_reachable [OF threads_reachable.init stop_race_state(1) [OF assms]] .

lemma log_threads_exclusion_witness:
  "\<exists>r. threads_step sample_log_conf Owner_Acts (stop_race_state sample_log_conf 2) = Inr r"
  using log_threads_exclusion [OF stop_race_reachable [OF sample_log_conf_facts]] by blast

text \<open>C24: \<open>stop()\<close> returns. Once it has cleared \<open>_running\<close> and waits for the log thread, the log thread makes at most 15 more
  steps, however the other threads run; and from every such state a schedule of at most 19 steps, in which the appending thread in
  a critical section leaves it, the waits of the log thread end and it does its remaining steps, lets \<open>stop()\<close> return; only
  if an empty line has been logged, or is being pushed, the log thread fails instead.\<close>

theorem stop_returns:
  assumes "threads_reachable conf n s" "opc s = O_Join"
  shows "(\<forall>as s'. threads_run conf as s = Inr (Some s') \<longrightarrow> length (filter is_log as) \<le> 15) \<and>
    (\<exists>as s'. length as \<le> 19 \<and> threads_run conf as s = Inr (Some s') \<and> (opc s' = O_Stopped \<or> lpc s' = L_Crash \<and> empty_line_logged s))"
proof
  have nr: "\<not> running s" using threads_inv [OF assms(1)] assms(2) by (simp add: owner_inv_def)
  then show "\<forall>as s'. threads_run conf as s = Inr (Some s') \<longrightarrow> length (filter is_log as) \<le> 15"
    using stopped_run_bound [of conf _ s] assms(2) log_left_le [of "lpc s"] by fastforce
  obtain as s1 where s1: "length as \<le> 3" "threads_run conf as s = Inr (Some s1)" "appenders_out s1" "lpc s1 = lpc s"
    "opc s1 = O_Join" "\<not> running s1" "empty_line_logged s1 \<longrightarrow> empty_line_logged s" using appenders_leave [OF assms(1)] assms(2) nr by metis
  obtain bs s2 where s2: "length bs \<le> log_left (lpc s1)" "threads_run conf bs s1 = Inr (Some s2)"
    "lpc s2 \<in> {L_Done, L_Crash}" "opc s2 = O_Join" "empty_line_logged s2 = empty_line_logged s1"
    using log_thread_runs_out [OF threads_run_reachable [OF assms(1) s1(2)] s1(6,5,3)] by blast
  note run = threads_run_append [OF s1(2) s2(2)]
  have len: "length (as @ bs) \<le> 18" using s1(1) s2(1) log_left_le [of "lpc s1"] by simp
  show "\<exists>as s'. length as \<le> 19 \<and> threads_run conf as s = Inr (Some s') \<and> (opc s' = O_Stopped \<or> lpc s' = L_Crash \<and> empty_line_logged s)"
  proof (cases "lpc s2 = L_Crash")
    case True
    then have "empty_line_logged s2"
      using crash_empty_line [OF threads_run_reachable [OF assms(1) run]] by (simp add: empty_line_logged_def)
    then show ?thesis using run len True s1(7) s2(5) by (intro exI [of _ "as @ bs"] exI [of _ s2]) simp
  next
    case False
    then have "lpc s2 = L_Done" using s2(3) by simp
    then have "\<exists>s3. threads_run conf [Owner_Acts] s2 = Inr (Some s3) \<and> opc s3 = O_Stopped"
      using threads_inv [OF threads_run_reachable [OF assms(1) run]] s2(4)
      by (simp add: threads_run_Cons owner_inv_def owner_step_def thread_join_def)
    then obtain s3 where "threads_run conf [Owner_Acts] s2 = Inr (Some s3)" "opc s3 = O_Stopped" by blast
    with threads_run_append [OF run this(1)] len show ?thesis
      by (intro exI [of _ "(as @ bs) @ [Owner_Acts]"] exI [of _ s3]) simp
  qed
qed

lemma stop_returns_witness:
  "\<exists>as s'. length as \<le> 19 \<and> threads_run sample_log_conf as (stop_race_state sample_log_conf 2) = Inr (Some s') \<and>
     opc s' = O_Stopped"
proof -
  have "\<not> empty_line_logged (stop_race_state sample_log_conf 2)"
    using stop_race_state(6) [OF sample_log_conf_facts] stop_race_pushed [OF sample_log_conf_facts]
    by (simp add: empty_line_logged_def)
  then show ?thesis
    using stop_returns [OF stop_race_reachable [OF sample_log_conf_facts] stop_race_state(2) [OF sample_log_conf_facts]] by blast
qed

text \<open>C35: \<open>stop()\<close> can miss the log thread. It signals before it clears \<open>_running\<close>; a log thread that starts to wait in between gets
  no signal: with no line on its way, the threads stay as they are until the time of \<open>waitForSeconds\<close> is up, and
  \<open>stop()\<close> waits as long.\<close>

theorem stop_wakeup_lost:
  assumes "below_mask conf []" "waitForSeconds_waits (flushInterval conf) early_clock"
  shows "\<exists>s. threads_reachable conf n s \<and> opc s = O_Join \<and>
    (\<forall>as s'. threads_run conf as s = Inr (Some s') \<and> (\<forall>d t. Log_Acts d t True \<notin> set as) \<longrightarrow> s' = s)"
proof -
  note r = stop_race_state [OF assms, of n]
  let ?s = "stop_race_state conf n"
  have same: "s' = ?s" if "threads_step conf a ?s = Inr (Some s')" "\<forall>d t. a \<noteq> Log_Acts d t True" for a s'
  proof (cases a)
    case Owner_Acts
    then show ?thesis using that(1) r(2,7,8,9) by (simp add: owner_step_def thread_join_def)
  next
    case (Append_Acts i l k)
    then show ?thesis using that(1) r(4,6) by (auto simp: append_step_def split: if_splits)
  next
    case (Log_Acts d t b)
    then have "b = False" using that(2) by (cases b) auto
    then show ?thesis using that(1) r(3,5) Log_Acts by (simp add: log_thread_step_def cond_wakes_def)
  qed
  have "s' = ?s" if "threads_run conf as ?s = Inr (Some s')" "\<forall>d t. Log_Acts d t True \<notin> set as" for as s'
    using that
  proof (induction as)
    case (Cons a as)
    then obtain s1 where "threads_step conf a ?s = Inr (Some s1)" "threads_run conf as s1 = Inr (Some s')"
      by (auto simp: threads_run_Cons)
    moreover from this(1) Cons.prems(2) have "s1 = ?s" by (intro same) auto
    ultimately show ?case using Cons by simp
  qed simp
  then show ?thesis using stop_race_reachable [OF assms] r(2) by blast
qed

lemma stop_wakeup_lost_witness:
  "\<exists>s. threads_reachable sample_log_conf 2 s \<and> opc s = O_Join \<and>
     threads_step sample_log_conf Owner_Acts s \<noteq> Inr (Some (s\<lparr>opc := O_Stopped\<rparr>))"
proof -
  obtain s where s: "threads_reachable sample_log_conf 2 s" "opc s = O_Join"
    "\<forall>as s'. threads_run sample_log_conf as s = Inr (Some s') \<and> (\<forall>d t. Log_Acts d t True \<notin> set as) \<longrightarrow> s' = s"
    using stop_wakeup_lost [OF sample_log_conf_facts, of 2] by blast
  have "threads_step sample_log_conf Owner_Acts s \<noteq> Inr (Some (s\<lparr>opc := O_Stopped\<rparr>))"
  proof
    assume "threads_step sample_log_conf Owner_Acts s = Inr (Some (s\<lparr>opc := O_Stopped\<rparr>))"
    then have "threads_run sample_log_conf [Owner_Acts] s = Inr (Some (s\<lparr>opc := O_Stopped\<rparr>))" by (simp add: threads_run_Cons)
    with s(3) have "s\<lparr>opc := O_Stopped\<rparr> = s" by fastforce
    then have "opc (s\<lparr>opc := O_Stopped\<rparr>) = opc s" by simp
    then show False using s(2) by simp
  qed
  with s show ?thesis by blast
qed

end
