(* ===== verification/Format.thy ===== *)
theory Format
  imports Connection Async_Log
begin

text \<open>
  \<open>format\<close> and \<open>process_mem_usage\<close> of \<open>src/utilities.cpp\<close>. \<open>vformat\<close> is \<open>vsnprintf\<close> for the directives the program uses
  (\<open>d\<close>, \<open>u\<close>, \<open>s\<close>, \<open>c\<close>, with a width and the flag 0). An argument is what a call passes: the value of a 64 bit register, of
  which \<open>d\<close> and \<open>u\<close> read the low 32 bits, or the characters at a pointer. The other theories write the text of each call out; here
  it is shown that each is what \<open>format\<close> makes of the format string in the source. \<open>process_mem_usage\<close> gets the text of
  \<open>/proc/self/stat\<close> (\<open>None\<close> when it cannot be opened) and the page size; its results, \<open>double\<close>s, are rational numbers, which
  is exact as long as they need at most 53 bits.
\<close>

section \<open>format\<close>

datatype fmt_arg = Reg "64 word" | Ptr string

text \<open>Padding to a width: zeros go behind a sign, blanks in front.\<close>

definition pad_field :: "bool \<Rightarrow> nat \<Rightarrow> string \<Rightarrow> string" where
  "pad_field zero w s =
     (if zero then (if s \<noteq> [] \<and> hd s = CHR ''-'' then CHR ''-'' # replicate (w - length s) CHR ''0'' @ tl s
                    else replicate (w - length s) CHR ''0'' @ s)
      else replicate (w - length s) CHR '' '' @ s)"

definition conversion :: "char \<Rightarrow> bool \<Rightarrow> nat \<Rightarrow> fmt_arg \<Rightarrow> string res" where
  "conversion conv zero w a = (case a of
       Reg r \<Rightarrow> if conv = CHR ''d'' then Inr (pad_field zero w (show_int (sint (ucast r :: 32 word))))
              else if conv = CHR ''u'' then Inr (pad_field zero w (show_nat (unat (ucast r :: 32 word))))
              else if conv = CHR ''c'' then Inr (pad_field False w [char_of (unat r mod 256)])
              else Inl Bad_Handle
     | Ptr s \<Rightarrow> if conv = CHR ''s'' then Inr (pad_field False w (c_str s)) else Inl Bad_Handle)"

text \<open>A directive: flag, width, conversion character, and what follows. None when the format ends within it.\<close>

definition directive :: "string \<Rightarrow> (bool \<times> nat \<times> char \<times> string) option" where
  "directive f = (let zero = (f \<noteq> [] \<and> hd f = CHR ''0''); f1 = (if zero then tl f else f)
     in case dropWhile isdigit f1 of [] \<Rightarrow> None
        | conv # f2 \<Rightarrow> Some (zero, nat (dec_val 0 (takeWhile isdigit f1)), conv, f2))"

lemma directive_length: "directive f = Some (z, w, c, f2) \<Longrightarrow> length f2 < length f"
proof -
  assume d: "directive f = Some (z, w, c, f2)"
  define f1 where "f1 = (if f \<noteq> [] \<and> hd f = CHR ''0'' then tl f else f)"
  have "dropWhile isdigit f1 = c # f2" using d by (auto simp: directive_def Let_def f1_def split: list.splits)
  then have "length (c # f2) \<le> length f1" using length_dropWhile_le [of isdigit f1] by simp
  also have "\<dots> \<le> length f" by (simp add: f1_def)
  finally show ?thesis by simp
qed

text \<open>A directive without an argument reads what is not there.\<close>

function vformat :: "string \<Rightarrow> fmt_arg list \<Rightarrow> string res" where
  "vformat [] as = Inr []"
| "vformat (c # f) as =
     (if c \<noteq> CHR ''%'' then bind_res (vformat f as) (\<lambda>t. Inr (c # t))
      else case directive f of
          None \<Rightarrow> Inl Out_Of_Bounds
        | Some (zero, w, conv, f1) \<Rightarrow>
            if conv = CHR ''%'' then bind_res (vformat f1 as) (\<lambda>t. Inr (CHR ''%'' # t))
            else (case as of
                [] \<Rightarrow> Inl Uninitialised_Read
              | a # as1 \<Rightarrow> bind_res (conversion conv zero w a) (\<lambda>s. bind_res (vformat f1 as1) (\<lambda>t. Inr (s @ t)))))"
  by pat_completeness auto
termination
  by (relation "measure (\<lambda>(f, as). length f)") (auto dest!: directive_length)

text \<open>\<open>format\<close>: the size is computed first; the result is the C string in the buffer.\<close>

definition format :: "string \<Rightarrow> fmt_arg list \<Rightarrow> string res" where
  "format fmt as =
     bind_res (vformat fmt as) (\<lambda>s.
     bind_res (c_int (int (length s) + 1)) (\<lambda>size.
       let buf = take (nat size - 1) s @ [NUL] in Inr (c_str buf)))"

text \<open>How an \<open>int\<close> and a \<open>size_t\<close> are passed.\<close>

definition int_arg :: "int \<Rightarrow> fmt_arg" where "int_arg i = Reg (word_of_int i)"
definition size_arg :: "nat \<Rightarrow> fmt_arg" where "size_arg n = Reg (of_nat n)"

lemma directives [simp]:
  "directive (CHR ''d'' # f) = Some (False, 0, CHR ''d'', f)" "directive (CHR ''u'' # f) = Some (False, 0, CHR ''u'', f)"
  "directive (CHR ''s'' # f) = Some (False, 0, CHR ''s'', f)" "directive (CHR ''4'' # CHR ''d'' # f) = Some (False, 4, CHR ''d'', f)"
  "directive (CHR ''0'' # CHR ''2'' # CHR ''d'' # f) = Some (True, 2, CHR ''d'', f)"
  by (simp_all add: directive_def isdigit_def digit_val_def)

lemma ucast_int_arg: "(ucast (word_of_int i :: 64 word) :: 32 word) = word_of_int i"
  by (simp add: unsigned_of_int word_of_int_eq_iff)

lemma ucast_size_arg: "(ucast (word_of_nat n :: 64 word) :: 32 word) = word_of_nat n"
  by (simp add: unsigned_of_nat word_of_nat_eq_iff)

lemma conversions [simp]:
  "conversion CHR ''d'' z w (size_arg n) = Inr (pad_field z w (show_int (int_of_size n)))"
  "conversion CHR ''u'' z w (Reg r) = Inr (pad_field z w (show_nat (unat (ucast r :: 32 word))))"
  "conversion CHR ''s'' z w (Ptr s) = Inr (pad_field False w (c_str s))"
  by (simp_all add: conversion_def int_arg_def size_arg_def int_of_size_def ucast_int_arg ucast_size_arg)

text \<open>Literal text, and the padding of the two widths in use.\<close>

lemma pad_plain [simp]: "pad_field False 0 s = s"
  by (simp add: pad_field_def)

lemma pad_4: "pad_field False 4 (show_int i) = fmt_4d i"
  by (simp add: pad_field_def fmt_4d_def)

lemma show_nat_no_minus: "show_nat n \<noteq> [] \<and> hd (show_nat n) \<noteq> CHR ''-''"
proof -
  have "hd (show_nat n) \<in> set (show_nat n)" by (simp add: list.set_sel)
  then have "isdigit (hd (show_nat n))" using show_nat_digits by blast
  then show ?thesis by auto
qed

lemma pad_02: "pad_field True 2 (show_int i) = fmt_02d i"
  using show_nat_no_minus [of "nat i"] by (simp add: pad_field_def fmt_02d_def show_int_def)

definition INT_arg :: "int \<Rightarrow> bool" where "INT_arg i \<longleftrightarrow> INT_MIN \<le> i \<and> i \<le> INT_MAX"

lemma conversion_int [simp]:
  assumes "INT_arg i"
  shows "conversion CHR ''d'' z w (int_arg i) = Inr (pad_field z w (show_int i))"
proof -
  have "sint (word_of_int i :: 32 word) = i"
    using assms by (simp add: signed_of_int signed_take_bit_int_eq_self INT_arg_def INT_MIN_def INT_MAX_def)
  then show ?thesis by (simp add: conversion_def int_arg_def ucast_int_arg)
qed

lemma vformat_Cons_plain [simp]: "c \<noteq> CHR ''%'' \<Longrightarrow> vformat (c # f) as = bind_res (vformat f as) (\<lambda>t. Inr (c # t))"
  by simp

text \<open>The calls of the program.\<close>

lemma vformat_message: "vformat ''%d %s'' [size_arg (length str), Ptr p] = Inr (message_frame (int_of_size (length str)) p)"
  by (simp add: message_frame_def)

lemma vformat_date:
  assumes "INT_arg (tm_year t + 1900)" "INT_arg (tm_mon t + 1)" "INT_arg (tm_mday t)"
  shows "vformat ''%4d/%02d/%02d'' [int_arg (tm_year t + 1900), int_arg (tm_mon t + 1), int_arg (tm_mday t)] =
    Inr (getDateAsString t)"
  using assms by (simp add: getDateAsString_def pad_4 pad_02)

lemma vformat_time:
  assumes "INT_arg (tm_year t + 1900)" "INT_arg (tm_mon t + 1)" "INT_arg (tm_mday t)" "INT_arg (tm_hour t)" "INT_arg (tm_min t)"
    "INT_arg (tm_sec t)"
  shows "vformat ''%4d/%02d/%02d %02d:%02d:%02d'' [int_arg (tm_year t + 1900), int_arg (tm_mon t + 1), int_arg (tm_mday t),
      int_arg (tm_hour t), int_arg (tm_min t), int_arg (tm_sec t)] =
    Inr (getDateAsString t @ '' '' @ fmt_02d (tm_hour t) @ '':'' @ fmt_02d (tm_min t) @ '':'' @ fmt_02d (tm_sec t))"
  using assms by (simp add: getDateAsString_def pad_4 pad_02)

text \<open>An \<open>unsigned\<close> that has been masked to a byte is passed as it is; a \<open>uint16_t\<close> is promoted to \<open>int\<close>.\<close>

lemma vformat_log:
  "vformat ''%s %u %s %s %d.%d.%d.%d:%d %s'' [Ptr level, Reg tid, Ptr tname, Ptr time, Reg (ucast (ip AND 0x000000FF)),
     Reg (ucast (drop_bit 8 (ip AND 0x0000FF00))), Reg (ucast (drop_bit 16 (ip AND 0x00FF0000))),
     Reg (ucast (drop_bit 24 (ip AND 0xFF000000))), size_arg (unat (port :: 16 word)), Ptr msg] =
   Inr (server_log_line level (ucast tid) tname time ip port msg)"
proof -
  have reg: "conversion CHR ''d'' False 0 (Reg (ucast (w :: 32 word))) = Inr (show_int (sint w))" for w
  proof -
    have "(ucast (ucast w :: 64 word) :: 32 word) = w" by (rule bit_word_eqI) (simp add: bit_simps)
    then show ?thesis by (simp add: conversion_def)
  qed
  have "unat port < 2 ^ 16" using unsigned_less [of port, where 'a = nat] by simp
  then have "int_of_size (unat port) = int (unat port)" by (intro int_of_size_small) (simp add: INT_MAX_def del: of_nat_unat)
  then show ?thesis by (simp add: reg server_log_line_def del: of_nat_unat)
qed

lemma vformat_suffix:
  assumes "int n \<le> INT_MAX"
  shows "vformat ''_%d'' [int_arg (int n)] = Inr (''_'' @ show_nat n)"
  using assms by (simp add: INT_arg_def INT_MIN_def)

lemma format_ok:
  assumes "vformat fmt as = Inr s" "NUL \<notin> set s" "int (length s) < INT_MAX"
  shows "format fmt as = Inr s"
  using assms by (simp add: format_def c_int_def INT_MIN_def c_str_no_NUL)

lemma c_str_free: "NUL \<notin> set (c_str s)"
  by (auto simp: c_str_def dest: set_takeWhileD)

lemma show_no_NUL: "NUL \<notin> set (show_nat n)" "NUL \<notin> set (show_int i)"
  using show_nat_digits [of n] show_nat_digits [of "nat i"] show_nat_digits [of "nat (- i)"] by (auto simp: show_int_def)

section \<open>Buffer::print\<close>

text \<open>What \<open>print\<close> of \<open>src/buffer.h\<close> writes to the console: the numbers, and the whole array.\<close>

fun print_loop :: "nat \<Rightarrow> nat \<Rightarrow> string \<Rightarrow> string res" where
  "print_loop 0 i d = Inr []"
| "print_loop (Suc n) i d = bind_res (rd d (int i)) (\<lambda>c. bind_res (print_loop n (Suc i) d) (\<lambda>t. Inr (c # t)))"

definition buf_print :: "buffer \<Rightarrow> string res" where
  "buf_print b =
     bind_res (vformat ''print buffer[%d][%d][%d][%d]['' [int_arg (currentSize b), int_arg (bufBegin b), int_arg (bufEnd b),
       int_arg (bufCount b)]) (\<lambda>h.
     bind_res (print_loop (nat (currentSize b)) 0 (bufData b)) (\<lambda>t. Inr (h @ t @ '']'' @ [NEWLINE])))"

lemma print_loop_all: "i + n \<le> length d \<Longrightarrow> print_loop n i d = Inr (take n (drop i d))"
proof (induction n arbitrary: i)
  case (Suc n)
  then have "drop i d = d ! i # drop (Suc i) d" by (simp add: Cons_nth_drop_Suc)
  then show ?case using Suc by (simp add: rd_def)
qed simp

lemma buf_print_ok:
  assumes "buf_ok b"
  shows "\<exists>h. buf_print b = Inr (h @ bufData b @ '']'' @ [NEWLINE])"
proof -
  have b: "length (bufData b) = nat (currentSize b)" "0 \<le> currentSize b" "currentSize b \<le> INT_MAX" "0 \<le> bufBegin b"
    "bufBegin b \<le> INT_MAX" "0 \<le> bufEnd b" "0 \<le> bufCount b" "bufCount b \<le> INT_MAX"
    using assms by (auto simp: buf_ok_def buf_inv_def)
  moreover have "bufEnd b < currentSize b" using assms by (auto simp: buf_ok_def buf_inv_def)
  ultimately have "INT_arg (currentSize b)" "INT_arg (bufBegin b)" "INT_arg (bufEnd b)" "INT_arg (bufCount b)"
    by (simp_all add: INT_arg_def INT_MIN_def)
  then show ?thesis using b(1) by (simp add: buf_print_def print_loop_all)
qed

section \<open>process_mem_usage\<close>

text \<open>\<open>>>\<close> of an \<open>ifstream\<close>: what is left of the text, and whether the stream is still good; a failed stream leaves the
  variable as it is. A stream that has met the end fails on the next extraction.\<close>

definition skip_space :: "string \<Rightarrow> string" where "skip_space s = dropWhile isspace s"

definition read_word :: "string \<Rightarrow> (string \<times> string) option" where
  "read_word s = (let r = skip_space s in
     if r = [] then None else Some (takeWhile (\<lambda>c. \<not> isspace c) r, dropWhile (\<lambda>c. \<not> isspace c) r))"

fun skip_words :: "nat \<Rightarrow> string \<Rightarrow> string option" where
  "skip_words 0 s = Some s"
| "skip_words (Suc n) s = (case read_word s of None \<Rightarrow> None | Some (_, r) \<Rightarrow> skip_words n r)"

text \<open>A decimal number, for a \<open>long\<close> with a minus sign if it is negative. Without digits, or outside the type, the extraction
  fails. (It would take other signs too, which the kernel does not write.)\<close>

definition read_number :: "bool \<Rightarrow> int \<Rightarrow> int \<Rightarrow> string \<Rightarrow> (int \<times> string) option" where
  "read_number with_sign lo hi s =
     (let r = skip_space s; neg = (with_sign \<and> r \<noteq> [] \<and> hd r = CHR ''-''); r1 = (if neg then tl r else r);
          ds = takeWhile isdigit r1; v = (if neg then - dec_val 0 ds else dec_val 0 ds)
      in if ds = [] \<or> v < lo \<or> hi < v then None else Some (v, dropWhile isdigit r1))"

definition ULONG_MAX :: int where "ULONG_MAX = 2 ^ 64 - 1"
definition LONG_MIN_64 :: int where "LONG_MIN_64 = - (2 ^ 63)"
definition LONG_MAX_64 :: int where "LONG_MAX_64 = 2 ^ 63 - 1"

text \<open>\<open>vsize\<close> and \<open>rss\<close> are not initialised; when the text does not give both, a number that was never set is used.\<close>

definition process_mem_usage :: "string option \<Rightarrow> int \<Rightarrow> (rat \<times> rat) res" where
  "process_mem_usage stat page_size =
     (case (case stat of None \<Rightarrow> None | Some text \<Rightarrow> skip_words 22 text) of
        None \<Rightarrow> Inl Uninitialised_Read
      | Some r \<Rightarrow> (case read_number False 0 ULONG_MAX r of
            None \<Rightarrow> Inl Uninitialised_Read
          | Some (vsize, r1) \<Rightarrow> (case read_number True LONG_MIN_64 LONG_MAX_64 r1 of
                None \<Rightarrow> Inl Uninitialised_Read
              | Some (rss, _) \<Rightarrow>
                  let page_size_kb = page_size sdiv 1024; kb = rss * page_size_kb
                  in if kb < LONG_MIN_64 \<or> LONG_MAX_64 < kb then Inl Signed_Overflow
                     else Inr (of_int vsize / 1024, of_int kb))))"

text \<open>The text as the kernel writes it: words with one blank between them.\<close>

definition word_ok :: "string \<Rightarrow> bool" where
  "word_ok w \<longleftrightarrow> w \<noteq> [] \<and> (\<forall>c \<in> set w. \<not> isspace c)"

fun words_text :: "string list \<Rightarrow> string" where
  "words_text [] = []"
| "words_text (w # ws) = CHR '' '' # w @ words_text ws"

lemma space_blank [simp]: "isspace CHR '' ''" by (simp add: isspace_def)

lemma words_text_stop: "dropWhile (\<lambda>c. \<not> isspace c) (words_text ws) = words_text ws" "takeWhile (\<lambda>c. \<not> isspace c) (words_text ws) = []"
  by (cases ws; simp)+

lemma read_word_text:
  assumes "word_ok w"
  shows "read_word (CHR '' '' # w @ words_text ws) = Some (w, words_text ws)" "read_word (w @ words_text ws) = Some (w, words_text ws)"
proof -
  have "dropWhile isspace (w @ t) = w @ t" for t using assms by (cases w) (auto simp: word_ok_def)
  moreover have "takeWhile (\<lambda>c. \<not> isspace c) (w @ words_text ws) = w" "dropWhile (\<lambda>c. \<not> isspace c) (w @ words_text ws) = words_text ws"
    using assms by (simp_all add: word_ok_def words_text_stop)
  ultimately show "read_word (CHR '' '' # w @ words_text ws) = Some (w, words_text ws)"
    "read_word (w @ words_text ws) = Some (w, words_text ws)"
    using assms by (auto simp: read_word_def skip_space_def word_ok_def)
qed

lemma skip_words_text:
  "\<forall>w \<in> set ws. word_ok w \<Longrightarrow> skip_words n (words_text ws) = (if n \<le> length ws then Some (words_text (drop n ws)) else None)"
proof (induction ws arbitrary: n)
  case Nil
  then show ?case by (cases n) (simp_all add: read_word_def skip_space_def)
next
  case (Cons w ws)
  then show ?case using read_word_text(1) [of w ws] by (cases n) auto
qed

lemma words_text_join: "ws \<noteq> [] \<Longrightarrow> words_text ws = CHR '' '' # join_with CHR '' '' ws"
proof (induction ws)
  case (Cons w ws)
  then show ?case by (cases ws) simp_all
qed simp

lemma skip_words_blank: "skip_words (Suc n) (CHR '' '' # s) = skip_words (Suc n) s"
  by (simp add: read_word_def skip_space_def)

lemma read_number_text:
  assumes "lo \<le> int n" "int n \<le> hi"
  shows "read_number sg lo hi (words_text (show_nat n # ws)) = Some (int n, words_text ws)"
proof -
  have d: "\<forall>c \<in> set (show_nat n). isdigit c" by (rule show_nat_digits)
  have sk: "skip_space (words_text (show_nat n # ws)) = show_nat n @ words_text ws"
  proof -
    obtain c cs where c: "show_nat n = c # cs" using show_nat_not_Nil [of n] by (cases "show_nat n") auto
    then have "\<not> isspace c" using d isdigit_not_space by simp
    then show ?thesis by (simp add: skip_space_def c)
  qed
  have "takeWhile isdigit (words_text ws) = []" "dropWhile isdigit (words_text ws) = words_text ws" by (cases ws; simp)+
  then have "takeWhile isdigit (show_nat n @ words_text ws) = show_nat n" "dropWhile isdigit (show_nat n @ words_text ws) = words_text ws"
    using d by (simp_all add: takeWhile_append dropWhile_append)
  moreover have "hd (show_nat n @ words_text ws) \<noteq> CHR ''-''" using show_nat_no_minus [of n] by simp
  ultimately show ?thesis using assms sk by (simp add: read_number_def dec_val_show_nat del: words_text.simps)
qed

lemma read_number_end: "read_number sg lo hi (words_text []) = None"
  by (simp add: read_number_def skip_space_def)

section \<open>Properties\<close>

text \<open>C37: The texts that the program builds are those of its format strings: a message (tcpConnection.cpp), the date (utilities.cpp),
  the time stamp (tcpServer.cpp), the log line (tcpServer.cpp) and the name of a log file (asyncLogging.cpp) are what format, or
  sprintf, makes of the format string and the arguments in the source.\<close>

theorem format_calls:
  assumes "int (length (message_frame (int_of_size (length str)) p)) < INT_MAX"
    "int (length (server_log_line level (ucast tid) tname time ip port msg)) < INT_MAX"
    "int (suffix s) < INT_MAX" "tm_ok t" "0 \<le> tm_year t + 1900" "tm_year t + 1900 < 10000"
  shows "format ''%d %s'' [size_arg (length str), Ptr p] = Inr (message_frame (int_of_size (length str)) p) \<and>
    format ''%4d/%02d/%02d'' [int_arg (tm_year t + 1900), int_arg (tm_mon t + 1), int_arg (tm_mday t)] = Inr (getDateAsString t) \<and>
    bind_res (vformat ''%4d/%02d/%02d %02d:%02d:%02d'' [int_arg (tm_year t + 1900), int_arg (tm_mon t + 1), int_arg (tm_mday t),
      int_arg (tm_hour t), int_arg (tm_min t), int_arg (tm_sec t)]) (\<lambda>x. if length x + 1 > 20 then Inl Out_Of_Bounds else Inr x) =
      updateTime t \<and>
    format ''%s %u %s %s %d.%d.%d.%d:%d %s'' [Ptr level, Reg tid, Ptr tname, Ptr time, Reg (ucast (ip AND 0x000000FF)),
      Reg (ucast (drop_bit 8 (ip AND 0x0000FF00))), Reg (ucast (drop_bit 16 (ip AND 0x00FF0000))),
      Reg (ucast (drop_bit 24 (ip AND 0xFF000000))), size_arg (unat (port :: 16 word)), Ptr msg] =
      Inr (server_log_line level (ucast tid) tname time ip port msg) \<and>
    bind_res (format ''_%d'' [int_arg (int (suffix s))]) (\<lambda>x. Inr (logfilename conf @ x)) = Inr (getNextLogFileName conf s)"
proof -
  have ints: "INT_arg (tm_year t + 1900)" "INT_arg (tm_mon t + 1)" "INT_arg (tm_mday t)" "INT_arg (tm_hour t)" "INT_arg (tm_min t)"
    "INT_arg (tm_sec t)" using assms(4-6) by (simp_all add: tm_ok_def INT_arg_def INT_MIN_def INT_MAX_def)
  have msg: "NUL \<notin> set (message_frame (int_of_size (length str)) p)"
    using show_no_NUL c_str_free by (simp add: message_frame_def)
  have date: "NUL \<notin> set (getDateAsString t)" using fmt_no_NUL by (simp add: getDateAsString_def)
  have "length (getDateAsString t) = 10"
    using assms(4-6) by (simp add: getDateAsString_def tm_ok_def fmt_02d_len fmt_4d_len)
  then have date_len: "int (length (getDateAsString t)) < INT_MAX" by (simp add: INT_MAX_def)
  have line: "NUL \<notin> set (server_log_line level (ucast tid) tname time ip port msg)"
    using show_no_NUL c_str_free by (simp add: server_log_line_def)
  have name: "NUL \<notin> set (''_'' @ show_nat (suffix s))" using show_no_NUL by simp
  have "length (show_nat (suffix s)) \<le> 10"
    using assms(3) by (intro show_nat_len) (simp_all add: INT_MAX_def)
  then have name_len: "int (length (''_'' @ show_nat (suffix s))) < INT_MAX" by (simp add: INT_MAX_def)
  have n: "int (suffix s) \<le> INT_MAX" using assms(3) by simp
  let ?x = "getDateAsString t @ '' '' @ fmt_02d (tm_hour t) @ '':'' @ fmt_02d (tm_min t) @ '':'' @ fmt_02d (tm_sec t)"
  have x: "length ?x = 19" using assms(4) \<open>length (getDateAsString t) = 10\<close> by (simp add: tm_ok_def fmt_02d_len)
  have "NUL \<notin> set ?x" using date fmt_no_NUL by simp
  then have "c_str ((?x @ [NUL])[19 := NUL]) = ?x" using x by (simp add: list_update_append c_str_no_NUL del: append_assoc)
  then have up: "updateTime t = Inr ?x" using x unfolding updateTime_def Let_def by (simp del: append_assoc)
  show ?thesis
    using format_ok [OF vformat_message msg assms(1)] format_ok [OF vformat_date [OF ints(1-3)] date date_len]
      format_ok [OF vformat_log line assms(2)] format_ok [OF vformat_suffix [OF n] name name_len]
    unfolding up vformat_time [OF ints] getNextLogFileName_def using x by (simp del: vformat.simps)
qed

lemma format_calls_witness:
  "format ''%d %s'' [size_arg 2, Ptr ''hi''] = Inr ''2 hi''"
proof -
  have len: "int (length (message_frame (int_of_size (length ''hi'')) ''hi'')) < INT_MAX"
    "int (length (server_log_line ''DEBUG'' (ucast (5 :: 64 word)) ''worker'' ''now'' 1 2 ''hi'')) < INT_MAX"
    by code_simp+
  have frame: "message_frame (int_of_size (length ''hi'')) ''hi'' = ''2 hi''" by code_simp
  define t where "t = \<lparr>tm_year = 116, tm_mon = 4, tm_mday = 9, tm_hour = 10, tm_min = 20, tm_sec = 30\<rparr>"
  have t: "tm_ok t" "0 \<le> tm_year t + 1900" "tm_year t + 1900 < 10000" by (simp_all add: t_def tm_ok_def)
  have suf: "int (suffix (log_start sample_conf)) < INT_MAX" by (simp add: log_start_def INT_MAX_def)
  have "format ''%d %s'' [size_arg (length ''hi''), Ptr ''hi''] = Inr (message_frame (int_of_size (length ''hi'')) ''hi'')"
    by (rule format_calls [OF len suf t, THEN conjunct1])
  moreover have "length ''hi'' = 2" by simp
  ultimately show ?thesis unfolding frame by (simp only:)
qed

text \<open>What process_mem_usage takes from /proc/self/stat. Of a text of words with single blanks between them it reads the words
  number 22 and 23, counted from 0, as the virtual size in bytes and the resident size in pages, and gives both in
  kilobytes. A file that cannot be opened, or with fewer words, does not give 0, as include.h says: numbers that were
  never set are used. Words are all it counts: a program name with a blank in it moves the numbers.\<close>

lemma memory_usage_words:
  assumes "\<forall>w \<in> set ws. word_ok w" "ws \<noteq> []" "0 \<le> page_size"
  shows "process_mem_usage None page_size = Inl Uninitialised_Read \<and>
    (length ws \<le> 22 \<longrightarrow> process_mem_usage (Some (join_with CHR '' '' ws)) page_size = Inl Uninitialised_Read) \<and>
    (\<forall>vsize rss. 24 \<le> length ws \<and> ws ! 22 = show_nat vsize \<and> ws ! 23 = show_nat rss \<and> int vsize \<le> ULONG_MAX \<and>
       int rss \<le> LONG_MAX_64 \<and> int rss * (page_size div 1024) \<le> LONG_MAX_64 \<longrightarrow>
       process_mem_usage (Some (join_with CHR '' '' ws)) page_size =
         Inr (of_int (int vsize) / 1024, of_int (int rss * (page_size div 1024))))"
proof -
  have skip: "skip_words 22 (join_with CHR '' '' ws) = (if 22 \<le> length ws then Some (words_text (drop 22 ws)) else None)"
    using skip_words_blank [of 21 "join_with CHR '' '' ws"] words_text_join [OF assms(2)] skip_words_text [OF assms(1), of 22]
    by (simp del: skip_words.simps)
  have few: "process_mem_usage (Some (join_with CHR '' '' ws)) page_size = Inl Uninitialised_Read" if "length ws \<le> 22"
    using skip that read_number_end by (auto simp: process_mem_usage_def)
  have enough: "process_mem_usage (Some (join_with CHR '' '' ws)) page_size =
      Inr (of_int (int vsize) / 1024, of_int (int rss * (page_size div 1024)))"
    if l: "24 \<le> length ws" and w: "ws ! 22 = show_nat vsize" "ws ! 23 = show_nat rss"
      and b: "int vsize \<le> ULONG_MAX" "int rss \<le> LONG_MAX_64" "int rss * (page_size div 1024) \<le> LONG_MAX_64" for vsize rss
  proof -
    have "drop 22 ws = ws ! 22 # ws ! 23 # drop 24 ws" using l by (simp add: Cons_nth_drop_Suc [symmetric])
    then have d: "words_text (drop 22 ws) = words_text (show_nat vsize # show_nat rss # drop 24 ws)" using w by simp
    have v: "read_number False 0 ULONG_MAX (words_text (drop 22 ws)) = Some (int vsize, words_text (show_nat rss # drop 24 ws))"
      unfolding d using b(1) by (intro read_number_text) simp_all
    have r: "read_number True LONG_MIN_64 LONG_MAX_64 (words_text (show_nat rss # drop 24 ws)) = Some (int rss, words_text (drop 24 ws))"
      using b(2) by (intro read_number_text) (simp_all add: LONG_MIN_64_def)
    have page: "page_size sdiv 1024 = page_size div 1024" using assms(3) by (intro sdiv_nonneg) simp_all
    have "0 \<le> int rss * (page_size div 1024)" using assms(3) by (simp add: pos_imp_zdiv_nonneg_iff)
    then have "\<not> int rss * (page_size div 1024) < LONG_MIN_64" by (simp add: LONG_MIN_64_def)
    then show ?thesis using skip l v r b(3) page by (simp add: process_mem_usage_def Let_def)
  qed
  have "process_mem_usage None page_size = Inl Uninitialised_Read" by (simp add: process_mem_usage_def)
  with few enough show ?thesis by blast
qed

lemma memory_usage_words_witness:
  "process_mem_usage (Some (join_with CHR '' '' (replicate 22 ''x'' @ [''2048'', ''3'']))) 4096 = Inr (2, 12)"
proof -
  define ws where "ws = replicate 22 ''x'' @ [''2048'', ''3'']"
  have n: "''2048'' = show_nat 2048" "''3'' = show_nat 3" by code_simp+
  have ws: "\<forall>w \<in> set ws. word_ok w" "ws \<noteq> []" "length ws = 24" by (simp_all add: ws_def word_ok_def isspace_def)
  have "ws ! 22 = ''2048''" "ws ! 23 = ''3''" by (simp_all add: ws_def nth_append)
  then have nth: "ws ! 22 = show_nat 2048" "ws ! 23 = show_nat 3" unfolding n by simp_all
  have b: "int 2048 \<le> ULONG_MAX" "int 3 \<le> LONG_MAX_64" "int 3 * (4096 div 1024) \<le> LONG_MAX_64" "24 \<le> length ws"
    by (simp_all add: ULONG_MAX_def LONG_MAX_64_def ws(3))
  have "process_mem_usage (Some (join_with CHR '' '' ws)) 4096 = Inr (of_int (int 2048) / 1024, of_int (int 3 * (4096 div 1024)))"
  proof -
    have "(0 :: int) \<le> 4096" by simp
    from memory_usage_words [OF ws(1,2) this] nth b show ?thesis by blast
  qed
  then show ?thesis by (simp add: ws_def)
qed

end
