(* ===== verification/Program.thy ===== *)
theory Program
  imports Whole_Server Log_Threads Format
begin

text \<open>
  The program as it starts: the constructor of \<open>Acceptor\<close> (\<open>src/acceptor.cpp\<close>), the setters of the callbacks, \<open>main\<close>
  (\<open>src/main.cpp\<close>), the threads of the workers with \<open>start\<close> and \<open>stop\<close> (\<open>src/worker.cpp\<close>, \<open>src/tcpServer.cpp\<close>), the periodic
  work with the memory figures of \<open>process_mem_usage\<close>, and \<open>TcpConnection::log\<close>. What the system calls return is an argument.
\<close>

section \<open>The acceptor\<close>

text \<open>What \<open>socket\<close>, the two \<open>fcntl\<close>s, \<open>bind\<close>, \<open>listen\<close> and \<open>epoll_create\<close> return.\<close>

record acceptor_env =
  r_socket :: int
  r_getfl :: int
  r_setfl :: int
  r_bind :: int
  r_listen :: int
  r_epoll :: int

text \<open>\<open>bound\<close> is the address the listening socket is bound to, \<open>epoll_watch\<close> what epoll watches.\<close>

record 's acceptor =
  acc_port :: int
  listenfd :: int
  epollfd :: int
  bound :: "sockaddr_in option"
  epoll_watch :: "(int \<times> 32 word) list"
  acc_connectionCallback :: "(accept_env \<Rightarrow> int \<Rightarrow> sockaddr_in \<Rightarrow> 's \<Rightarrow> 's res) option"
  acc_serverCron :: "(tm \<Rightarrow> rat \<Rightarrow> rat \<Rightarrow> 's \<Rightarrow> 's res) option"

definition AF_INET :: "16 word" where "AF_INET = 2"
definition INADDR_ANY :: "64 word" where "INADDR_ANY = 0"

text \<open>A failing \<open>bind\<close> is only printed, and \<open>setsockopt\<close> and \<open>epoll_ctl\<close> are not checked.\<close>

definition Acceptor_new :: "int \<Rightarrow> acceptor_env \<Rightarrow> 's acceptor res" where
  "Acceptor_new port e =
     (if \<not> r_socket e \<ge> 0 then Inl Assert_Failed
      else if \<not> r_getfl e \<ge> 0 then Inl Assert_Failed
      else if \<not> r_setfl e \<ge> 0 then Inl Assert_Failed
      else let serverAddr = InetSockAddr AF_INET INADDR_ANY (word_of_int port);
               b = (if r_bind e \<noteq> 0 then None else Some serverAddr)
           in if \<not> r_listen e = 0 then Inl Assert_Failed
              else if \<not> r_epoll e \<ge> 0 then Inl Assert_Failed
              else Inr \<lparr>acc_port = port, listenfd = r_socket e, epollfd = r_epoll e, bound = b,
                     epoll_watch = [(r_socket e, EPOLLIN OR EPOLLET)], acc_connectionCallback = None, acc_serverCron = None\<rparr>)"

definition acceptor_setConnectionCallback ::
    "(accept_env \<Rightarrow> int \<Rightarrow> sockaddr_in \<Rightarrow> 's \<Rightarrow> 's res) \<Rightarrow> 's acceptor \<Rightarrow> 's acceptor" where
  "acceptor_setConnectionCallback cb a = a\<lparr>acc_connectionCallback := Some cb\<rparr>"

definition acceptor_setServerCron :: "(tm \<Rightarrow> rat \<Rightarrow> rat \<Rightarrow> 's \<Rightarrow> 's res) \<Rightarrow> 's acceptor \<Rightarrow> 's acceptor" where
  "acceptor_setServerCron sc a = a\<lparr>acc_serverCron := Some sc\<rparr>"

section \<open>The callbacks of the user\<close>



section \<open>The threads of the workers\<close>

definition Worker_thread :: thread where "Worker_thread = Thread_new ''worker''"

definition Worker_start :: "nat \<Rightarrow> thread \<times> os_threads \<Rightarrow> thread \<times> os_threads" where
  "Worker_start t to = thread_start t to"

definition Worker_stop :: "thread \<Rightarrow> os_threads \<Rightarrow> os_threads option res" where
  "Worker_stop th os = thread_join th os"

text \<open>The loop of \<open>TcpServer::start\<close> that starts them; \<open>ts\<close> are the threads the system makes.\<close>

fun start_threads :: "nat list \<Rightarrow> os_threads \<Rightarrow> thread list \<times> os_threads" where
  "start_threads [] os = ([], os)"
| "start_threads (t # ts) os =
     (let (th, os1) = Worker_start t (Worker_thread, os); (ths, os2) = start_threads ts os1 in (th # ths, os2))"

text \<open>\<open>TcpServer::stop\<close>.\<close>

fun server_stop :: "thread list \<Rightarrow> os_threads \<Rightarrow> os_threads option res" where
  "server_stop [] os = Inr (Some os)"
| "server_stop (th # ths) os = bind_res (Worker_stop th os) (\<lambda>r. case r of None \<Rightarrow> Inr None | Some os1 \<Rightarrow> server_stop ths os1)"

section \<open>main\<close>

text \<open>The constructor of \<open>TcpServer\<close>, whole: the acceptor, the server, and the callbacks of the acceptor.\<close>

definition make_server :: "(32 word \<Rightarrow> 64 word) \<Rightarrow> int \<Rightarrow> acceptor_env \<Rightarrow> string option \<Rightarrow> tm \<Rightarrow> (server acceptor \<times> server) res" where
  "make_server iphash port e file now =
     bind_res (Acceptor_new port e) (\<lambda>a.
     bind_res (TcpServer_new file now) (\<lambda>s.
       Inr (acceptor_setServerCron serverCron (acceptor_setConnectionCallback (newConnection iphash) a), s)))"



section \<open>The work of the running program\<close>

text \<open>One round of \<open>Acceptor::start\<close>, through the callbacks.\<close>

fun accept_calls :: "'s acceptor \<Rightarrow> accept_result list \<Rightarrow> 's \<Rightarrow> ('s \<times> accept_result list) res" where
  "accept_calls a [] s = Inr (s, [])"
| "accept_calls a (AcceptError er # rs) s =
     (if er = EAGAIN \<or> er = ECONNABORTED \<or> er = EPROTO \<or> er = EINTR then Inr (s, rs) else Inl Assert_Failed)"
| "accept_calls a (Accepted fd peer env # rs) s = (case acc_connectionCallback a of
       None \<Rightarrow> Inl Bad_Function_Call
     | Some cb \<Rightarrow> bind_res (cb env fd (InetSockAddr_of peer) s) (accept_calls a rs))"

definition acceptor_calls :: "'s acceptor \<Rightarrow> int \<Rightarrow> accept_result list \<Rightarrow> tm \<Rightarrow> rat \<Rightarrow> rat \<Rightarrow> 's \<Rightarrow> ('s \<times> accept_result list) res" where
  "acceptor_calls a nfds rs now vm_usage resident_set s =
     bind_res (if nfds = 1 then accept_calls a rs s else Inr (s, rs)) (\<lambda>(s1, rest). case acc_serverCron a of
         None \<Rightarrow> Inl Bad_Function_Call
       | Some sc \<Rightarrow> bind_res (sc now vm_usage resident_set s1) (\<lambda>s2. Inr (s2, rest)))"

text \<open>\<open>serverCron\<close> with what \<open>checkMaxMemory\<close> asks the system for.\<close>

definition serverCron_proc :: "tm \<Rightarrow> string option \<Rightarrow> int \<Rightarrow> server \<Rightarrow> server res" where
  "serverCron_proc now stat page_size s =
     bind_res (updateTime now) (\<lambda>ts.
     bind_res (process_mem_usage stat page_size) (\<lambda>(vm_usage, resident_set).
       checkMaxMemory vm_usage resident_set (s\<lparr>timeString := ts\<rparr>)))"

text \<open>\<open>TcpConnection::log\<close>: the line that goes to the logger.\<close>

definition TcpConnection_log :: "thread \<Rightarrow> string \<Rightarrow> connection \<Rightarrow> string \<Rightarrow> string \<Rightarrow> string" where
  "TcpConnection_log th time c level msg =
     server_log_line level (of_nat (Thread_getTid th)) (Thread_getName th) time (getIP (peerAddr c)) (getPort (peerAddr c)) msg"

section \<open>Facts\<close>


lemma accept_calls_newConnection:
  "acc_connectionCallback a = Some (newConnection iphash) \<Longrightarrow> accept_calls a rs s = accept_loop iphash rs s"
proof (induction rs arbitrary: s)
  case (Cons r rs)
  then show ?case by (cases r) (auto simp: InetSockAddr_of_def intro!: arg_cong [where f = "bind_res m" for m] ext)
qed simp

text \<open>The acceptor of a server does what the theory \<open>Server\<close> has as its round.\<close>

lemma acceptor_calls_round:
  assumes "make_server iphash port e file now = Inr (a, s0)"
  shows "acceptor_calls a nfds rs now' vm r s = acceptor_round iphash nfds rs now' vm r s"
proof -
  from assms have "acc_connectionCallback a = Some (newConnection iphash)" "acc_serverCron a = Some serverCron"
    by (auto simp: make_server_def bind_res_eq_Inr acceptor_setServerCron_def acceptor_setConnectionCallback_def)
  then show ?thesis by (simp add: acceptor_calls_def acceptor_round_def accept_calls_newConnection)
qed

text \<open>And that round is a run of the main thread in \<open>Whole_Server\<close>: one step for each call of \<open>accept\<close>, then the periodic work.\<close>

fun sys_run :: "(64 word \<Rightarrow> 64 word) \<Rightarrow> (32 word \<Rightarrow> 64 word) \<Rightarrow> callbacks \<Rightarrow> action list \<Rightarrow> system \<Rightarrow> system option res" where
  "sys_run hf iphash cbs [] S = Inr (Some S)"
| "sys_run hf iphash cbs (a # as) S = bind_env (sys_step hf iphash cbs a S) (sys_run hf iphash cbs as)"

fun connects :: "accept_result list \<Rightarrow> action list" where
  "connects (Accepted fd peer e # rs) = Connect e fd peer # connects rs"
| "connects (AcceptError er # rs) = [Accept_Error er]"
| "connects [] = []"

lemma sys_run_append: "sys_run hf iphash cbs (as @ bs) S = bind_env (sys_run hf iphash cbs as S) (sys_run hf iphash cbs bs)"
  by (induction as arbitrary: S) (auto simp: bind_env_assoc intro!: arg_cong [where f = "bind_env m" for m] ext)

lemma accept_loop_as_steps:
  "accept_loop iphash rs (srv S) = Inr (s', rest) \<Longrightarrow> sys_run hf iphash cbs (connects rs) S = Inr (Some (S\<lparr>srv := s'\<rparr>))"
proof (induction rs arbitrary: S)
  case (Cons r rs)
  show ?case
  proof (cases r)
    case (Accepted fd peer e)
    then obtain s1 where s1: "newConnection iphash e fd peer (srv S) = Inr s1" "accept_loop iphash rs s1 = Inr (s', rest)"
      using Cons.prems by (auto simp: bind_res_eq_Inr)
    then show ?thesis using Accepted Cons.IH [of "S\<lparr>srv := s1\<rparr>"] by simp
  next
    case (AcceptError e)
    then show ?thesis using Cons.prems by (auto split: if_splits)
  qed
qed simp

lemma acceptor_round_as_steps:
  assumes "acceptor_round iphash nfds rs now vm r (srv S) = Inr (s', rest)"
  shows "sys_run hf iphash cbs ((if nfds = 1 then connects rs else []) @ [Cron now vm r]) S = Inr (Some (S\<lparr>srv := s'\<rparr>))"
proof -
  obtain s1 rest' where "(if nfds = 1 then accept_loop iphash rs (srv S) else Inr (srv S, rs)) = Inr (s1, rest')"
    and c: "serverCron now vm r s1 = Inr s'"
    using assms by (auto simp: acceptor_round_def bind_res_eq_Inr)
  then have "sys_run hf iphash cbs (if nfds = 1 then connects rs else []) S = Inr (Some (S\<lparr>srv := s1\<rparr>))"
    using accept_loop_as_steps [of iphash rs S s1 rest' hf cbs] by (cases "nfds = 1") auto
  then show ?thesis using c by (simp add: sys_run_append)
qed

text \<open>The worker threads never return, so \<open>stop\<close> does not either: it waits for the first of them.\<close>

lemma start_threads_live:
  "start_threads ts os = (ths, os1) \<Longrightarrow> set (live_threads os1) = set (live_threads os) \<union> set ts \<and>
     ended_threads os1 = ended_threads os \<and> map thread_id ths = ts"
proof (induction ts arbitrary: os ths os1)
  case (Cons t ts)
  obtain th osa where w: "Worker_start t (Worker_thread, os) = (th, osa)" by (rule prod.exhaust)
  obtain thsa osb where r: "start_threads ts osa = (thsa, osb)" by (rule prod.exhaust)
  have "ths = th # thsa" "os1 = osb" using Cons.prems w r by simp_all
  moreover have "live_threads osa = live_threads os @ [t]" "ended_threads osa = ended_threads os" "thread_id th = t"
    using w by (auto simp: Worker_start_def thread_start_def)
  ultimately show ?case using Cons.IH [OF r] by simp
qed simp

lemma server_stop_blocks:
  assumes "ts \<noteq> []" "start_threads ts os = (ths, os1)" "set ts \<inter> set (ended_threads os) = {}"
  shows "server_stop ths os1 = Inr None"
proof -
  have l: "set (live_threads os1) = set (live_threads os) \<union> set ts" "ended_threads os1 = ended_threads os" "map thread_id ths = ts"
    using start_threads_live [OF assms(2)] by simp_all
  then obtain th ths' where "ths = th # ths'" "thread_id th \<in> set ts" using assms(1) by (cases ths) auto
  then show ?thesis using l(1,2) assms(3) by (auto simp: Worker_stop_def thread_join_def)
qed

lemma log_shows_peer:
  "TcpConnection_log th time c level msg =
     c_str level @ '' '' @ show_nat (unat (of_nat (thread_id th) :: 32 word)) @ '' '' @ c_str (thread_name th) @ '' '' @ c_str time @
     '' '' @ getIpAsString (peerAddr c) @ '':'' @ show_nat (unat (getPort (peerAddr c))) @ '' '' @ c_str msg"
  by (simp add: TcpConnection_log_def Thread_getTid_def Thread_getName_def log_line_shows_address)

section \<open>Properties\<close>





end
