(* ===== verification/Log_Files.thy ===== *)
theory Log_Files
  imports Async_Log
begin

text \<open>
  The files behind the log: class \<open>LogFile\<close> of \<open>src/asyncLogging.cpp\<close> over the C library's streams, and the log thread of
  \<open>Async_Log\<close> with the calls it makes on its \<open>LogFile\<close>. \<open>Async_Log\<close> has the text written to each file as a value; here
  the disk is a map from file names to contents, with whatever was there before the start, \<open>fopen\<close> may fail, and bytes
  stay in the buffer of the stream until the library writes them. It is shown that what \<open>Async_Log\<close> says of the files is
  what the run has added to the disk.
\<close>

section \<open>Streams of the C library\<close>

type_synonym disk = "string \<rightharpoonup> string"

record stream =
  stream_name :: string
  stream_buffer :: string

record log_out =
  log_file :: "stream option"
  log_disk :: disk

definition content :: "disk \<Rightarrow> string \<Rightarrow> string" where
  "content d n = (case d n of None \<Rightarrow> [] | Some t \<Rightarrow> t)"

text \<open>\<open>fopen(name, "a")\<close>: a file that exists keeps its contents. \<open>can_open\<close> says whether the system lets it be opened.\<close>

definition fopen_append :: "bool \<Rightarrow> string \<Rightarrow> disk \<Rightarrow> stream option \<times> disk" where
  "fopen_append can_open n d =
     (if can_open then (Some \<lparr>stream_name = n, stream_buffer = []\<rparr>, d(n \<mapsto> content d n)) else (None, d))"

text \<open>The library appends the first \<open>k\<close> bytes of the buffer to the file. A file that somebody has removed gets nothing.\<close>

definition write_out :: "nat \<Rightarrow> stream \<Rightarrow> disk \<Rightarrow> stream \<times> disk" where
  "write_out k f d =
     (f\<lparr>stream_buffer := drop k (stream_buffer f)\<rparr>,
      case d (stream_name f) of None \<Rightarrow> d | Some t \<Rightarrow> d(stream_name f \<mapsto> t @ take k (stream_buffer f)))"

text \<open>\<open>fwrite\<close>; the library may write any number \<open>k\<close> of the bytes it has now. A null stream is undefined behaviour here,
  but not for \<open>fflush\<close>, which then flushes the open streams of the process: there is no other. There is room on the disk: the
  program ignores what \<open>fwrite\<close> and \<open>fflush\<close> return, and what a full disk loses is not modelled.\<close>

definition fwrite :: "nat \<Rightarrow> string \<Rightarrow> stream option \<Rightarrow> disk \<Rightarrow> (stream \<times> disk) res" where
  "fwrite k bytes fp d = (case fp of None \<Rightarrow> Inl Null_Deref
     | Some f \<Rightarrow> Inr (write_out k (f\<lparr>stream_buffer := stream_buffer f @ bytes\<rparr>) d))"

definition fflush :: "stream option \<Rightarrow> disk \<Rightarrow> stream option \<times> disk" where
  "fflush fp d = (case fp of None \<Rightarrow> (None, d)
     | Some f \<Rightarrow> let (f1, d1) = write_out (length (stream_buffer f)) f d in (Some f1, d1))"

definition fclose :: "stream \<Rightarrow> disk \<Rightarrow> disk" where
  "fclose f d = snd (write_out (length (stream_buffer f)) f d)"

section \<open>LogFile\<close>

definition LogFile_new :: "bool \<Rightarrow> string \<Rightarrow> disk \<Rightarrow> log_out" where
  "LogFile_new can_open name d = (let (fp, d1) = fopen_append can_open name d in \<lparr>log_file = fp, log_disk = d1\<rparr>)"

definition LogFile_delete :: "log_out \<Rightarrow> disk" where
  "LogFile_delete lf = (case log_file lf of None \<Rightarrow> log_disk lf | Some f \<Rightarrow> fclose f (log_disk lf))"

definition LogFile_assign :: "bool \<Rightarrow> string \<Rightarrow> log_out \<Rightarrow> log_out" where
  "LogFile_assign can_open name lf =
     (let d = (case log_file lf of None \<Rightarrow> log_disk lf | Some f \<Rightarrow> fclose f (log_disk lf));
          (fp, d1) = fopen_append can_open name d
      in \<lparr>log_file = fp, log_disk = d1\<rparr>)"

definition LogFile_write :: "nat \<Rightarrow> string \<Rightarrow> log_out \<Rightarrow> log_out res" where
  "LogFile_write k line lf =
     bind_res (fwrite k line (log_file lf) (log_disk lf)) (\<lambda>(f, d). Inr \<lparr>log_file = Some f, log_disk = d\<rparr>)"

definition LogFile_writeLine :: "nat \<Rightarrow> string \<Rightarrow> log_out \<Rightarrow> log_out res" where
  "LogFile_writeLine k data lf =
     (if data = [] then Inl Out_Of_Bounds
      else if last data \<noteq> NEWLINE then LogFile_write k (data @ [NEWLINE]) lf
      else LogFile_write k data lf)"

definition LogFile_flush :: "log_out \<Rightarrow> log_out" where
  "LogFile_flush lf = (let (fp, d) = fflush (log_file lf) (log_disk lf) in \<lparr>log_file = fp, log_disk = d\<rparr>)"

section \<open>The log thread and its file\<close>

text \<open>The loops that write the lines of a buffer; \<open>ks\<close> are the library's choices, 0 when the list is over.\<close>

fun write_lines :: "nat list \<Rightarrow> string list \<Rightarrow> log_out \<Rightarrow> log_out res" where
  "write_lines ks [] lf = Inr lf"
| "write_lines ks (l # ls) lf =
     bind_res (LogFile_writeLine (case ks of [] \<Rightarrow> 0 | k # _ \<Rightarrow> k) l lf) (write_lines (tl ks) ls)"

text \<open>What a step of \<open>threadFunction\<close> does with \<open>logfile\<close>. After the last lines its destructor runs.\<close>

definition file_step :: "log_conf \<Rightarrow> bool \<Rightarrow> nat list \<Rightarrow> log_state \<Rightarrow> log_out \<Rightarrow> log_out res" where
  "file_step conf can_open ks s lf = (case log_pc s of
       Starting \<Rightarrow> Inr (LogFile_new can_open (getNextLogFileName conf s) (log_disk lf))
     | Writing \<Rightarrow> bind_res (write_lines ks (nextBuffer s) lf) (\<lambda>lf1. Inr (LogFile_flush lf1))
     | Opening \<Rightarrow> Inr (LogFile_assign can_open (getNextLogFileName conf s) lf)
     | Finishing \<Rightarrow>
         bind_res (if currentBuffer s \<noteq> [] then bind_res (write_lines ks (currentBuffer s) lf) (\<lambda>lf1. Inr (LogFile_flush lf1))
                   else Inr lf) (\<lambda>lf1. Inr \<lparr>log_file = None, log_disk = LogFile_delete lf1\<rparr>)
     | _ \<Rightarrow> Inr lf)"

text \<open>Runs of the log with its disk, which holds \<open>d\<close> at the start. The steps of the other threads are those of \<open>Async_Log\<close>.\<close>

inductive disk_step :: "log_conf \<Rightarrow> log_state \<times> log_out \<Rightarrow> log_state \<times> log_out \<Rightarrow> bool" for conf where
  check: "disk_step conf (s, lf) (append_check l s, lf)"
| push: "disk_step conf (s, lf) (append_push i s, lf)"
| stop: "disk_step conf (s, lf) (log_stop s, lf)"
| thread: "file_step conf can_open ks s lf = Inr lf' \<Longrightarrow> disk_step conf (s, lf) (thread_step conf today s, lf')"

inductive disk_reachable :: "log_conf \<Rightarrow> disk \<Rightarrow> log_state \<times> log_out \<Rightarrow> bool" for conf d where
  init: "disk_reachable conf d (log_start conf, \<lparr>log_file = None, log_disk = d\<rparr>)"
| step: "disk_reachable conf d sl \<Longrightarrow> disk_step conf sl sl' \<Longrightarrow> disk_reachable conf d sl'"

inductive_cases disk_stepE: "disk_step conf (s, lf) sl'"

section \<open>Facts\<close>

lemma content_upd [simp]: "content (d(n \<mapsto> t)) m = (if m = n then t else content d m)"
  by (simp add: content_def)

text \<open>The stream is the one of the file \<open>n\<close>, and nothing but that file differs from the disk \<open>d\<close>: it has \<open>t\<close> more, of which
  the stream still holds the last part.\<close>

definition written :: "string \<Rightarrow> disk \<Rightarrow> string \<Rightarrow> log_out \<Rightarrow> bool" where
  "written n d t lf \<longleftrightarrow> (\<exists>f u. log_file lf = Some f \<and> stream_name f = n \<and> log_disk lf = d(n \<mapsto> content d n @ u) \<and>
     u @ stream_buffer f = t)"

lemma written_write:
  assumes "written n d t lf"
  shows "\<exists>lf'. LogFile_write k line lf = Inr lf' \<and> written n d (t @ line) lf'"
proof -
  obtain f u where f: "log_file lf = Some f" "stream_name f = n" "log_disk lf = d(n \<mapsto> content d n @ u)" "u @ stream_buffer f = t"
    using assms by (auto simp: written_def)
  let ?b = "stream_buffer f @ line"
  have "u @ take k ?b @ drop k ?b = t @ line" using f(4) by (metis append.assoc append_take_drop_id)
  then show ?thesis using f(1-3)
    by (auto simp: LogFile_write_def fwrite_def write_out_def written_def simp del: take_append drop_append
        intro!: exI [of _ "u @ take k ?b"])
qed

lemma LogFile_writeLine_eq:
  "LogFile_writeLine k l lf = (if l = [] then Inl Out_Of_Bounds else LogFile_write k (line_text l) lf)"
  by (simp add: LogFile_writeLine_def line_text_def)

lemma written_lines:
  assumes "written n d t lf" "[] \<notin> set ls"
  shows "\<exists>lf'. write_lines ks ls lf = Inr lf' \<and> written n d (t @ texts ls) lf'"
  using assms
proof (induction ls arbitrary: ks t lf)
  case Nil
  then show ?case by (simp add: texts_def)
next
  case (Cons l ls)
  obtain lf1 where lf1: "LogFile_writeLine (case ks of [] \<Rightarrow> 0 | k # _ \<Rightarrow> k) l lf = Inr lf1" "written n d (t @ line_text l) lf1"
    using written_write [OF Cons.prems(1)] Cons.prems(2) by (metis LogFile_writeLine_eq list.set_intros(1))
  from Cons.IH [OF lf1(2), of "tl ks"] Cons.prems(2) lf1(1) show ?case by (auto simp: texts_def)
qed

lemma written_flush:
  assumes "written n d t lf"
  shows "\<exists>f. LogFile_flush lf = \<lparr>log_file = Some f, log_disk = d(n \<mapsto> content d n @ t)\<rparr> \<and> stream_name f = n \<and>
    stream_buffer f = []"
  using assms by (auto simp: written_def LogFile_flush_def fflush_def write_out_def)

lemma write_lines_Inr: "write_lines ks ls lf = Inr lf' \<Longrightarrow> [] \<notin> set ls \<and> (ls \<noteq> [] \<longrightarrow> log_file lf \<noteq> None)"
proof (induction ls arbitrary: ks lf)
  case (Cons l ls)
  then obtain lf1 where "LogFile_writeLine (case ks of [] \<Rightarrow> 0 | k # _ \<Rightarrow> k) l lf = Inr lf1" "write_lines (tl ks) ls lf1 = Inr lf'"
    by (auto simp: bind_res_eq_Inr)
  with Cons.IH [of "tl ks" lf1] show ?case
    by (auto simp: LogFile_writeLine_eq LogFile_write_def fwrite_def split: if_splits option.splits)
qed simp

text \<open>The disk and the files of \<open>Async_Log\<close>, between two batches of lines.\<close>

definition files_inv :: "disk \<Rightarrow> (string \<times> string) list \<Rightarrow> log_out \<Rightarrow> bool" where
  "files_inv d fs lf \<longleftrightarrow> (\<forall>(n, t) \<in> set fs. content (log_disk lf) n = content d n @ t) \<and>
     (\<forall>n. n \<notin> fst ` set fs \<longrightarrow> log_disk lf n = d n) \<and>
     (\<forall>f. log_file lf = Some f \<longrightarrow> stream_buffer f = [] \<and> fs \<noteq> [] \<and> stream_name f = fst (last fs) \<and>
        log_disk lf (stream_name f) \<noteq> None)"

lemma LogFile_delete_flushed: "files_inv d fs lf \<Longrightarrow> LogFile_delete lf = log_disk lf"
  by (auto simp: files_inv_def LogFile_delete_def fclose_def write_out_def split: option.splits)

lemma flush_flushed:
  assumes "files_inv d fs lf"
  shows "LogFile_flush lf = lf"
proof (cases "log_file lf")
  case None
  then show ?thesis by (simp add: LogFile_flush_def fflush_def)
next
  case (Some f)
  then obtain t where "stream_buffer f = []" "log_disk lf (stream_name f) = Some t" using assms by (auto simp: files_inv_def)
  moreover have "f\<lparr>stream_buffer := []\<rparr> = f" using calculation(1) by (cases f) simp
  ultimately show ?thesis using Some
    by (cases lf) (simp add: LogFile_flush_def fflush_def write_out_def fun_upd_idem)
qed

lemma files_inv_open:
  assumes inv: "files_inv d fs lf" and n: "n \<notin> fst ` set fs"
  shows "files_inv d (fs @ [(n, [])]) (LogFile_assign can_open n lf)"
proof -
  have "LogFile_assign can_open n lf = LogFile_new can_open n (log_disk lf)"
    using LogFile_delete_flushed [OF inv] unfolding LogFile_assign_def LogFile_new_def LogFile_delete_def by simp
  moreover have "log_disk lf n = d n" using inv n by (simp add: files_inv_def)
  then have "content (log_disk lf) n = content d n" by (simp add: content_def)
  ultimately show ?thesis using inv n
    by (auto simp: files_inv_def LogFile_new_def fopen_append_def split: if_splits) force+
qed

lemma files_inv_batch:
  assumes inv: "files_inv d (files s) lf" and names: "distinct (map fst (files s))"
    and r: "bind_res (write_lines ks ls lf) (\<lambda>lf1. Inr (LogFile_flush lf1)) = Inr lf'"
  shows "writeLines ls = Inr (texts ls) \<and> files_inv d (files (add_text (texts ls) s)) lf'"
proof -
  from r obtain lf1 where w: "write_lines ks ls lf = Inr lf1" "lf' = LogFile_flush lf1" by (auto simp: bind_res_eq_Inr)
  note ne = write_lines_Inr [OF w(1)]
  show ?thesis
  proof (cases "log_file lf")
    case None
    then have "ls = []" using ne by simp
    then have "lf1 = lf" "lf' = lf" using w None by (simp_all add: LogFile_flush_def fflush_def)
    moreover have "files (add_text [] s) = files s" by (simp add: add_text_def)
    ultimately show ?thesis using \<open>ls = []\<close> inv by simp
  next
    case (Some f)
    then have f: "stream_buffer f = []" "files s \<noteq> []" "stream_name f = fst (last (files s))" "log_disk lf (stream_name f) \<noteq> None"
      using inv unfolding files_inv_def by blast+
    obtain fs n t where fs: "files s = fs @ [(n, t)]" using f(2) by (metis rev_exhaust surj_pair)
    have "written n (log_disk lf) [] lf" using Some f fs by (auto simp: written_def content_def fun_upd_idem)
    from written_lines [OF this, of ls ks] ne w(1) have "written n (log_disk lf) (texts ls) lf1" by auto
    from written_flush [OF this] obtain g where
      g: "lf' = \<lparr>log_file = Some g, log_disk = (log_disk lf)(n \<mapsto> content (log_disk lf) n @ texts ls)\<rparr>" "stream_name g = n" "stream_buffer g = []"
      using w(2) by blast
    have "files (add_text (texts ls) s) = fs @ [(n, t @ texts ls)]" using fs by (simp add: add_text_def)
    moreover have "n \<notin> fst ` set fs" using names fs by simp
    moreover have "content (log_disk lf) m = content d m @ u" if "(m, u) \<in> set (fs @ [(n, t)])" for m u
      using inv fs that by (auto simp: files_inv_def)
    moreover have "log_disk lf m = d m" if "m \<notin> insert n (fst ` set fs)" for m
      using inv fs that by (auto simp: files_inv_def)
    ultimately have "files_inv d (files (add_text (texts ls) s)) lf'" unfolding files_inv_def g(1)
      using g(2,3) by (auto simp: image_iff)
    then show ?thesis using writeLines_ok ne by simp
  qed
qed

lemma show_nat_inj: "show_nat m = show_nat n \<Longrightarrow> m = n"
  by (metis dec_val_show_nat of_nat_eq_iff)

lemma log_names_distinct:
  assumes "log_inv conf s"
  shows "distinct (map fst (files s))" "getNextLogFileName conf s \<notin> fst ` set (files s)"
proof -
  let ?f = "\<lambda>i. logfilename conf @ ''_'' @ show_nat i"
  have fs: "map fst (files s) = map ?f [0..<suffix s]" using assms by (simp add: log_inv_def)
  have inj: "inj ?f" by (auto intro!: injI dest: show_nat_inj)
  show "distinct (map fst (files s))"
    unfolding fs distinct_map using inj_on_subset [OF inj subset_UNIV] distinct_upt by blast
  have "fst ` set (files s) = ?f ` {0..<suffix s}" using fs by (metis list.set_map set_upt)
  then show "getNextLogFileName conf s \<notin> fst ` set (files s)"
    using inj by (auto simp: getNextLogFileName_def dest: show_nat_inj)
qed

lemma disk_step_log:
  assumes "disk_step conf (s, lf) (s', lf')"
  shows "log_step conf s s'"
  using assms by (cases rule: disk_stepE) (auto intro: log_step.intros)

lemma disk_reachable_log: "disk_reachable conf d (s, lf) \<Longrightarrow> log_reachable conf s"
proof (induction "(s, lf)" arbitrary: s lf rule: disk_reachable.induct)
  case (step sl s' lf')
  then show ?case by (cases sl) (auto dest: disk_step_log intro: log_reachable.step)
qed (auto intro: log_reachable.init)

definition disk_inv :: "disk \<Rightarrow> log_state \<Rightarrow> log_out \<Rightarrow> bool" where
  "disk_inv d s lf \<longleftrightarrow> files_inv d (files s) lf \<and> log_pc s \<noteq> Crashed \<and> (log_pc s = Starting \<longrightarrow> log_file lf = None)"

lemma disk_inv_thread:
  assumes inv: "disk_inv d s lf" and log: "log_inv conf s" and st: "file_step conf can_open ks s lf = Inr lf'"
  shows "disk_inv d (thread_step conf today s) lf'"
proof (cases "log_pc s")
  case Starting
  then have "lf' = LogFile_assign can_open (getNextLogFileName conf s) lf"
    using st inv by (simp add: file_step_def disk_inv_def LogFile_assign_def LogFile_new_def)
  with files_inv_open [OF _ log_names_distinct(2) [OF log]] inv Starting show ?thesis
    by (simp add: disk_inv_def thread_step_def open_next_def)
next
  case Writing
  then have "bind_res (write_lines ks (nextBuffer s) lf) (\<lambda>lf1. Inr (LogFile_flush lf1)) = Inr lf'"
    using st by (simp add: file_step_def)
  from files_inv_batch [OF _ log_names_distinct(1) [OF log] this] inv Writing show ?thesis
    by (simp add: disk_inv_def thread_step_def)
next
  case Opening
  with files_inv_open [OF _ log_names_distinct(2) [OF log], of d lf can_open] inv st show ?thesis
    by (auto simp: disk_inv_def thread_step_def open_next_def file_step_def)
next
  case Finishing
  have flush0: "LogFile_flush lf = lf"
    using inv flush_flushed by (auto simp: disk_inv_def)
  let ?b = "bind_res (write_lines ks (currentBuffer s) lf) (\<lambda>lf1. Inr (LogFile_flush lf1))"
  have "(if currentBuffer s \<noteq> [] then ?b else Inr lf) = ?b" using flush0 by simp
  then have "bind_res ?b (\<lambda>lf1. Inr \<lparr>log_file = None, log_disk = LogFile_delete lf1\<rparr>) = Inr lf'"
    using st Finishing unfolding file_step_def by simp
  then obtain lf1 where lf1: "?b = Inr lf1" "lf' = \<lparr>log_file = None, log_disk = LogFile_delete lf1\<rparr>"
    unfolding bind_res_eq_Inr by blast
  from files_inv_batch [OF _ log_names_distinct(1) [OF log] lf1(1)] inv
  have w: "writeLines (currentBuffer s) = Inr (texts (currentBuffer s))" "files_inv d (files (add_text (texts (currentBuffer s)) s)) lf1"
    by (auto simp: disk_inv_def)
  have "files_inv d (files (add_text (texts (currentBuffer s)) s)) lf'"
    using w(2) LogFile_delete_flushed [OF w(2)] lf1(2) by (simp add: files_inv_def)
  then show ?thesis using Finishing w(1) inv by (simp add: disk_inv_def thread_step_def)
qed (use inv st in \<open>auto simp: disk_inv_def thread_step_def file_step_def roll_def\<close>)

lemma disk_inv_reachable: "disk_reachable conf d (s, lf) \<Longrightarrow> disk_inv d s lf"
proof (induction "(s, lf)" arbitrary: s lf rule: disk_reachable.induct)
  case init
  then show ?case by (simp add: disk_inv_def log_start_def files_inv_def)
next
  case (step sl s' lf')
  obtain s lf where sl: "sl = (s, lf)" by (rule prod.exhaust)
  have log: "log_inv conf s" and inv: "disk_inv d s lf"
    using step sl log_inv_reachable disk_reachable_log by auto
  have same: "disk_inv d (append_check l s) lf" "disk_inv d (append_push i s) lf" "disk_inv d (log_stop s) lf" for l i
    using inv by (auto simp: disk_inv_def append_check_def append_push_def push_line_def log_stop_def)
  from step(3) [unfolded sl] show ?case
    by (cases rule: disk_stepE) (use same disk_inv_thread [OF inv log] in blast)+
qed

text \<open>A process that dies in the middle of a batch leaves a prefix of the lines on the disk, behind what was there.\<close>

lemma killed_in_batch:
  assumes "written n d [] lf" "[] \<notin> set ls"
  shows "\<exists>lf' t. write_lines ks (take j ls) lf = Inr lf' \<and> content (log_disk lf') n = content d n @ t \<and> (\<exists>u. texts ls = t @ u)"
proof -
  have "[] \<notin> set (take j ls)" using assms(2) in_set_takeD by fast
  from written_lines [OF assms(1) this, of ks] obtain lf' where lf': "write_lines ks (take j ls) lf = Inr lf'"
    "written n d (texts (take j ls)) lf'" by auto
  then obtain t u where t: "content (log_disk lf') n = content d n @ t" "t @ u = texts (take j ls)" by (auto simp: written_def)
  have "texts ls = texts (take j ls) @ texts (drop j ls)" using texts_append(1) [of "take j ls" "drop j ls"] by simp
  then have "texts ls = t @ (u @ texts (drop j ls))" using t(2) by simp
  then show ?thesis using lf'(1) t(1) by blast
qed

text \<open>One step of the log thread fails exactly when it has a line to write and the last \<open>fopen\<close> has failed, or an empty line.\<close>

lemma write_lines_Inl:
  "(\<exists>e. write_lines ks ls lf = Inl e) \<longleftrightarrow> ls \<noteq> [] \<and> (log_file lf = None \<or> [] \<in> set ls)"
proof (cases "ls \<noteq> [] \<and> (log_file lf = None \<or> [] \<in> set ls)")
  case True
  then show ?thesis using write_lines_Inr [of ks ls lf] by (cases "write_lines ks ls lf") auto
next
  case False
  have step: "\<exists>lf'. LogFile_writeLine k l lf1 = Inr lf' \<and> log_file lf' \<noteq> None" if "log_file lf1 \<noteq> None" "l \<noteq> []" for k l lf1
    using that by (auto simp: LogFile_writeLine_eq LogFile_write_def fwrite_def write_out_def)
  have "\<exists>lf'. write_lines ks ms lf1 = Inr lf'" if "log_file lf1 \<noteq> None" "[] \<notin> set ms" for ks ms lf1
    using that
  proof (induction ms arbitrary: ks lf1)
    case (Cons m ms)
    from step [OF Cons.prems(1), of m "case ks of [] \<Rightarrow> 0 | k # _ \<Rightarrow> k"] Cons.prems(2) obtain lf2 where
      "LogFile_writeLine (case ks of [] \<Rightarrow> 0 | k # _ \<Rightarrow> k) m lf1 = Inr lf2" "log_file lf2 \<noteq> None" by auto
    then show ?case using Cons.IH [of lf2 "tl ks"] Cons.prems(2) by simp
  qed simp
  from this [of lf ls ks] False show ?thesis by (cases "ls = []") auto
qed

text \<open>The log thread, and with it the process, fails in exactly two cases: there is a line to write and the last fopen has
  failed (its result is not tested, and fwrite gets a null pointer), or one of the lines to write is empty (back() of an
  empty string). In every other state its step on the file succeeds, whatever the library keeps in its buffer.\<close>

lemma file_step_fails:
  "(\<exists>e. file_step conf can_open ks s lf = Inl e) \<longleftrightarrow>
     (log_pc s = Writing \<and> nextBuffer s \<noteq> [] \<and> (log_file lf = None \<or> [] \<in> set (nextBuffer s)) \<or>
      log_pc s = Finishing \<and> currentBuffer s \<noteq> [] \<and> (log_file lf = None \<or> [] \<in> set (currentBuffer s)))"
proof -
  have "(\<exists>e. bind_res (write_lines ks ls lf) (\<lambda>lf1. Inr (LogFile_flush lf1)) = Inl e) \<longleftrightarrow>
      ls \<noteq> [] \<and> (log_file lf = None \<or> [] \<in> set ls)" for ls
    using write_lines_Inl [of ks ls lf] by (cases "write_lines ks ls lf") auto
  note b = this [of "nextBuffer s"] this [of "currentBuffer s"]
  show ?thesis
  proof (cases "log_pc s")
    case Finishing
    then show ?thesis using b(2)
      by (cases "bind_res (write_lines ks (currentBuffer s) lf) (\<lambda>lf1. Inr (LogFile_flush lf1))") (auto simp: file_step_def)
  qed (use b(1) in \<open>auto simp: file_step_def\<close>)
qed

text \<open>The files and the parts of the log in them.\<close>

lemma log_on_disk_parts:
  assumes "disk_reachable conf d (s, lf)"
  shows "\<exists>ts. length ts = suffix s \<and>
    (\<forall>i < suffix s. content (log_disk lf) (logfilename conf @ ''_'' @ show_nat i) =
       content d (logfilename conf @ ''_'' @ show_nat i) @ ts ! i) \<and>
    (\<forall>n. (\<forall>i < suffix s. n \<noteq> logfilename conf @ ''_'' @ show_nat i) \<longrightarrow> log_disk lf n = d n) \<and>
    (if log_pc s = Done then \<exists>n \<le> length (pushed s). concat ts = texts (take n (pushed s))
     else concat ts @ texts (nextBuffer s @ currentBuffer s) = texts (pushed s))"
proof -
  let ?n = "\<lambda>i. logfilename conf @ ''_'' @ show_nat i"
  have log: "log_inv conf s" by (rule log_inv_reachable [OF disk_reachable_log [OF assms]])
  have inv: "files_inv d (files s) lf" using disk_inv_reachable [OF assms] by (simp add: disk_inv_def)
  have fs: "map fst (files s) = map ?n [0..<suffix s]" using log by (simp add: log_inv_def)
  then have len: "length (files s) = suffix s" by (metis length_map diff_zero length_upt)
  have at: "files s ! i = (?n i, map snd (files s) ! i)" if "i < suffix s" for i
  proof -
    have "map fst (files s) ! i = ?n i" unfolding fs using that by simp
    then have "fst (files s ! i) = ?n i" using that len by simp
    then show ?thesis using that len by (simp add: prod_eq_iff)
  qed
  have "content (log_disk lf) (?n i) = content d (?n i) @ map snd (files s) ! i" if "i < suffix s" for i
    using inv at [OF that] that len nth_mem [of i "files s"] by (auto simp: files_inv_def)
  moreover have "log_disk lf n = d n" if "\<forall>i < suffix s. n \<noteq> ?n i" for n
  proof -
    have "fst ` set (files s) = ?n ` {0..<suffix s}" using fs by (metis list.set_map set_upt)
    then have "n \<notin> fst ` set (files s)" using that by auto
    then show ?thesis using inv by (simp add: files_inv_def)
  qed
  moreover have "if log_pc s = Done then \<exists>n \<le> length (pushed s). concat (map snd (files s)) = texts (take n (pushed s))
     else concat (map snd (files s)) @ texts (nextBuffer s @ currentBuffer s) = texts (pushed s)"
    using log by (auto simp: log_inv_def file_text_def)
  ultimately show ?thesis using len by (intro exI [of _ "map snd (files s)"]) simp
qed

section \<open>Properties\<close>

text \<open>C12: The log on the disk. In every reachable state each of the log files holds what was in the file of that name before the
  start, and behind it a part of the log; the parts, in the order of the numbers of the files, followed by the lines that
  wait in the two buffers, are exactly the lines pushed. After the thread has ended the parts are a prefix of it. No other
  file is changed.\<close>

theorem log_on_disk:
  assumes "disk_reachable conf d (s, lf)"
  shows "\<exists>ts. length ts = suffix s \<and>
    (\<forall>i < suffix s. content (log_disk lf) (logfilename conf @ ''_'' @ show_nat i) =
       content d (logfilename conf @ ''_'' @ show_nat i) @ ts ! i) \<and>
    (\<forall>n. (\<forall>i < suffix s. n \<noteq> logfilename conf @ ''_'' @ show_nat i) \<longrightarrow> log_disk lf n = d n) \<and>
    (if log_pc s = Done then \<exists>n \<le> length (pushed s). concat ts = texts (take n (pushed s))
     else concat ts @ texts (nextBuffer s @ currentBuffer s) = texts (pushed s))"
  by (rule log_on_disk_parts [OF assms])

text \<open>\<open>n\<close> steps of the log thread on a day, when all files can be opened.\<close>

fun disk_steps :: "nat \<Rightarrow> log_conf \<Rightarrow> string \<Rightarrow> log_state \<Rightarrow> log_out \<Rightarrow> log_out res" where
  "disk_steps 0 conf day s lf = Inr lf"
| "disk_steps (Suc n) conf day s lf =
     bind_res (file_step conf True [1] s lf) (disk_steps n conf day (thread_step conf day s))"

lemma disk_steps_reachable:
  "disk_reachable conf d (s, lf) \<Longrightarrow> disk_steps n conf day s lf = Inr lf' \<Longrightarrow> disk_reachable conf d (thread_steps n conf day s, lf')"
proof (induction n arbitrary: s lf)
  case (Suc n)
  then obtain lf1 where "file_step conf True [1] s lf = Inr lf1" "disk_steps n conf day (thread_step conf day s) lf1 = Inr lf'"
    by (auto simp: bind_res_eq_Inr)
  moreover have "disk_reachable conf d (thread_step conf day s, lf1)"
    by (rule disk_reachable.step [OF Suc.prems(1) disk_step.thread]) (rule calculation(1))
  ultimately show ?case using Suc.IH by simp
qed simp

definition old_disk :: disk where "old_disk = [''log_0'' \<mapsto> ''old'']"

lemma log_on_disk_witness:
  "\<exists>lf. disk_reachable sample_conf old_disk (logged_two, lf) \<and>
     content (log_disk lf) ''log_0'' = ''old'' @ texts [''a'', ''b'']"
proof -
  let ?s = "append_push 0 (append_push 0 (append_check ''b'' (append_check ''a'' (log_start sample_conf))))"
  let ?lf = "\<lparr>log_file = None, log_disk = old_disk\<rparr>"
  have r: "disk_reachable sample_conf old_disk (?s, ?lf)"
    by (intro disk_reachable.step [OF _ disk_step.push] disk_reachable.step [OF _ disk_step.check] disk_reachable.init)
  have "(case disk_steps 5 sample_conf ''2024/01/01'' ?s ?lf of Inl _ \<Rightarrow> False | Inr _ \<Rightarrow> True)" by code_simp
  then obtain lf where "disk_steps 5 sample_conf ''2024/01/01'' ?s ?lf = Inr lf" by (auto split: sum.splits)
  from disk_steps_reachable [OF r this] have "disk_reachable sample_conf old_disk (logged_two, lf)" by (simp add: logged_two_def)
  moreover have "log_pc logged_two = Testing" "nextBuffer logged_two = []" "currentBuffer logged_two = []"
    "pushed logged_two = [''a'', ''b'']" "suffix logged_two = 1" "show_nat 0 = ''0''" by code_simp+
  moreover have "content old_disk ''log_0'' = ''old''" by (simp add: old_disk_def content_def)
  moreover have "concat ts = ts ! 0" if "length ts = 1" for ts :: "string list" using that by (cases ts) auto
  ultimately show ?thesis using log_on_disk [of sample_conf old_disk logged_two lf] by (auto simp: sample_conf_def)
qed

lemma failed_fopen: "log_file (LogFile_assign False n lf) = None" "log_file (LogFile_new False n d) = None"
  by (auto simp: LogFile_assign_def LogFile_new_def fopen_append_def Let_def split: prod.splits)

end
