(* ===== verification/Echo_Stream.thy ===== *)
theory Echo_Stream
  imports Connection "HOL-Library.Sublist"
begin

text \<open>
  One connection of the echo server of \<open>src/main.cpp\<close> from the outside: a client that sends what it likes when it likes, the
  network in between, and the connection, whose readable and writable events come in any order and move any number of
  bytes. The handlers are those of \<open>Connection\<close> (\<open>TcpConnection::onReadableEvent\<close>, \<open>TcpConnection::onWritableEvent\<close>, the callbacks of
  \<open>main.cpp\<close>); the client and the network are the environment. It is shown what the stream of bytes that comes back has to do
  with the stream that was sent.
\<close>

section \<open>Client, network, connection\<close>

text \<open>\<open>wire\<close> is what the client has sent and the server has not read; \<open>client_sent\<close> and \<open>client_got\<close> are all bytes so far.\<close>

record echo_state =
  conn :: connection
  wire :: "string list"
  client_sent :: string
  client_got :: string

datatype echo_event = Client_Sends string | Readable int | Writable int "nat list"

definition data_of :: "incoming list \<Rightarrow> string list" where
  "data_of ins = concat (map (\<lambda>i. case i of Data s \<Rightarrow> [s] | _ \<Rightarrow> []) ins)"

text \<open>A readable event is reported when there is something to read.\<close>

fun echo_step :: "echo_event \<Rightarrow> echo_state \<Rightarrow> echo_state res" where
  "echo_step (Client_Sends s) st =
     Inr (if s = [] then st else st\<lparr>wire := wire st @ [s], client_sent := client_sent st @ s\<rparr>)"
| "echo_step (Readable now) st =
     (if wire st = [] then Inr st
      else bind_res (onReadableEvent main_callbacks now (map Data (wire st)) (conn st)) (\<lambda>(c, ins, _).
             Inr (st\<lparr>conn := c, wire := data_of ins\<rparr>)))"
| "echo_step (Writable now ks) st =
     bind_res (onWritableEvent now ks (conn st)) (\<lambda>(c, bytes). Inr (st\<lparr>conn := c, client_got := client_got st @ bytes\<rparr>))"

fun echo_run :: "echo_event list \<Rightarrow> echo_state \<Rightarrow> echo_state res" where
  "echo_run [] st = Inr st"
| "echo_run (e # es) st = bind_res (echo_step e st) (echo_run es)"

definition echo_start :: "connection \<Rightarrow> echo_state" where
  "echo_start c = \<lparr>conn = c, wire = [], client_sent = [], client_got = []\<rparr>"

text \<open>A connection of the echo server that has just been made.\<close>

definition fresh_echo :: "connection \<Rightarrow> bool" where
  "fresh_echo c \<longleftrightarrow> conn_ok c \<and> inbox c = [] \<and> outbox c = [] \<and> 0 < maxSize (readBuffer c) \<and>
     maxSize (readBuffer c) + maxSize (writeBuffer c) \<le> 2 ^ 30"

lemma new_connection_fresh:
  assumes "2 \<le> rinit" "rinit \<le> rmax" "2 \<le> winit" "winit \<le> wmax" "rmax + wmax \<le> 2 ^ 30" "0 \<le> flags" "0 \<le> setfl"
  shows "\<exists>c. TcpConnection_new i fd peer rinit rmax winit wmax flags setfl now = Inr c \<and> fresh_echo c"
  using TcpConnection_new_fields [of rinit rmax winit wmax flags setfl i fd peer now] assms by (auto simp: fresh_echo_def)

text \<open>A run in which every event of the client is allowed by \<open>ok\<close>.\<close>

inductive echo_runs :: "(echo_event \<Rightarrow> echo_state \<Rightarrow> bool) \<Rightarrow> echo_state \<Rightarrow> echo_state \<Rightarrow> bool" for ok st0 where
  init: "echo_runs ok st0 st0"
| step: "echo_runs ok st0 st \<Longrightarrow> ok e st \<Longrightarrow> echo_step e st = Inr st' \<Longrightarrow> echo_runs ok st0 st'"

text \<open>A client that keeps a window: it sends no NUL byte, and it never has more than \<open>n\<close> bytes on the way.\<close>

definition keeps_window :: "nat \<Rightarrow> echo_event \<Rightarrow> echo_state \<Rightarrow> bool" where
  "keeps_window n e st \<longleftrightarrow> (case e of
       Client_Sends s \<Rightarrow> NUL \<notin> set s \<and> length (client_sent st) + length s \<le> length (client_got st) + n
     | _ \<Rightarrow> True)"

section \<open>What the server reads\<close>

lemma arrived_Data: "[] \<notin> set ss \<Longrightarrow> arrived (map Data ss) = concat ss"
  by (induction ss) auto

lemma data_of_Data [simp]: "data_of (map Data ss) = ss" "data_of [] = []"
  by (induction ss) (simp_all add: data_of_def)

text \<open>What the loop of \<open>read\<close> leaves of pure data is data again, the rest of it.\<close>

lemma recv_loop_Data:
  assumes "[] \<notin> set ss"
  shows "\<exists>ss'. snd (recv_loop (map Data ss) n got) = map Data ss' \<and> [] \<notin> set ss' \<and> concat ss' = drop n (concat ss)"
  using assms
proof (induction n arbitrary: ss got rule: less_induct)
  case (less n)
  show ?case
  proof (cases "n = 0 \<or> ss = []")
    case True
    then have "snd (recv_loop (map Data ss) n got) = map Data ss \<and> concat ss = drop n (concat ss)"
      by (cases n) (auto simp: recv_loop.simps [of "[]"] recv_loop.simps [of _ 0])
    then show ?thesis using less.prems by blast
  next
    case False
    then obtain s ss1 m where eq: "ss = s # ss1" "n = Suc m" by (metis neq_Nil_conv not0_implies_Suc)
    let ?k = "min n (length s)" and ?ss = "if length s \<le> n then ss1 else drop n s # ss1"
    have k: "0 < ?k" "n - ?k < n" using less.prems eq by auto
    have ss: "[] \<notin> set ?ss" "concat ?ss = drop ?k (concat ss)" using less.prems eq by auto
    have "drop (n - ?k) (concat ?ss) = drop n (concat ss)" unfolding ss(2) by simp
    moreover have "sys_read (map Data ss) n = (int ?k, take n s, map Data ?ss)" using eq by simp
    then have "recv_loop (map Data ss) n got = recv_loop (map Data ?ss) (n - ?k) (got @ take n s)"
      using k(1) by (subst recv_loop.simps) (simp only: Let_def split_conv nat_int of_nat_0_less_iff if_True)
    ultimately show ?thesis using less.IH [OF k(2) ss(1), of "got @ take n s"] by simp
  qed
qed

lemma onReadableEvent_rest:
  "onReadableEvent cbs now ins c = Inr (c1, ins', ls) \<Longrightarrow> ins' = snd (recv_loop ins (in_room c) [])"
  by (auto simp: onReadableEvent_def in_room_def Let_def bind_res_eq_Inr split: if_splits prod.splits)

lemma subseq_c_str: "subseq (c_str s) s"
  unfolding c_str_def using subseq_rev_drop_many [of "takeWhile P s" "takeWhile P s" "dropWhile P s" for P]
  by (simp add: prefix_imp_subseq takeWhile_is_prefix)

section \<open>The invariant\<close>

text \<open>What is on the way: echoed but not taken by the client yet, and not read yet.\<close>

definition under_way :: "echo_state \<Rightarrow> string" where
  "under_way st = outbox (conn st) @ concat (wire st)"

definition echo_inv :: "int \<Rightarrow> int \<Rightarrow> echo_state \<Rightarrow> bool" where
  "echo_inv rmax wmax st \<longleftrightarrow> conn_ok (conn st) \<and> inbox (conn st) = [] \<and> maxSize (readBuffer (conn st)) = rmax \<and>
     maxSize (writeBuffer (conn st)) = wmax \<and> 0 < rmax \<and> rmax + wmax \<le> 2 ^ 30 \<and> [] \<notin> set (wire st) \<and>
     subseq (client_got st @ under_way st) (client_sent st)"

lemma space_and_contents: "buf_ok b \<Longrightarrow> nat (getMaxSpace b) + length (contents b) = nat (maxSize b)"
proof -
  assume ok: "buf_ok b"
  have "getMaxSpace b = maxSize b - int (length (contents b))"
    unfolding getMaxSpace_def buf_ok_count [OF ok, symmetric] by simp
  moreover have "int (length (contents b)) \<le> maxSize b" using buf_okE [OF ok] unfolding buf_ok_count [OF ok, symmetric] by simp
  ultimately show ?thesis by linarith
qed

lemma rooms:
  assumes "conn_ok c"
  shows "in_room c + length (inbox c) = nat (maxSize (readBuffer c))" "out_room c + length (outbox c) = nat (maxSize (writeBuffer c))"
    "0 \<le> maxSize (writeBuffer c)"
proof -
  have ok: "buf_ok (readBuffer c)" "buf_ok (writeBuffer c)" using assms by (simp_all add: conn_ok_def)
  show "in_room c + length (inbox c) = nat (maxSize (readBuffer c))" "out_room c + length (outbox c) = nat (maxSize (writeBuffer c))"
    unfolding in_room_def out_room_def inbox_def outbox_def by (rule space_and_contents [OF ok(1)] space_and_contents [OF ok(2)])+
  show "0 \<le> maxSize (writeBuffer c)" using buf_okE [OF ok(2)] by simp
qed

lemma readable_step:
  assumes inv: "echo_inv rmax wmax st" and w: "wire st \<noteq> []"
  defines "s \<equiv> take (nat rmax) (concat (wire st))"
  shows "\<exists>st'. echo_step (Readable now) st = Inr st' \<and> echo_inv rmax wmax st' \<and>
    outbox (conn st') = outbox (conn st) @ take (out_room (conn st)) (c_str s) \<and>
    concat (wire st') = drop (nat rmax) (concat (wire st)) \<and> client_got st' = client_got st \<and> client_sent st' = client_sent st"
proof -
  let ?c = "conn st" and ?ins = "map Data (wire st)"
  have d: "conn_ok ?c" "inbox ?c = []" "maxSize (readBuffer ?c) = rmax" "maxSize (writeBuffer ?c) = wmax" "0 < rmax"
    "rmax + wmax \<le> 2 ^ 30" "[] \<notin> set (wire st)" "subseq (client_got st @ under_way st) (client_sent st)"
    using inv by (simp_all add: echo_inv_def)
  note arr = arrived_Data [OF d(7)]
  have room: "in_room ?c = nat rmax" "length (outbox ?c) \<le> nat wmax" using rooms [OF d(1)] d(2-4) by simp_all
  have "0 < in_room ?c" using room(1) d(5) by simp
  moreover have "arrived ?ins \<noteq> []" using arr w d(7) by (cases "wire st") auto
  ultimately obtain ins' c1 where r: "onReadableEvent main_callbacks now ?ins ?c = bind_res (onMessage main_callbacks c1) (\<lambda>(c2, ls). Inr (c2, ins', ls))"
    "conn_ok c1" "inbox c1 = s" "c1 = ?c\<lparr>lastActiveTime := now, readBuffer := readBuffer c1\<rparr>" "maxSize (readBuffer c1) = rmax"
    using onReadableEvent_data [OF d(1), of ?ins main_callbacks now] arr d(2,3) room(1) unfolding s_def by auto
  have "writeBuffer c1 = writeBuffer ?c" by (subst r(4)) simp
  then have out: "outbox c1 = outbox ?c" "out_room c1 = out_room ?c" "maxSize (writeBuffer c1) = wmax"
    using d(4) by (simp_all add: outbox_def out_room_def)
  have "length (outbox c1) + length (inbox c1) \<le> nat wmax + nat rmax" using out(1) room(2) r(3) by (simp add: s_def)
  also have "\<dots> \<le> 2 ^ 30" using d(4-6) rooms(3) [OF d(1)] by (simp flip: nat_add_distrib add: nat_le_iff)
  finally obtain c2 where c2: "main_onMessage c1 = Inr (c2, [(LOG_DEBUG, c_str s)])" "conn_ok c2" "inbox c2 = []"
    "outbox c2 = outbox ?c @ take (out_room ?c) (c_str s)" "maxSize (readBuffer c2) = rmax" "maxSize (writeBuffer c2) = wmax"
    using main_onMessage_spec [OF r(2)] r(3,5) out by auto
  have ev: "onReadableEvent main_callbacks now ?ins ?c = Inr (c2, ins', [(LOG_DEBUG, c_str s)])"
    using r(1) c2(1) by (simp add: onMessage_def main_callbacks_def invoke_def)
  obtain ss' where ss: "ins' = map Data ss'" "[] \<notin> set ss'" "concat ss' = drop (nat rmax) (concat (wire st))"
    using onReadableEvent_rest [OF ev] recv_loop_Data [OF d(7), of "nat rmax" "[]"] room(1) by auto
  let ?st = "st\<lparr>conn := c2, wire := ss'\<rparr>"
  have st: "echo_step (Readable now) st = Inr ?st" using w ev ss(1) by simp
  have "subseq (take (out_room ?c) (c_str s)) s" by (meson subseq_c_str prefix_imp_subseq subseq_order.order_trans take_is_prefix)
  then have "subseq (take (out_room ?c) (c_str s) @ drop (nat rmax) (concat (wire st))) (concat (wire st))"
    using list_emb_append_mono [of "(=)" _ s "drop (nat rmax) (concat (wire st))" "drop (nat rmax) (concat (wire st))"] by (simp add: s_def)
  then have "subseq (client_got st @ under_way ?st) (client_got st @ under_way st)"
    unfolding under_way_def using c2(4) ss(3) by (simp add: subseq_append')
  then have "subseq (client_got st @ under_way ?st) (client_sent st)" using d(8) subseq_order.order_trans by blast
  then have "echo_inv rmax wmax ?st" using c2 ss(2) d(5,6) by (simp add: echo_inv_def)
  then show ?thesis using st c2(4) ss(3) by (intro exI [of _ ?st]) simp
qed

lemma writable_step:
  assumes inv: "echo_inv rmax wmax st"
  shows "\<exists>st'. echo_step (Writable now ks) st = Inr st' \<and> echo_inv rmax wmax st' \<and> wire st' = wire st \<and>
    client_got st' @ under_way st' = client_got st @ under_way st \<and> client_sent st' = client_sent st \<and>
    outbox (conn st') = drop (send_loop ks (outbox (conn st)) 0) (outbox (conn st))"
proof -
  let ?c = "conn st" and ?k = "send_loop ks (outbox (conn st)) 0"
  have ok: "conn_ok ?c" using inv by (simp add: echo_inv_def)
  obtain c' where c': "onWritableEvent now ks ?c = Inr (c', take ?k (outbox ?c))" "conn_ok c'" "outbox c' = drop ?k (outbox ?c)"
    "c' = ?c\<lparr>lastActiveTime := now, writeBuffer := writeBuffer c'\<rparr>" "maxSize (writeBuffer c') = maxSize (writeBuffer ?c)"
    using onWritableEvent_spec [OF ok, of now ks] by blast
  have "readBuffer c' = readBuffer ?c" by (subst c'(4)) simp
  then have rb: "inbox c' = inbox ?c" "maxSize (readBuffer c') = maxSize (readBuffer ?c)" by (simp_all add: inbox_def)
  let ?st = "st\<lparr>conn := c', client_got := client_got st @ take ?k (outbox ?c)\<rparr>"
  have uw: "client_got ?st @ under_way ?st = client_got st @ under_way st" using c'(3) by (simp add: under_way_def)
  then have "echo_inv rmax wmax ?st" using inv c' rb unfolding echo_inv_def by simp
  then show ?thesis using c'(1,3) uw by (intro exI [of _ ?st]) simp
qed

lemma client_step:
  assumes inv: "echo_inv rmax wmax st"
  shows "\<exists>st'. echo_step (Client_Sends s) st = Inr st' \<and> echo_inv rmax wmax st' \<and> conn st' = conn st \<and>
    client_got st' = client_got st \<and> client_sent st' = client_sent st @ s \<and> under_way st' = under_way st @ s"
proof (cases "s = []")
  case False
  let ?st = "st\<lparr>wire := wire st @ [s], client_sent := client_sent st @ s\<rparr>"
  have "under_way ?st = under_way st @ s" by (simp add: under_way_def)
  moreover have "subseq ((client_got st @ under_way st) @ s) (client_sent st @ s)"
    using inv by (simp only: echo_inv_def subseq_append)
  ultimately show ?thesis using inv False by (simp add: echo_inv_def)
qed (use inv in simp)

lemma echo_step_inv:
  assumes "echo_inv rmax wmax st"
  shows "\<exists>st'. echo_step e st = Inr st' \<and> echo_inv rmax wmax st'"
proof (cases e)
  case (Readable now)
  then show ?thesis using assms readable_step [OF assms, of now] by (cases "wire st = []") auto
next
  case (Writable now ks)
  then show ?thesis using writable_step [OF assms] by blast
next
  case (Client_Sends s)
  then show ?thesis using client_step [OF assms] by blast
qed

lemma echo_inv_start: "fresh_echo c \<Longrightarrow> echo_inv (maxSize (readBuffer c)) (maxSize (writeBuffer c)) (echo_start c)"
  by (simp add: fresh_echo_def echo_inv_def echo_start_def under_way_def)

lemma echo_inv_runs: "echo_runs ok st0 st \<Longrightarrow> echo_inv rmax wmax st0 \<Longrightarrow> echo_inv rmax wmax st"
proof (induction rule: echo_runs.induct)
  case (step st e st')
  then show ?case using echo_step_inv [of rmax wmax st e] by auto
qed

section \<open>A client that keeps a window\<close>

definition win_inv :: "nat \<Rightarrow> echo_state \<Rightarrow> bool" where
  "win_inv n st \<longleftrightarrow> client_got st @ under_way st = client_sent st \<and> NUL \<notin> set (client_sent st) \<and> length (under_way st) \<le> n"

lemma win_inv_step:
  assumes inv: "echo_inv rmax wmax st" and win: "win_inv n st" and n: "n \<le> nat wmax"
    and keeps: "keeps_window n e st" and st': "echo_step e st = Inr st'"
  shows "win_inv n st'"
proof (cases e)
  case (Client_Sends s)
  from client_step [OF inv, of s] st' Client_Sends have s: "client_got st' = client_got st" "client_sent st' = client_sent st @ s"
    "under_way st' = under_way st @ s" by auto
  then have g: "client_got st' @ under_way st' = client_sent st'" using win by (simp add: win_inv_def)
  have k: "NUL \<notin> set s" "length (client_sent st') \<le> length (client_got st') + n"
    using keeps s by (simp_all add: keeps_window_def Client_Sends)
  have "length (client_sent st') = length (client_got st') + length (under_way st')" unfolding g [symmetric] by simp
  then show ?thesis using g k win s(2) by (simp add: win_inv_def)
next
  case (Writable now ks)
  from writable_step [OF inv, of now ks] st' Writable have w: "client_got st' @ under_way st' = client_got st @ under_way st"
    "client_sent st' = client_sent st" "wire st' = wire st"
    "outbox (conn st') = drop (send_loop ks (outbox (conn st)) 0) (outbox (conn st))" by auto
  then have "length (under_way st') \<le> length (under_way st)" by (simp add: under_way_def)
  then show ?thesis using w win by (simp add: win_inv_def)
next
  case (Readable now)
  show ?thesis
  proof (cases "wire st = []")
    case True
    then show ?thesis using Readable st' win by simp
  next
    case False
    define s where "s = take (nat rmax) (concat (wire st))"
    from readable_step [OF inv False, of now] st' Readable have r:
      "outbox (conn st') = outbox (conn st) @ take (out_room (conn st)) (c_str s)" "client_got st' = client_got st"
      "concat (wire st') = drop (nat rmax) (concat (wire st))" "client_sent st' = client_sent st" unfolding s_def by auto
    have "set s \<subseteq> set (concat (wire st))" unfolding s_def by (rule set_take_subset)
    then have "set s \<subseteq> set (client_got st @ under_way st)" by (auto simp: under_way_def)
    then have "NUL \<notin> set s" using win unfolding win_inv_def by auto
    then have "c_str s = s" by (rule c_str_no_NUL)
    moreover have "conn_ok (conn st)" "maxSize (writeBuffer (conn st)) = wmax" using inv by (simp_all add: echo_inv_def)
    then have "out_room (conn st) + length (outbox (conn st)) = nat wmax" using rooms(2) by blast
    then have "length (concat (wire st)) \<le> out_room (conn st)" using win n by (simp add: win_inv_def under_way_def)
    then have "length s \<le> out_room (conn st)" by (simp add: s_def)
    ultimately have "outbox (conn st') = outbox (conn st) @ s" using r(1) by simp
    then have "under_way st' = under_way st" using r(3) by (simp add: under_way_def s_def)
    then show ?thesis using r(2,4) win by (simp add: win_inv_def)
  qed
qed

lemma win_inv_runs:
  "echo_runs (keeps_window n) st0 st \<Longrightarrow> echo_inv rmax wmax st0 \<Longrightarrow> win_inv n st0 \<Longrightarrow> n \<le> nat wmax \<Longrightarrow> win_inv n st"
proof (induction rule: echo_runs.induct)
  case (step st e st')
  then show ?case using win_inv_step [OF echo_inv_runs [OF step.hyps(1)]] by blast
qed

text \<open>How many bytes have been lost so far never gets less.\<close>

definition lost :: "nat \<Rightarrow> echo_state \<Rightarrow> bool" where
  "lost n st \<longleftrightarrow> length (client_got st @ under_way st) + n \<le> length (client_sent st)"

lemma lost_step:
  assumes inv: "echo_inv rmax wmax st" and "lost n st" and st': "echo_step e st = Inr st'"
  shows "lost n st'"
proof (cases e)
  case (Client_Sends s)
  then show ?thesis using client_step [OF inv, of s] assms(2) st' by (auto simp: lost_def)
next
  case (Writable now ks)
  from writable_step [OF inv, of now ks] st' Writable have "client_got st' @ under_way st' = client_got st @ under_way st"
    "client_sent st' = client_sent st" by auto
  then show ?thesis using assms(2) by (simp only: lost_def)
next
  case (Readable now)
  show ?thesis
  proof (cases "wire st = []")
    case False
    let ?s = "take (nat rmax) (concat (wire st))"
    have "length (take (out_room (conn st)) (c_str ?s)) \<le> length ?s"
      using list_emb_length [OF subseq_c_str [of ?s]] unfolding length_take by linarith
    then show ?thesis using readable_step [OF inv False, of now] assms(2) st' Readable by (auto simp: lost_def under_way_def)
  qed (use Readable st' assms(2) in simp)
qed

lemma lost_runs: "echo_runs ok st0 st \<Longrightarrow> echo_inv rmax wmax st0 \<Longrightarrow> lost n st0 \<Longrightarrow> lost n st"
proof (induction rule: echo_runs.induct)
  case (step st e st')
  then show ?case using lost_step [OF echo_inv_runs [OF step.hyps(1)]] by blast
qed

section \<open>Properties\<close>

text \<open>Whatever the client sends, however the network cuts it up and however the events come, the echo server never fails on
  the connection, and what the client gets back is a subsequence of what it sent: nothing is invented, repeated or
  reordered.\<close>

lemma echo_stream_subsequence:
  assumes "fresh_echo c" "echo_runs ok (echo_start c) st"
  shows "(\<exists>st'. echo_step e st = Inr st') \<and> subseq (client_got st) (client_sent st)"
proof -
  note inv = echo_inv_runs [OF assms(2) echo_inv_start [OF assms(1)]]
  have "subseq (client_got st) (client_got st @ under_way st)" by (simp add: prefix_imp_subseq)
  then have "subseq (client_got st) (client_sent st)"
    using inv subseq_order.order_trans unfolding echo_inv_def by blast
  then show ?thesis using echo_step_inv [OF inv, of e] by blast
qed

lemma sample_fresh: "fresh_echo sample_connection"
  by (simp add: fresh_echo_def sample_connection_facts)

text \<open>The client of the examples sends ten bytes, which are read, and seven more.\<close>

definition seventeen :: "nat \<Rightarrow> echo_event list" where
  "seventeen n = [Client_Sends ''helloworld'', Readable 5, Client_Sends (replicate n CHR ''x'')]"

lemma seventeen_run:
  assumes "n = 6 \<or> n = 7"
  shows "\<exists>st. echo_runs (keeps_window (10 + n)) (echo_start sample_connection) st \<and> outbox (conn st) = ''helloworld'' \<and>
    wire st = [replicate n CHR ''x''] \<and> client_sent st = ''helloworld'' @ replicate n CHR ''x'' \<and> client_got st = []"
proof -
  let ?ok = "keeps_window (10 + n)" and ?s0 = "echo_start sample_connection"
  note f = sample_connection_facts
  let ?s1 = "?s0\<lparr>wire := [''helloworld''], client_sent := ''helloworld''\<rparr>"
  have s1: "echo_step (Client_Sends ''helloworld'') ?s0 = Inr ?s1" by (simp add: echo_start_def)
  have r1: "echo_runs ?ok ?s0 ?s1"
    by (rule echo_runs.step [OF echo_runs.init _ s1]) (simp add: keeps_window_def echo_start_def)
  have inv: "echo_inv 16 16 ?s1" using echo_inv_runs [OF r1 echo_inv_start [OF sample_fresh]] f by simp
  obtain s2 where s2: "echo_step (Readable 5) ?s1 = Inr s2" "echo_inv 16 16 s2" "outbox (conn s2) = ''helloworld''"
    "concat (wire s2) = []" "client_got s2 = []" "client_sent s2 = ''helloworld''"
    using readable_step [OF inv, of 5] f by (auto simp: echo_start_def c_str_def)
  have w2: "wire s2 = []" using s2(2,4) by (cases "wire s2") (auto simp: echo_inv_def)
  have r2: "echo_runs ?ok ?s0 s2" by (rule echo_runs.step [OF r1 _ s2(1)]) (simp add: keeps_window_def)
  have "?ok (Client_Sends (replicate n CHR ''x'')) s2" using s2 assms by (auto simp: keeps_window_def)
  from echo_runs.step [OF r2 this] s2 w2 assms show ?thesis by auto
qed

lemma echo_stream_subsequence_witness:
  "\<exists>st. client_sent st = ''helloworldxxxxxxx'' \<and> outbox (conn st) = ''helloworld'' \<and>
     (\<exists>st'. echo_step (Writable 6 [4, 2]) st = Inr st') \<and> subseq (client_got st) (client_sent st)"
proof -
  obtain st where "echo_runs (keeps_window (10 + 7)) (echo_start sample_connection) st" "outbox (conn st) = ''helloworld''"
    "client_sent st = ''helloworld'' @ replicate 7 CHR ''x''" using seventeen_run [of 7] by blast
  then show ?thesis using echo_stream_subsequence [OF sample_fresh, of _ st "Writable 6 [4, 2]"]
    by (intro exI [of _ st]) (simp add: numeral_eq_Suc)
qed

text \<open>C8: A client that sends no NUL byte and never has more bytes on the way than the two buffers of the connection can hold
  loses nothing: what it has got, what waits in the connection and what waits in the network is, in this order, exactly
  what it has sent; and one readable event followed by one writable event on a socket that takes the bytes complete the
  echo.\<close>

theorem echo_stream_exact:
  assumes "fresh_echo c" "echo_runs (keeps_window n) (echo_start c) st"
    "n \<le> nat (maxSize (readBuffer c))" "n \<le> nat (maxSize (writeBuffer c))" "n \<le> k"
  shows "client_got st @ outbox (conn st) @ concat (wire st) = client_sent st \<and>
    (\<exists>st'. echo_run [Readable now, Writable now' (k # ks)] st = Inr st' \<and> client_got st' = client_sent st)"
proof -
  let ?r = "maxSize (readBuffer c)" and ?w = "maxSize (writeBuffer c)"
  note inv = echo_inv_runs [OF assms(2) echo_inv_start [OF assms(1)]]
  have "win_inv n (echo_start c)" using assms(1) by (simp add: win_inv_def echo_start_def under_way_def fresh_echo_def)
  from win_inv_runs [OF assms(2) echo_inv_start [OF assms(1)] this assms(4)] have win: "win_inv n st" .
  obtain st1 where st1: "echo_step (Readable now) st = Inr st1" "echo_inv ?r ?w st1" using echo_step_inv [OF inv] by blast
  have win1: "win_inv n st1" using win_inv_step [OF inv win assms(4) _ st1(1)] by (simp add: keeps_window_def)
  have w1: "concat (wire st1) = []" "client_sent st1 = client_sent st"
  proof (atomize (full), cases "wire st = []")
    case False
    have "length (concat (wire st)) \<le> nat ?r" using win assms(3) by (simp add: win_inv_def under_way_def)
    then show "concat (wire st1) = [] \<and> client_sent st1 = client_sent st" using readable_step [OF inv False, of now] st1(1) by auto
  qed (use st1(1) in simp)
  obtain st2 where st2: "echo_step (Writable now' (k # ks)) st1 = Inr st2" "client_got st2 @ under_way st2 = client_got st1 @ under_way st1"
    "wire st2 = wire st1" "outbox (conn st2) = drop (send_loop (k # ks) (outbox (conn st1)) 0) (outbox (conn st1))"
    using writable_step [OF st1(2)] by blast
  have "length (outbox (conn st1)) \<le> k" using win1 assms(5) by (simp add: win_inv_def under_way_def)
  then have "under_way st2 = []" using st2(3,4) w1(1) send_loop_all by (simp add: under_way_def del: send_loop.simps)
  then have "client_got st2 = client_sent st" using st2(2) win1 w1(2) by (simp add: win_inv_def)
  moreover have "echo_run [Readable now, Writable now' (k # ks)] st = Inr st2" using st1(1) st2(1) by simp
  ultimately show ?thesis using win unfolding win_inv_def under_way_def by blast
qed

lemma echo_stream_exact_witness:
  "\<exists>st st'. client_got st = [] \<and> echo_run [Readable 6, Writable 7 [100]] st = Inr st' \<and> client_got st' = ''helloworldxxxxxx''"
proof -
  obtain st where st: "echo_runs (keeps_window (10 + 6)) (echo_start sample_connection) st" "client_got st = []"
    "client_sent st = ''helloworld'' @ replicate 6 CHR ''x''" using seventeen_run [of 6] by blast
  moreover have "''helloworld'' @ replicate 6 CHR ''x'' = ''helloworldxxxxxx''" by (simp add: numeral_eq_Suc)
  ultimately show ?thesis using echo_stream_exact [OF sample_fresh st(1), of 100 6 7 "[]"]
    by (auto simp: sample_connection_facts)
qed

text \<open>C32: A client that is slow to take its echo loses data. When a readable event finds more bytes than there is room for in the
  write buffer, the echo server reads them all, keeps those that fit and drops the others: no later run of the connection
  gives them back, the client has always got less than it has sent.\<close>

theorem echo_overrun_loses:
  assumes "fresh_echo c" "echo_runs ok (echo_start c) st" "wire st \<noteq> []"
    "out_room (conn st) < length (take (nat (maxSize (readBuffer c))) (concat (wire st)))"
  shows "\<exists>st1. echo_step (Readable now) st = Inr st1 \<and>
    (\<forall>ok' st2. echo_runs ok' st1 st2 \<longrightarrow> length (client_got st2) < length (client_sent st2))"
proof -
  let ?r = "maxSize (readBuffer c)" and ?w = "maxSize (writeBuffer c)"
  let ?s = "take (nat ?r) (concat (wire st))"
  note inv = echo_inv_runs [OF assms(2) echo_inv_start [OF assms(1)]]
  obtain st1 where st1: "echo_step (Readable now) st = Inr st1" "echo_inv ?r ?w st1"
    "outbox (conn st1) = outbox (conn st) @ take (out_room (conn st)) (c_str ?s)" "client_got st1 = client_got st"
    "concat (wire st1) = drop (nat ?r) (concat (wire st))" "client_sent st1 = client_sent st"
    using readable_step [OF inv assms(3), of now] by blast
  have "length (take (out_room (conn st)) (c_str ?s)) < length ?s" using assms(4) unfolding length_take by linarith
  then have "length (client_got st1 @ under_way st1) < length (client_got st @ under_way st)"
    using st1(3-5) by (simp add: under_way_def) linarith
  also have "subseq (client_got st @ under_way st) (client_sent st1)" using inv st1(6) by (simp add: echo_inv_def)
  note list_emb_length [OF this]
  finally have "lost 1 st1" by (simp add: lost_def)
  then have "lost 1 st2" if "echo_runs ok' st1 st2" for ok' st2 using lost_runs [OF that st1(2)] by blast
  then show ?thesis using st1(1) by (fastforce simp: lost_def)
qed

lemma echo_overrun_loses_witness:
  "\<exists>st st1. client_sent st = ''helloworld'' @ replicate 7 CHR ''x'' \<and> echo_step (Readable 6) st = Inr st1 \<and>
     (\<forall>ok' st2. echo_runs ok' st1 st2 \<longrightarrow> length (client_got st2) < length (client_sent st2))"
proof -
  obtain st where st: "echo_runs (keeps_window (10 + 7)) (echo_start sample_connection) st" "outbox (conn st) = ''helloworld''"
    "client_sent st = ''helloworld'' @ replicate 7 CHR ''x''" "wire st = [replicate 7 CHR ''x'']" using seventeen_run [of 7] by blast
  have inv: "echo_inv 16 16 st" using echo_inv_runs [OF st(1) echo_inv_start [OF sample_fresh]] sample_connection_facts by simp
  then have "out_room (conn st) = 6" using rooms(2) [of "conn st"] st(2) by (simp add: echo_inv_def)
  then show ?thesis using echo_overrun_loses [OF sample_fresh st(1), of 6] st(3,4)
    by (intro exI [of "\<lambda>st. \<exists>st1. _ st st1" st]) (simp add: sample_connection_facts del: echo_step.simps)
qed

end
