(* ===== verification/Worker_Frames.thy ===== *)
theory Worker_Frames
  imports Whole_Server
begin

text \<open>
  What the parts of a worker's loop (\<open>src/worker.cpp\<close>) leave alone, whatever state the worker is in: evictions change only the
  pool and what epoll watches, and only the swap in \<open>registerNewConnection\<close> takes connections from the queue. The proofs about the
  threads of the queue and about the streams of the connections rest on these facts.
\<close>

section \<open>Evictions\<close>

lemma bind_env_eq: "bind_env m f = Inr (Some y) \<longleftrightarrow> (\<exists>x. m = Inr (Some x) \<and> f x = Inr (Some y))"
  by (auto simp: bind_env_def bind_res_eq_Inr split: option.splits)

definition pool_only :: "worker \<Rightarrow> worker \<Rightarrow> bool" where
  "pool_only w w' \<longleftrightarrow> incomingConnection w' = incomingConnection w \<and> heap w' = heap w \<and> sent w' = sent w \<and>
     logged w' = logged w \<and> maxConnection w' = maxConnection w"

lemma pool_only_refl [simp]: "pool_only w w"
  by (simp add: pool_only_def)

lemma pool_only_trans: "pool_only w w1 \<Longrightarrow> pool_only w1 w2 \<Longrightarrow> pool_only w w2"
  by (auto simp: pool_only_def)

lemma pool_onlyD:
  assumes "pool_only w w'"
  shows "incomingConnection w' = incomingConnection w" "heap w' = heap w" "sent w' = sent w" "logged w' = logged w"
  using assms by (auto simp: pool_only_def)

lemma pool_set: "pool_only w (w\<lparr>connectionPool := d\<rparr>)"
  by (simp add: pool_only_def)

lemma remove_pool_only: "removeConnection hf p w = Inr w' \<Longrightarrow> pool_only w w'"
  by (auto simp: removeConnection_def bind_res_eq_Inr epoll_del_def pool_only_def)

lemma random_pool_only: "random_conn hf rs w = Inr (Some (p, rs', w')) \<Longrightarrow> pool_only w w'"
  by (auto simp: random_conn_def bind_env_eq pool_set)

lemma evict_loop_pool_only:
  "evict_loop hf k now i t rs w = Inr (Some (m, rs', w')) \<Longrightarrow> pool_only w w'"
proof (induction k arbitrary: i t rs w)
  case (Suc k)
  show ?case
  proof (cases "dict_empty (connectionPool w)")
    case False
    define rest where "rest = (\<lambda>(p, rs1, w1). bind_res (deref p w1) (\<lambda>c.
           bind_res (if conn_closed c then removeConnection hf p w1 else Inr w1) (\<lambda>w2.
           bind_res (c_int (now - lastActiveTime c)) (\<lambda>inactiveTime.
             if inactiveTime > t
             then evict_loop hf k now (conn_id c) inactiveTime rs1 w2
             else evict_loop hf k now i t rs1 w2))))"
    have "bind_env (random_conn hf rs w) rest = Inr (Some (m, rs', w'))" using Suc.prems False by (simp add: rest_def)
    then obtain x where x: "random_conn hf rs w = Inr (Some x)" "rest x = Inr (Some (m, rs', w'))" by (auto simp: bind_env_eq)
    obtain p rs1 w1 where p: "x = (p, rs1, w1)" by (rule prod_cases3)
    from x(2) obtain c :: connection and w2 j where w2: "(if conn_closed c then removeConnection hf p w1 else Inr w1) = Inr w2"
      "(if j > t then evict_loop hf k now (conn_id c) j rs1 w2 else evict_loop hf k now i t rs1 w2) = Inr (Some (m, rs', w'))"
      unfolding rest_def p split_conv bind_res_eq_Inr by blast
    have w: "random_conn hf rs w = Inr (Some (p, rs1, w1))" "(if conn_closed c then removeConnection hf p w1 else Inr w1) = Inr w2"
      "\<exists>i t. evict_loop hf k now i t rs1 w2 = Inr (Some (m, rs', w'))" using x(1) p w2 by (auto split: if_splits)
    have "pool_only w1 w2" using w(2) remove_pool_only by (auto split: if_splits)
    then show ?thesis using random_pool_only [OF w(1)] w(3) Suc.IH pool_only_trans by blast
  qed (use Suc.prems in simp)
qed simp

lemma evictRandomN_pool_only:
  assumes "evictRandomN hf conf n force now rs w = Inr (Some (rs', w'))"
  shows "pool_only w w'"
proof (cases "n \<le> 0")
  case False
  with assms obtain x where x: "evict_loop hf (nat n) now NO_ID 0 rs w = Inr (Some x)"
    unfolding evictRandomN_def by (auto simp: bind_env_eq)
  obtain most rs1 w1 where l: "x = (most, rs1, w1)" by (rule prod_cases3)
  note r = assms [unfolded evictRandomN_def x l, simplified False if_False bind_env_simps split_conv]
  have "pool_only w1 w'"
  proof (cases most)
    case (Some y)
    have "pool_only w1 w2" if "removeConnection hf p (w1\<lparr>connectionPool := d\<rparr>) = Inr w2" for p d w2
      using pool_only_trans [OF pool_set remove_pool_only [OF that]] .
    then show ?thesis using r Some
      by (cases y) (fastforce simp: bind_res_eq_Inr split: if_splits prod.splits)
  qed (use r in simp)
  then show ?thesis using evict_loop_pool_only [OF x [unfolded l]] pool_only_trans by blast
qed (use assms in \<open>simp add: evictRandomN_def\<close>)

lemma evictions_pool_only:
  "eviction hf conf now rs w = Inr (Some (rs', w')) \<Longrightarrow> pool_only w w'"
  "manageInactiveConnection hf conf now rs w = Inr (Some (rs', w')) \<Longrightarrow> pool_only w w'"
  by (auto simp: eviction_def manageInactiveConnection_def bind_env_eq bind_res_eq_Inr split: if_splits
      dest!: evictRandomN_pool_only random_pool_only remove_pool_only intro: pool_only_trans)

lemmas evictions_keep = evictions_pool_only [THEN pool_onlyD(1)] evictions_pool_only [THEN pool_onlyD(2)]
  evictions_pool_only [THEN pool_onlyD(3)]

section \<open>Who touches the queue\<close>

text \<open>Of the steps of a worker only the swap changes its queue.\<close>

lemma queue_frames [simp]:
  "incomingConnection (store_conn p c w) = incomingConnection w" "incomingConnection (epoll_add fd w) = incomingConnection w"
  "incomingConnection (epoll_del fd w) = incomingConnection w"
  by (simp_all add: store_conn_def epoll_add_def epoll_del_def split: option.split)

lemma remove_frame: "removeConnection hf p w = Inr w' \<Longrightarrow> incomingConnection w' = incomingConnection w"
  by (rule pool_onlyD(1) [OF remove_pool_only])

lemma event_frames:
  "event_error hf ev p w = Inr w' \<Longrightarrow> incomingConnection w' = incomingConnection w"
  "event_in cbs ev p w = Inr w' \<Longrightarrow> incomingConnection w' = incomingConnection w"
  "event_out ev p w = Inr w' \<Longrightarrow> incomingConnection w' = incomingConnection w"
  "event_close hf p w = Inr w' \<Longrightarrow> incomingConnection w' = incomingConnection w"
  by (auto simp: event_error_def event_in_def event_out_def event_close_def bind_res_eq_Inr dest: remove_frame split: if_splits prod.splits)

lemma handle_event_frame: "handle_event hf cbs ev w = Inr w' \<Longrightarrow> incomingConnection w' = incomingConnection w"
  by (auto simp: handle_event_def bind_res_eq_Inr dest!: event_frames split: prod.splits)

lemma register_frame: "register_loop hf cbs ps w = Inr w' \<Longrightarrow> incomingConnection w' = incomingConnection w"
proof (induction ps arbitrary: w)
  case (Cons p ps)
  from Cons.prems obtain c0 c ls d where "register_loop hf cbs ps
      ((epoll_add (connfd c) ((store_conn p c w)\<lparr>logged := logged w @ ls\<rparr>))\<lparr>connectionPool := d\<rparr>) = Inr w'"
    by (auto simp: bind_res_eq_Inr Let_def split: prod.splits)
  from Cons.IH [OF this] show ?case by (simp add: epoll_add_def)
qed simp

lemma worker_step_frame:
  assumes "worker_step hf cbs conf exceed e (pc, w) = Inr (Some (pc', w'))" "pc \<noteq> Handling []"
  shows "incomingConnection w' = incomingConnection w"
proof (cases "(hf, cbs, conf, exceed, e, pc, w)" rule: worker_step.cases)
  case (3 hf cbs conf exceed e ev evs w)
  then show ?thesis using assms handle_event_frame by (auto simp: bind_res_eq_Inr)
next
  case (5 hf cbs conf exceed e p ps w)
  then show ?thesis using assms register_frame by (auto simp: bind_res_eq_Inr simp del: register_loop.simps)
qed (use assms evictions_keep in \<open>auto simp: bind_env_eq bind_res_eq_Inr split: if_splits\<close>)


end
