(* ===== verification/Echo_Server.thy ===== *)
theory Echo_Server
  imports Worker_Frames Echo_Stream
begin

text \<open>
  The streams of all connections of the running server. \<open>Echo_Stream\<close> looks at one connection alone; here the echo server
  of \<open>src/main.cpp\<close> runs whole, as in \<open>Whole_Server\<close>, with all its workers and connections interleaved, and with each run
  goes the history of what the calls of \<open>read\<close> (\<open>TcpConnection::onReadableEvent\<close>) took from which connection. The
  sockets have taken what \<open>sent\<close> of the workers records.
\<close>

section \<open>What is read and what is sent\<close>

text \<open>The bytes that the handler of an event reads from its connection.\<close>

definition event_reads :: "event \<Rightarrow> connection \<Rightarrow> string" where
  "event_reads ev c = (if has_flag (ev_flags ev) EPOLLIN then fst (recv_loop (ev_incoming ev) (in_room c) []) else [])"

fun step_reads :: "worker_pc \<Rightarrow> worker \<Rightarrow> (64 word \<times> string) list" where
  "step_reads (Handling (ev # evs)) w = (case pool_map w (ev_id ev) of
       Some (Some a) \<Rightarrow> [(ev_id ev, event_reads ev (heap w ! a))] | _ \<Rightarrow> [])"
| "step_reads _ w = []"

fun action_reads :: "action \<Rightarrow> system \<Rightarrow> (64 word \<times> string) list" where
  "action_reads (Step i e) s = (if i < length (pcs s) then step_reads (pcs s ! i) (threadPool (srv s) ! i) else [])"
| "action_reads _ s = []"

inductive sys_history :: "(64 word \<Rightarrow> 64 word) \<Rightarrow> (32 word \<Rightarrow> 64 word) \<Rightarrow> system \<Rightarrow> (64 word \<times> string) list \<Rightarrow> bool"
  for hf iphash where
  start: "sys_start file now n = Inr s \<Longrightarrow> 0 < n \<Longrightarrow> sys_config (cfg (srv s)) \<Longrightarrow> sys_history hf iphash s []"
| step: "sys_history hf iphash s h \<Longrightarrow> os_allows act s \<Longrightarrow> sys_step hf iphash main_callbacks act s = Inr (Some s') \<Longrightarrow>
    sys_history hf iphash s' (h @ action_reads act s)"

text \<open>The bytes of connection \<open>k\<close> in such a record.\<close>

definition bytes_of :: "64 word \<Rightarrow> (64 word \<times> string) list \<Rightarrow> string" where
  "bytes_of k xs = concat (map snd (filter (\<lambda>x. fst x = k) xs))"

lemma bytes_of_simps [simp]: "bytes_of k [] = []" "bytes_of k (xs @ ys) = bytes_of k xs @ bytes_of k ys"
  "bytes_of k [(j, s)] = (if j = k then s else [])"
  by (simp_all add: bytes_of_def)

section \<open>One event\<close>

lemma echo_reads:
  assumes e: "echo_ready c" and r: "onReadableEvent main_callbacks t ins c = Inr (c', ins', ls)"
  shows "conn_id c' = conn_id c \<and> echo_ready c' \<and> subseq (outbox c') (outbox c @ fst (recv_loop ins (in_room c) []))"
proof -
  have ok: "conn_ok c" "inbox c = []" and room: "0 < in_room c" "in_room c \<le> 2 ^ 29" "length (outbox c) \<le> 2 ^ 29"
    using e echo_ready_room [OF e] by (auto simp: echo_ready_def)
  have keeps: "conn_id c' = conn_id c" "echo_ready c'" using echo_readable [OF e, of t ins] r by auto
  have got: "fst (recv_loop ins (in_room c) []) = take (in_room c) (arrived ins)" using recv_loop_spec [of ins "in_room c" "[]"] by auto
  show ?thesis
  proof (cases "arrived ins = []")
    case True
    then have "c' = c\<lparr>lastActiveTime := t, conn_closed := True\<rparr>"
      using onReadableEvent_nothing [OF room(1) True, of main_callbacks t] r
      by (auto simp: onDisconnection_def main_callbacks_def invoke_def main_onDisconnection_def)
    then show ?thesis using keeps got True by (simp add: outbox_def)
  next
    case False
    obtain ins1 c1 where c1: "onReadableEvent main_callbacks t ins c = bind_res (onMessage main_callbacks c1) (\<lambda>(c2, ls). Inr (c2, ins1, ls))"
      "conn_ok c1" "inbox c1 = take (in_room c) (arrived ins)" "c1 = c\<lparr>lastActiveTime := t, readBuffer := readBuffer c1\<rparr>"
      using onReadableEvent_data [OF ok(1) room(1) False, of main_callbacks t] ok(2) by auto
    have "writeBuffer c1 = writeBuffer c" by (subst c1(4)) simp
    then have out: "outbox c1 = outbox c" by (simp add: outbox_def)
    then have "length (outbox c1) + length (inbox c1) \<le> 2 ^ 30" using room c1(3) by simp
    from main_onMessage_spec [OF c1(2) this] obtain c2 l where c2: "main_onMessage c1 = Inr (c2, l)"
      "outbox c2 = outbox c @ take (out_room c1) (c_str (inbox c1))" using out by auto
    then have "c' = c2" using r c1(1) by (simp add: onMessage_def main_callbacks_def invoke_def)
    moreover have "subseq (take (out_room c1) (c_str (inbox c1))) (inbox c1)"
      by (meson subseq_c_str prefix_imp_subseq subseq_order.order_trans take_is_prefix)
    ultimately show ?thesis using keeps got c1(3) c2(2) by (simp add: subseq_append')
  qed
qed

lemma echo_sends:
  assumes e: "echo_ready c" and r: "onWritableEvent t ks c = Inr (c', out)"
  shows "conn_id c' = conn_id c \<and> out @ outbox c' = outbox c"
proof -
  have "conn_ok c" using e by (simp add: echo_ready_def)
  with onWritableEvent_spec [OF this, of t ks] r have "out @ outbox c' = outbox c" by auto
  then show ?thesis using echo_writable [OF e, of t ks] r by auto
qed

text \<open>What connection \<open>b\<close> of a worker has sent and will send.\<close>

definition out_stream :: "worker \<Rightarrow> nat \<Rightarrow> string" where
  "out_stream w b = bytes_of (conn_id (heap w ! b)) (sent w) @ outbox (heap w ! b)"

text \<open>How the parts of \<open>handle_event\<close> move the bytes of the connection \<open>a\<close> they are for.\<close>

lemma event_error_streams: "event_error hf ev p w = Inr w' \<Longrightarrow> heap w' = heap w \<and> sent w' = sent w"
  by (auto simp: event_error_def removeConnection_def epoll_del_def bind_res_eq_Inr split: if_splits)

lemma event_close_streams: "event_close hf p w = Inr w' \<Longrightarrow> heap w' = heap w \<and> sent w' = sent w"
  by (auto simp: event_close_def removeConnection_def epoll_del_def bind_res_eq_Inr split: if_splits)

lemma event_in_streams:
  assumes "event_in main_callbacks ev (Some a) w = Inr w'" "a < length (heap w)" "echo_ready (heap w ! a)"
  shows "\<exists>c. heap w' = (heap w)[a := c] \<and> sent w' = sent w \<and> conn_id c = conn_id (heap w ! a) \<and> echo_ready c \<and>
    subseq (outbox c) (outbox (heap w ! a) @ event_reads ev (heap w ! a))"
proof (cases "has_flag (ev_flags ev) EPOLLIN")
  case False
  then show ?thesis using assms by (intro exI [of _ "heap w ! a"]) (simp add: event_in_def event_reads_def)
next
  case True
  with assms(1,2) obtain c ins ls where "onReadableEvent main_callbacks (ev_read_time ev) (ev_incoming ev) (heap w ! a) = Inr (c, ins, ls)"
    "w' = (store_conn (Some a) c w)\<lparr>logged := logged w @ ls\<rparr>"
    by (auto simp: event_in_def bind_res_eq_Inr split: prod.splits)
  then show ?thesis using echo_reads [OF assms(3)] True by (auto simp: store_conn_def event_reads_def)
qed

lemma event_out_streams:
  assumes "event_out ev (Some a) w = Inr w'" "a < length (heap w)" "echo_ready (heap w ! a)"
  shows "\<exists>c out. heap w' = (heap w)[a := c] \<and> sent w' = sent w @ out \<and> conn_id c = conn_id (heap w ! a) \<and>
    fst ` set out \<subseteq> {conn_id c} \<and> bytes_of (conn_id c) out @ outbox c = outbox (heap w ! a)"
proof (cases "has_flag (ev_flags ev) EPOLLOUT")
  case False
  then show ?thesis using assms by (intro exI [of _ "heap w ! a"] exI [of _ "[]"]) (simp add: event_out_def)
next
  case True
  with assms(1,2) obtain c out where "onWritableEvent (ev_write_time ev) (ev_accepts ev) (heap w ! a) = Inr (c, out)"
    "w' = (store_conn (Some a) c w)\<lparr>sent := sent w @ [(conn_id (heap w ! a), out)]\<rparr>"
    by (auto simp: event_out_def bind_res_eq_Inr split: prod.splits)
  then show ?thesis using echo_sends [OF assms(3)]
    by (intro exI [of _ c] exI [of _ "[(conn_id (heap w ! a), out)]"]) (auto simp: store_conn_def)
qed

lemma bytes_of_others: "fst ` set xs \<subseteq> {j} \<Longrightarrow> j \<noteq> k \<Longrightarrow> bytes_of k xs = []"
  by (auto simp: bytes_of_def filter_empty_conv)

lemma handle_event_streams:
  assumes ok: "worker_ok hf echo_ready w" and room: "card (dom (pool_map w)) < 2 ^ 29" and p: "pool_map w (ev_id ev) = Some (Some a)"
    and h: "handle_event hf main_callbacks ev w = Inr w'" and b: "b < length (heap w)"
  shows "subseq (out_stream w' b) (out_stream w b @ (if conn_id (heap w ! b) = ev_id ev then event_reads ev (heap w ! a) else [])) \<and>
    length (heap w') = length (heap w) \<and> conn_id (heap w' ! b) = conn_id (heap w ! b) \<and>
    fst ` set (sent w') \<subseteq> insert (ev_id ev) (fst ` set (sent w))"
proof -
  from worker_invD(2) [OF ok] p obtain "a < length (heap w)" and id: "conn_id (heap w ! a) = ev_id ev" by (auto elim!: pool_okE)
  note a = this(1)
  have e: "echo_ready (heap w ! a)" using worker_invD(4) [OF ok a] by simp
  obtain d where d: "dict_at hf None (ev_id ev) (connectionPool w) = Inr (Some a, d)" using pool_at [OF ok room p] by metis
  with h obtain w1 w2 w3 where st: "event_error hf ev (Some a) (w\<lparr>connectionPool := d\<rparr>) = Inr w1"
    "event_in main_callbacks ev (Some a) w1 = Inr w2" "event_out ev (Some a) w2 = Inr w3" "event_close hf (Some a) w3 = Inr w'"
    by (auto simp: handle_event_def bind_res_eq_Inr)
  have w1: "heap w1 = heap w" "sent w1 = sent w" using event_error_streams [OF st(1)] by simp_all
  obtain c where c: "heap w2 = (heap w)[a := c]" "sent w2 = sent w" "conn_id c = ev_id ev" "echo_ready c"
    "subseq (outbox c) (outbox (heap w ! a) @ event_reads ev (heap w ! a))"
    using event_in_streams [OF st(2)] w1 a e id by auto
  obtain c' out where c': "heap w3 = (heap w)[a := c']" "sent w3 = sent w @ out" "conn_id c' = ev_id ev"
    "fst ` set out \<subseteq> {ev_id ev}" "bytes_of (ev_id ev) out @ outbox c' = outbox c"
    using event_out_streams [OF st(3)] c a by auto
  have w': "heap w' = (heap w)[a := c']" "sent w' = sent w @ out" using event_close_streams [OF st(4)] c' by simp_all
  show ?thesis
  proof (cases "b = a")
    case True
    have "out_stream w' b = bytes_of (ev_id ev) (sent w) @ outbox c" using w' c'(3,5) a True by (simp add: out_stream_def)
    then show ?thesis using True w' c(5) c'(3) a id c'(4)
      by (auto simp: out_stream_def subseq_append' image_Un)
  next
    case False
    have "distinct (map conn_id (heap w))" using worker_invD(6) [OF ok] by (simp add: watch_ok_def)
    then have "conn_id (heap w ! b) \<noteq> ev_id ev" using False a b id by (metis length_map nth_eq_iff_index_eq nth_map)
    then show ?thesis using w' False bytes_of_others [OF c'(4)] c'(4) by (auto simp: out_stream_def image_Un)
  qed
qed

section \<open>One step of a worker\<close>

lemma register_streams:
  "register_loop hf main_callbacks [p] w = Inr w' \<Longrightarrow> heap w' = heap w \<and> sent w' = sent w"
proof -
  assume "register_loop hf main_callbacks [p] w = Inr w'"
  then obtain c d where c: "deref p w = Inr c" "w' = (epoll_add (connfd c) ((store_conn p c w)\<lparr>logged := logged w\<rparr>))\<lparr>connectionPool := d\<rparr>"
    by (auto simp: bind_res_eq_Inr onConnection_def main_callbacks_def invoke_def main_onConnection_def Let_def)
  then obtain a where a: "p = Some a" "a < length (heap w)" "c = heap w ! a" by (auto simp: deref_def rd_def split: option.splits if_splits)
  then have "heap w' = heap w" using c(2) by (simp add: store_conn_def epoll_add_def)
  moreover have "sent w' = sent w" using c(2) a(1) by (simp add: store_conn_def epoll_add_def)
  ultimately show ?thesis by simp
qed

text \<open>Apart from events, no step of a worker moves a byte.\<close>

lemma quiet_step_streams:
  assumes st: "worker_step hf main_callbacks conf exceed e (pc, w) = Inr (Some (pc', w'))" and pc: "\<forall>ev evs. pc \<noteq> Handling (ev # evs)"
  shows "heap w' = heap w \<and> sent w' = sent w \<and> step_reads pc w = []"
proof (cases "(hf, main_callbacks, conf, exceed, e, pc, w)" rule: worker_step.cases)
  case (5 hf cbs conf exceed e p ps w)
  then show ?thesis using st register_streams by (auto simp: bind_res_eq_Inr simp del: register_loop.simps)
qed (use st pc evictions_keep in \<open>auto simp: bind_env_eq bind_res_eq_Inr split: if_splits\<close>)

definition streams_ok :: "(64 word \<times> string) list \<Rightarrow> worker \<Rightarrow> bool" where
  "streams_ok h w \<longleftrightarrow> (\<forall>b < length (heap w). subseq (out_stream w b) (bytes_of (conn_id (heap w ! b)) h)) \<and>
     fst ` set (sent w) \<subseteq> conn_id ` set (heap w)"

lemma streams_ok_more:
  assumes "streams_ok h w" shows "streams_ok (h @ h') w"
proof -
  have "subseq xs (ys @ zs)" if "subseq xs ys" for xs ys zs :: string
    using subseq_order.order_trans [OF that, of "ys @ zs"] by (simp add: prefix_imp_subseq)
  with assms show ?thesis by (auto simp: streams_ok_def)
qed

lemma worker_step_streams:
  assumes ok: "worker_ok hf echo_ready w" "pc_ok pc w" and room: "card (dom (pool_map w)) < 2 ^ 29" and h: "streams_ok h w"
    and st: "worker_step hf main_callbacks conf exceed e (pc, w) = Inr (Some (pc', w'))"
  shows "streams_ok (h @ step_reads pc w) w'"
proof (cases "\<exists>ev evs. pc = Handling (ev # evs)")
  case False
  then have "heap w' = heap w" "sent w' = sent w" "step_reads pc w = []" using quiet_step_streams [OF st] by auto
  then show ?thesis using h by (simp add: streams_ok_def out_stream_def)
next
  case True
  then obtain ev evs where pc: "pc = Handling (ev # evs)" by blast
  then have "ev_id ev \<in> dom (pool_map w)" using ok(2) by (simp add: pc_ok_def round_events_def)
  then obtain x where x: "pool_map w (ev_id ev) = Some x" by blast
  with worker_invD(2) [OF ok(1)] obtain a where a: "x = Some a" "a < length (heap w)" "conn_id (heap w ! a) = ev_id ev" by (rule pool_okE)
  note p = x [unfolded a(1)]
  have hd: "handle_event hf main_callbacks ev w = Inr w'" using st pc by (auto simp: bind_res_eq_Inr)
  let ?r = "event_reads ev (heap w ! a)"
  have reads: "step_reads pc w = [(ev_id ev, ?r)]" using pc p by simp
  note one = handle_event_streams [OF ok(1) room p hd]
  have len: "length (heap w') = length (heap w)" using one [OF a(2)] by simp
  have "subseq (out_stream w' b) (bytes_of (conn_id (heap w' ! b)) (h @ step_reads pc w))" if "b < length (heap w)" for b
  proof -
    have "subseq (out_stream w b @ (if conn_id (heap w ! b) = ev_id ev then ?r else []))
        (bytes_of (conn_id (heap w ! b)) h @ (if conn_id (heap w ! b) = ev_id ev then ?r else []))"
      using h that by (simp add: streams_ok_def)
    then have "subseq (out_stream w' b) (bytes_of (conn_id (heap w ! b)) h @ (if conn_id (heap w ! b) = ev_id ev then ?r else []))"
      using one [OF that] subseq_order.order_trans by blast
    moreover have "bytes_of (conn_id (heap w ! b)) (h @ step_reads pc w) =
        bytes_of (conn_id (heap w ! b)) h @ (if conn_id (heap w ! b) = ev_id ev then ?r else [])"
      unfolding reads by (simp only: bytes_of_simps) auto
    ultimately show ?thesis using one [OF that] by simp
  qed
  moreover have "fst ` set (sent w') \<subseteq> conn_id ` set (heap w')"
  proof -
    have "map conn_id (heap w') = map conn_id (heap w)" using one len by (intro nth_equalityI) simp_all
    then have "conn_id ` set (heap w') = conn_id ` set (heap w)" by (metis list.set_map)
    moreover have "fst ` set (sent w') \<subseteq> insert (ev_id ev) (fst ` set (sent w))"
      using one [OF a(2)] by simp
    moreover have "ev_id ev \<in> conn_id ` set (heap w)" using a(2,3) by (metis image_eqI nth_mem)
    moreover have "fst ` set (sent w) \<subseteq> conn_id ` set (heap w)" using h by (simp add: streams_ok_def)
    ultimately show ?thesis by (metis (no_types, lifting) insert_subset order_trans)
  qed
  ultimately show ?thesis using len by (simp add: streams_ok_def)
qed

section \<open>The system\<close>

lemma fresh_outbox: "TcpConnection_new i fd peer rinit rmax winit wmax flags setfl now = Inr c \<Longrightarrow> outbox c = []"
  by (auto simp: TcpConnection_new_def Buffer_new_def bind_res_eq_Inr outbox_def contents_def split: if_splits)

lemma newConnection_pushes:
  assumes "newConnection iphash e fd peer s = Inr s'"
  shows "\<exists>k c. threadPool s' = (threadPool s)[k := push_connection c (threadPool s ! k)] \<and> k < length (threadPool s) \<and> outbox c = []"
proof -
  from assms obtain k s1 w c where n: "load_balance iphash (ae_rand e) (getIP peer) s = Inr (k, s1)" "rd (threadPool s1) (int k) = Inr w"
    "outbox c = []" "threadPool s' = (threadPool s1)[k := push_connection c w]"
    by (auto simp: newConnection_def bind_res_eq_Inr Let_def dest!: fresh_outbox split: prod.splits)
  have "threadPool s1 = threadPool s"
    using n(1) by (auto simp: load_balance_def loadBalanceRoundRobin_def loadBalanceRandom_def loadBalanceMinConnection_def
        loadBalanceIPHash_def bind_res_eq_Inr split: option.splits list.splits balance.splits)
  then show ?thesis using n(2-4) by (auto simp: rd_def split: if_splits)
qed

definition system_streams_ok :: "(64 word \<times> string) list \<Rightarrow> system \<Rightarrow> bool" where
  "system_streams_ok h s \<longleftrightarrow> (\<forall>w \<in> set (threadPool (srv s)). streams_ok h w)"

lemma push_streams:
  assumes h: "streams_ok h w" and c: "outbox c = []" "conn_id c \<notin> conn_id ` set (heap w)"
  shows "streams_ok h (push_connection c w)"
proof -
  have w: "heap (push_connection c w) = heap w @ [c]" "sent (push_connection c w) = sent w"
    by (simp_all add: push_connection_def enqueue_connection_def)
  have "bytes_of (conn_id c) (sent w) = []" using h c(2) by (force simp: streams_ok_def bytes_of_def filter_empty_conv)
  then show ?thesis using h c(1) w by (auto simp: streams_ok_def out_stream_def nth_append less_Suc_eq)
qed

lemma sys_step_streams:
  assumes inv: "sys_inv hf s" and os: "os_allows act s" and st: "sys_step hf iphash main_callbacks act s = Inr (Some s')"
    and h: "system_streams_ok h s"
  shows "system_streams_ok (h @ action_reads act s) s'"
proof (cases act)
  case (Connect e fd peer)
  then obtain s1 where s1: "newConnection iphash e fd peer (srv s) = Inr s1" "s' = s\<lparr>srv := s1\<rparr>" using st by (auto simp: bind_res_eq_Inr)
  obtain k c where k: "threadPool s1 = (threadPool (srv s))[k := push_connection c (threadPool (srv s) ! k)]" "k < length (threadPool (srv s))"
    "outbox c = []" using newConnection_pushes [OF s1(1)] by blast
  let ?w = "threadPool (srv s) ! k"
  have w: "?w \<in> set (threadPool (srv s))" using k(2) by simp
  have "server_inv hf echo_ready s1" using connect_inv [OF inv, of e fd peer iphash main_callbacks] os Connect s1(1) newConnection_env [OF s1(1)] by (auto simp: sys_inv_def)
  then have "distinct (server_ids s1)" by (simp add: server_inv_def)
  moreover have "push_connection c ?w \<in> set (threadPool s1)" using k by (simp add: set_update_memI)
  ultimately have "distinct (map conn_id (heap (push_connection c ?w)))" unfolding server_ids_def distinct_concat_iff by auto
  then have "conn_id c \<notin> conn_id ` set (heap ?w)" by (simp add: push_connection_def enqueue_connection_def)
  then have "streams_ok h (push_connection c ?w)" using push_streams h w k(3) by (auto simp: system_streams_ok_def)
  then show ?thesis using h k(1) s1(2) Connect
    by (auto simp: system_streams_ok_def dest!: set_update_subset_insert [THEN subsetD])
next
  case (Cron now vm r)
  then show ?thesis using st h by (auto simp: bind_res_eq_Inr serverCron_def checkMaxMemory_def system_streams_ok_def)
next
  case (Accept_Error er)
  then show ?thesis using st h by (auto split: if_splits)
next
  case (Peer_Gone i)
  then show ?thesis using st h by (auto split: if_splits)
next
  case (Step i e)
  show ?thesis
  proof (cases "i < length (pcs s)")
    case True
    note d = sys_invD [OF inv]
    let ?w = "threadPool (srv s) ! i" and ?h = "h @ action_reads act s"
    have il: "i < length (threadPool (srv s))" using True d(3) by simp
    then have w: "?w \<in> set (threadPool (srv s))" by simp
    have ok: "worker_ok hf echo_ready ?w" using d(4) [OF True] by (rule worker_ok_taken)
    have "card (dom (pool_map ?w)) < 2 ^ 29" using pool_queue_le_heap [OF ok] heap_le_server [OF w] d(8,9) by simp
    moreover obtain pc w' where pw: "worker_step hf main_callbacks (cfg (srv s)) (exceedMaxMemory (srv s)) e (pcs s ! i, ?w) = Inr (Some (pc, w'))"
      "s' = s\<lparr>pcs := (pcs s)[i := pc], srv := (srv s)\<lparr>threadPool := (threadPool (srv s))[i := w']\<rparr>\<rparr>"
      using st Step True by (auto simp: bind_env_eq)
    moreover have "streams_ok h ?w" using h w by (simp add: system_streams_ok_def)
    ultimately have "streams_ok ?h w'" using worker_step_streams [OF ok d(5) [OF True]] Step True by simp
    then show ?thesis using h pw(2) streams_ok_more
      by (auto simp: system_streams_ok_def dest!: set_update_subset_insert [THEN subsetD])
  qed (use st h Step in simp)
qed

lemma history_reachable: "sys_history hf iphash s h \<Longrightarrow> sys_reachable hf iphash main_callbacks s"
  by (induction rule: sys_history.induct) (auto intro: sys_reachable.intros)

lemma start_workers:
  assumes "sys_start file now n = Inr s"
  shows "\<exists>m. threadPool (srv s) = replicate (nat n) (setMaxConnection m Worker_new)"
proof -
  from assms obtain s0 where "TcpServer_new file now = Inr s0" "server_start n s0 = Inr (srv s)"
    by (auto simp: sys_start_def bind_res_eq_Inr)
  moreover from this(1) have "threadPool s0 = []" by (auto simp: TcpServer_new_def bind_res_eq_Inr)
  ultimately have "\<exists>m. s0\<lparr>threadPool := replicate (nat n) (setMaxConnection m Worker_new)\<rparr> = srv s"
    by (auto simp: server_start_def start_loop_fresh bind_res_eq_Inr Let_def)
  then show ?thesis by (metis server.select_convs(2) server.surjective server.update_convs(2))
qed

lemma history_streams: "sys_history hf iphash s h \<Longrightarrow> system_streams_ok h s"
proof (induction rule: sys_history.induct)
  case (start fl now n s)
  obtain m where "threadPool (srv s) = replicate (nat n) (setMaxConnection m Worker_new)" using start_workers [OF start(1)] by blast
  then show ?case by (simp add: system_streams_ok_def streams_ok_def setMaxConnection_def Worker_new_def)
next
  case (step s h act s')
  then show ?case using sys_step_streams [OF reachable_inv [OF history_reachable]] by blast
qed

lemma reachable_history: "sys_reachable hf iphash main_callbacks s \<Longrightarrow> \<exists>h. sys_history hf iphash s h"
  by (induction rule: sys_reachable.induct) (auto intro: sys_history.intros)

section \<open>Properties\<close>

text \<open>C5: Connections are isolated from each other. In any run of the echo server, with any number of clients whose events the
  workers handle in any order while connections come and go, what the sockets have taken for a connection, followed by
  what waits in it to be sent, is a subsequence of what has been read from that same connection: no client ever gets
  bytes that it has not sent itself, nor in another order, nor twice.\<close>

theorem echo_isolation:
  assumes "sys_history hf iphash s h" "w \<in> set (threadPool (srv s))"
  shows "subseq (bytes_of k (sent w)) (bytes_of k h) \<and>
    (\<forall>b < length (heap w). subseq (bytes_of (conn_id (heap w ! b)) (sent w) @ outbox (heap w ! b)) (bytes_of (conn_id (heap w ! b)) h))"
proof -
  have ok: "streams_ok h w" using history_streams [OF assms(1)] assms(2) by (simp add: system_streams_ok_def)
  have "subseq (bytes_of k (sent w)) (bytes_of k h)"
  proof (cases "k \<in> conn_id ` set (heap w)")
    case True
    then obtain b where "b < length (heap w)" "conn_id (heap w ! b) = k" by (auto simp: in_set_conv_nth)
    then have "subseq (bytes_of k (sent w) @ outbox (heap w ! b)) (bytes_of k h)" using ok by (auto simp: streams_ok_def out_stream_def)
    then show ?thesis using subseq_order.order_trans [OF list_emb_append2] by (meson list_emb_append2 prefix_imp_subseq prefixI subseq_order.order_trans)
  next
    case False
    then have "bytes_of k (sent w) = []" using ok by (force simp: streams_ok_def bytes_of_def filter_empty_conv)
    then show ?thesis by simp
  qed
  then show ?thesis using ok by (auto simp: streams_ok_def out_stream_def)
qed

lemma echo_isolation_witness:
  "\<exists>s h w. sys_history id (\<lambda>_. 1) s h \<and> w \<in> set (threadPool (srv s)) \<and> sent w = [(1, ''hi'')] \<and> subseq ''hi'' (bytes_of 1 h)"
proof -
  obtain s s1 s2 where s: "sys_reachable id (\<lambda>_. 1) main_callbacks s" "os_allows (Step 1 demo_exchange) s"
    "sys_step id (\<lambda>_. 1) main_callbacks (Step 1 demo_exchange) s = Inr (Some s1)" "os_allows (Step 1 quiet) s1"
    "sys_step id (\<lambda>_. 1) main_callbacks (Step 1 quiet) s1 = Inr (Some s2)" "1 < length (threadPool (srv s2))"
    "sent (threadPool (srv s2) ! 1) = [(1, ''hi'')]" using demo_exchange_run by blast
  obtain h0 where "sys_history id (\<lambda>_. 1) s h0" using reachable_history [OF s(1)] by blast
  from sys_history.step [OF sys_history.step [OF this s(2,3)] s(4,5)] obtain h where h: "sys_history id (\<lambda>_. 1) s2 h" by blast
  have w: "threadPool (srv s2) ! 1 \<in> set (threadPool (srv s2))" using s(6) by simp
  from echo_isolation [OF h w, of 1] s(7) have "subseq ''hi'' (bytes_of 1 h)" by (simp add: bytes_of_def)
  with h w s(7) show ?thesis by blast
qed

end
