(* ===== verification/Fair_Runs.thy ===== *)
theory Fair_Runs
  imports Worker_Frames
begin

text \<open>
  Liveness of the running server. A run is an infinite sequence of the steps of \<open>Whole_Server\<close>: the main thread accepts
  connections and does its periodic work, the workers run their loops (\<open>Worker::workFunction\<close>, \<open>Worker::registerNewConnection\<close>),
  interleaved in any way, as long as every worker gets its turn again and again. A connection that waits in the queue of a
  worker has a rank, which no step of another thread changes and every step of its worker lessens.
\<close>

section \<open>Waiting connections\<close>

definition waits :: "nat \<Rightarrow> worker_pc \<Rightarrow> worker \<Rightarrow> bool" where
  "waits a pc w \<longleftrightarrow> Some a \<in> set (taken pc @ incomingConnection w)"

text \<open>How far the worker is from the registration: first the phases of its loop, then what is left to do in the phase.\<close>

definition wait_rank :: "nat \<Rightarrow> worker_pc \<Rightarrow> nat \<times> nat" where
  "wait_rank a pc = (case pc of
       Registering ps \<Rightarrow> if Some a \<in> set ps then (1, length (takeWhile (\<lambda>p. p \<noteq> Some a) ps)) else (6, length ps)
     | Managing \<Rightarrow> (5, 0)
     | Limiting \<Rightarrow> (4, 0)
     | Polling \<Rightarrow> (3, 0)
     | Handling evs \<Rightarrow> (2, length evs))"

definition rank_less :: "((nat \<times> nat) \<times> (nat \<times> nat)) set" where
  "rank_less = less_than <*lex*> less_than"

lemma wf_rank_less: "wf rank_less"
  by (simp add: rank_less_def wf_lex_prod)

text \<open>A connection keeps its id and its descriptor.\<close>

definition keeps_conns :: "worker \<Rightarrow> worker \<Rightarrow> bool" where
  "keeps_conns w w' \<longleftrightarrow> length (heap w) \<le> length (heap w') \<and>
     (\<forall>a < length (heap w). conn_id (heap w' ! a) = conn_id (heap w ! a) \<and> connfd (heap w' ! a) = connfd (heap w ! a))"

lemma same_keeps: "same_conns w w' \<Longrightarrow> keeps_conns w w'"
  using same_connsD [of w w'] by (simp add: keeps_conns_def)

lemma push_keeps: "keeps_conns w (push_connection c w)"
  by (simp add: keeps_conns_def push_connection_def enqueue_connection_def nth_append)

lemma keeps_refl [simp]: "keeps_conns w w"
  by (simp add: keeps_conns_def)

lemma keeps_trans: "keeps_conns w w1 \<Longrightarrow> keeps_conns w1 w2 \<Longrightarrow> keeps_conns w w2"
  by (simp add: keeps_conns_def)

lemma waits_push: "waits a pc w \<Longrightarrow> waits a pc (push_connection c w)"
  by (auto simp: waits_def push_connection_def enqueue_connection_def)

lemma waits_in_heap:
  assumes "worker_ok hf G (with_taken pc w)" "waits a pc w"
  shows "a < length (heap w)"
proof -
  from worker_invD(3) [OF assms(1)] obtain as where as: "taken pc @ incomingConnection w = map Some as"
    by (auto simp: queue_ok_def with_taken_def)
  then have "a \<in> set as" using assms(2) by (auto simp: waits_def)
  then show ?thesis using queue_okD(1) [OF worker_invD(3) [OF assms(1)], of as] as by (simp add: with_taken_def)
qed

context event_contract begin

lemma worker_step_waits:
  assumes ok: "worker_ok hf G (with_taken pc w)" "pc_ok pc w" and small: "length (heap w) < 2 ^ 29"
    and st: "worker_step hf cbs conf exceed e (pc, w) = Inr (Some (pc', w'))" and wt: "waits a pc w"
  shows "pool_map w' (conn_id (heap w ! a)) = Some (Some a) \<or> waits a pc' w' \<and> (wait_rank a pc', wait_rank a pc) \<in> rank_less"
proof -
  have okw: "worker_ok hf G w" using ok(1) by (rule worker_ok_taken)
  have room: "card (dom (pool_map w)) < 2 ^ 29" using pool_queue_le_heap [OF okw] small by simp
  show ?thesis
  proof (cases pc)
    case Polling
    then show ?thesis using st wt by (auto simp: waits_def wait_rank_def rank_less_def)
  next
    case (Handling evs)
    show ?thesis
    proof (cases evs)
      case Nil
      then show ?thesis using st wt Handling by (auto simp: waits_def wait_rank_def rank_less_def)
    next
      case (Cons ev evs')
      have "round_events w (ev # evs')" using ok(2) Handling Cons by (simp add: pc_ok_def)
      then obtain w1 where "handle_event hf cbs ev w = Inr w1" "incomingConnection w1 = incomingConnection w"
        using handle_event_ok [OF okw room, of ev] by (auto simp: round_events_def)
      then show ?thesis using Handling Cons st wt by (auto simp: waits_def wait_rank_def rank_less_def)
    qed
  next
    case (Registering ps)
    show ?thesis
    proof (cases ps)
      case Nil
      then show ?thesis using st wt Registering by (auto simp: waits_def wait_rank_def rank_less_def)
    next
      case (Cons p ps')
      have q: "with_taken pc w = w\<lparr>incomingConnection := p # ps' @ incomingConnection w\<rparr>"
        using Registering Cons by (simp add: with_taken_def taken_def)
      from worker_invD(3) [OF ok(1)] obtain b as where as: "p = Some b" "ps' @ incomingConnection w = map Some as"
        unfolding q queue_ok_def by (auto simp: Cons_eq_map_conv)
      have "worker_ok hf G (w\<lparr>incomingConnection := map Some (b # as)\<rparr>)" using ok(1) as unfolding q by simp
      from register_one_ok [OF this room] obtain w1 where w1: "register_loop hf cbs [p] w = Inr w1"
        "incomingConnection w1 = incomingConnection w" "pool_map w1 = (pool_map w)(conn_id (heap w ! b) \<mapsto> Some b)" using as(1) by auto
      have eq: "pc' = Registering ps'" "w' = w1" using st Registering Cons w1(1) by (simp_all del: register_loop.simps)
      show ?thesis
      proof (cases "b = a")
        case True
        then show ?thesis using w1(3) eq by simp
      next
        case False
        then show ?thesis using wt eq Registering Cons as(1) w1(2) by (auto simp: waits_def wait_rank_def rank_less_def)
      qed
    qed
  next
    case Managing
    then have "pc' = Limiting" "incomingConnection w' = incomingConnection w"
      using st worker_step_frame [OF st] by (auto simp: bind_env_eq)
    then show ?thesis using Managing wt by (auto simp: waits_def wait_rank_def rank_less_def)
  next
    case Limiting
    then have "pc' = Polling" "incomingConnection w' = incomingConnection w"
      using st worker_step_frame [OF st] by (auto simp: bind_env_eq bind_res_eq_Inr split: if_splits)
    then show ?thesis using Limiting wt by (auto simp: waits_def wait_rank_def rank_less_def)
  qed
qed

end

section \<open>Steps of the system\<close>

abbreviation the_worker :: "nat \<Rightarrow> system \<Rightarrow> worker" where "the_worker i s \<equiv> threadPool (srv s) ! i"

definition registered :: "nat \<Rightarrow> nat \<Rightarrow> 64 word \<Rightarrow> system \<Rightarrow> bool" where
  "registered i a k s \<longleftrightarrow> pool_map (the_worker i s) k = Some (Some a)"

text \<open>What a step does to worker \<open>i\<close>.\<close>

lemma connect_env:
  "sys_step hf iphash cbs (Connect e fd peer) s = Inr (Some s') \<Longrightarrow> 0 \<le> ae_flags e \<and> 0 \<le> ae_setfl e"
  by (auto simp: bind_res_eq_Inr dest: newConnection_env)

lemma sys_step_worker:
  assumes inv: "sys_inv hf s" and os: "os_allows act s" and st: "sys_step hf iphash main_callbacks act s = Inr (Some s')"
    and i: "i < length (pcs s)"
  shows "length (pcs s') = length (pcs s) \<and> keeps_conns (the_worker i s) (the_worker i s') \<and>
    (if \<exists>e. act = Step i e
     then \<exists>e. act = Step i e \<and> worker_step hf main_callbacks (cfg (srv s)) (exceedMaxMemory (srv s)) e (pcs s ! i, the_worker i s) =
        Inr (Some (pcs s' ! i, the_worker i s'))
     else pcs s' ! i = pcs s ! i \<and> (the_worker i s' = the_worker i s \<or> (\<exists>c. the_worker i s' = push_connection c (the_worker i s))))"
proof (cases act)
  case (Connect e fd peer)
  note d = sys_invD [OF inv]
  have conf: "buffer_config (cfg (srv s))" "loadBalance (cfg (srv s)) \<noteq> None" using d(1) by (simp_all add: sys_config_def)
  have small: "unat (last_id (srv s)) < 2 ^ 28" using os Connect by simp
  then have "rr_index (srv s) < INT_MAX" "last_id (srv s) < NO_ID"
    using d(7) by (simp_all add: INT_MAX_def NO_ID_def word_less_nat_alt del: of_nat_unat)
  then obtain s1 k c where "newConnection iphash e fd peer (srv s) = Inr s1" "k < length (threadPool (srv s))"
    "threadPool s1 = (threadPool (srv s))[k := push_connection c (threadPool (srv s) ! k)]"
    using newConnection_ok [OF d(6) conf d(2), of e fd iphash peer] os Connect connect_env [OF st [unfolded Connect]]
    by (auto simp: env_ok_def)
  then show ?thesis using st Connect i d(3) push_keeps by (auto simp: nth_list_update) blast
next
  case (Cron now vm r)
  then show ?thesis using st by (auto simp: bind_res_eq_Inr serverCron_def checkMaxMemory_def)
next
  case (Accept_Error er)
  then show ?thesis using st by (auto split: if_splits)
next
  case (Peer_Gone j)
  then show ?thesis using st by (auto split: if_splits)
next
  case (Step j e)
  note d = sys_invD [OF inv]
  show ?thesis
  proof (cases "j < length (pcs s)")
    case True
    then obtain r where r: "worker_step hf main_callbacks (cfg (srv s)) (exceedMaxMemory (srv s)) e (pcs s ! j, the_worker j s) = Inr r"
      using st Step by (auto simp: bind_env_def bind_res_eq_Inr)
    with st Step True obtain pc w where pw: "r = Some (pc, w)" "s' = s\<lparr>pcs := (pcs s)[j := pc], srv := (srv s)\<lparr>threadPool := (threadPool (srv s))[j := w]\<rparr>\<rparr>"
      by (cases r) auto
    show ?thesis
    proof (cases "j = i")
      case True
      have wi: "the_worker i s \<in> set (threadPool (srv s))" using i d(3) by simp
      have "length (heap (the_worker i s)) < 2 ^ 29" using heap_le_server [OF wi] d(8,9) by simp
      moreover have "limits_set (cfg (srv s))" using d(1) by (simp add: sys_config_def)
      ultimately have "same_conns (the_worker i s) w"
        using echo.worker_step_ok [OF d(4,5) [OF i], of "cfg (srv s)" e "exceedMaxMemory (srv s)"] os Step True r pw(1) i by auto
      then show ?thesis using r pw Step True i d(3) same_keeps by auto
    next
      case False
      then show ?thesis using pw Step i d(3) by auto
    qed
  next
    case False
    then show ?thesis using st Step i by auto
  qed
qed

lemma sys_step_waits:
  assumes inv: "sys_inv hf s" and os: "os_allows act s" and st: "sys_step hf iphash main_callbacks act s = Inr (Some s')"
    and i: "i < length (pcs s)" and wt: "waits a (pcs s ! i) (the_worker i s)"
  shows "registered i a (conn_id (heap (the_worker i s) ! a)) s' \<or>
    waits a (pcs s' ! i) (the_worker i s') \<and>
    (if \<exists>e. act = Step i e then (wait_rank a (pcs s' ! i), wait_rank a (pcs s ! i)) \<in> rank_less else pcs s' ! i = pcs s ! i)"
proof (cases "\<exists>e. act = Step i e")
  case True
  note d = sys_invD [OF inv]
  obtain e where e: "act = Step i e" "worker_step hf main_callbacks (cfg (srv s)) (exceedMaxMemory (srv s)) e (pcs s ! i, the_worker i s) =
        Inr (Some (pcs s' ! i, the_worker i s'))" using sys_step_worker [OF inv os st i] True by auto
  have w: "the_worker i s \<in> set (threadPool (srv s))" using i d(3) by simp
  have "length (heap (the_worker i s)) < 2 ^ 29" using heap_le_server [OF w] d(8,9) by simp
  then show ?thesis using echo.worker_step_waits [OF d(4,5) [OF i] _ e(2) wt] os e(1) True
    by (auto simp: registered_def)
next
  case False
  then show ?thesis using sys_step_worker [OF inv os st i] wt waits_push by auto
qed

section \<open>Runs\<close>

definition sys_path :: "(64 word \<Rightarrow> 64 word) \<Rightarrow> (32 word \<Rightarrow> 64 word) \<Rightarrow> (nat \<Rightarrow> system) \<Rightarrow> (nat \<Rightarrow> action) \<Rightarrow> bool" where
  "sys_path hf iphash run acts \<longleftrightarrow> sys_reachable hf iphash main_callbacks (run 0) \<and>
     (\<forall>n. os_allows (acts n) (run n) \<and> sys_step hf iphash main_callbacks (acts n) (run n) = Inr (Some (run (Suc n))))"

definition gets_turns :: "nat \<Rightarrow> (nat \<Rightarrow> action) \<Rightarrow> bool" where
  "gets_turns i acts \<longleftrightarrow> (\<forall>n. \<exists>m \<ge> n. \<exists>e. acts m = Step i e)"

lemma sys_pathD:
  assumes "sys_path hf iphash run acts"
  shows "os_allows (acts n) (run n)" "sys_step hf iphash main_callbacks (acts n) (run n) = Inr (Some (run (Suc n)))"
    "sys_reachable hf iphash main_callbacks (run n)" "sys_inv hf (run n)"
proof -
  show os: "os_allows (acts n) (run n)" "sys_step hf iphash main_callbacks (acts n) (run n) = Inr (Some (run (Suc n)))" for n
    using assms by (simp_all add: sys_path_def)
  show r: "sys_reachable hf iphash main_callbacks (run n)" for n
    using assms os by (induction n) (auto simp: sys_path_def intro: sys_reachable.step)
  show "sys_inv hf (run n)" by (rule reachable_inv [OF r])
qed

lemma path_workers:
  assumes "sys_path hf iphash run acts" "i < length (pcs (run n))"
  shows "i < length (pcs (run (n + k))) \<and> keeps_conns (the_worker i (run n)) (the_worker i (run (n + k)))"
proof (induction k)
  case (Suc k)
  note p = sys_pathD [OF assms(1), of "n + k"]
  from sys_step_worker [OF p(4) p(1) p(2)] Suc show ?case using keeps_trans by auto
qed (use assms(2) in simp)

lemma waiting_gets_registered:
  assumes path: "sys_path hf iphash run acts" and fair: "gets_turns i acts"
    and n: "i < length (pcs (run n))" "waits a (pcs (run n) ! i) (the_worker i (run n))"
    "k = conn_id (heap (the_worker i (run n)) ! a)"
  shows "\<exists>m > n. registered i a k (run m)"
proof (rule fair_progress [OF wf_rank_less])
  let ?W = "\<lambda>m. i < length (pcs (run m)) \<and> waits a (pcs (run m) ! i) (the_worker i (run m)) \<and>
    k = conn_id (heap (the_worker i (run m)) ! a)"
  have key: "k = conn_id (heap (the_worker i (run (Suc m))) ! a) \<and> i < length (pcs (run (Suc m)))" if "?W m" for m
    using path_workers [OF path conjunct1 [OF that], of 1] waits_in_heap [OF sys_invD(4) [OF sys_pathD(4) [OF path]]] that
    by (simp add: keeps_conns_def)
  note p = sys_pathD [OF path]
  show "\<exists>m \<ge> n. \<exists>e. acts m = Step i e" for n using fair by (simp add: gets_turns_def)
  show "?W n" using n by simp
  show "registered i a k (run (Suc m)) \<or> ?W (Suc m) \<and> wait_rank a (pcs (run (Suc m)) ! i) = wait_rank a (pcs (run m) ! i)"
    if "?W m" "\<not> (\<exists>e. acts m = Step i e)" for m
    using sys_step_waits [OF p(4) p(1) p(2), of i m a] key [OF that(1)] that by auto
  show "registered i a k (run (Suc m)) \<or>
      ?W (Suc m) \<and> (wait_rank a (pcs (run (Suc m)) ! i), wait_rank a (pcs (run m) ! i)) \<in> rank_less"
    if "?W m" "\<exists>e. acts m = Step i e" for m
    using sys_step_waits [OF p(4) p(1) p(2), of i m a] key [OF that(1)] that by auto
qed

lemma connect_waits:
  assumes inv: "sys_inv hf s" and os: "os_allows (Connect e fd peer) s"
    and st: "sys_step hf iphash main_callbacks (Connect e fd peer) s = Inr (Some s')"
  shows "\<exists>i a. i < length (pcs s') \<and> waits a (pcs s' ! i) (the_worker i s') \<and> a < length (heap (the_worker i s')) \<and>
    conn_id (heap (the_worker i s') ! a) = last_id (srv s) + 1 \<and> connfd (heap (the_worker i s') ! a) = fd"
proof -
  note d = sys_invD [OF inv]
  have conf: "buffer_config (cfg (srv s))" "loadBalance (cfg (srv s)) \<noteq> None" using d(1) by (simp_all add: sys_config_def)
  have small: "unat (last_id (srv s)) < 2 ^ 28" and fd: "fd \<notin> set (server_fds (srv s))" using os by simp_all
  then have "rr_index (srv s) < INT_MAX" "last_id (srv s) < NO_ID"
    using d(7) by (simp_all add: INT_MAX_def NO_ID_def word_less_nat_alt del: of_nat_unat)
  then obtain s1 k c where s1: "newConnection iphash e fd peer (srv s) = Inr s1" "k < length (threadPool (srv s))"
    "threadPool s1 = (threadPool (srv s))[k := push_connection c (threadPool (srv s) ! k)]"
    "conn_id c = last_id (srv s) + 1" "set (server_fds s1) = insert fd (set (server_fds (srv s)))"
    using newConnection_ok [OF d(6) conf d(2), of e fd iphash peer] os connect_env [OF st] by (auto simp: env_ok_def)
  let ?w = "threadPool (srv s) ! k"
  have s': "s' = s\<lparr>srv := s1\<rparr>" using st s1(1) by simp
  have h: "heap (push_connection c ?w) = heap ?w @ [c]" "Some (length (heap ?w)) \<in> set (incomingConnection (push_connection c ?w))"
    by (simp_all add: push_connection_def enqueue_connection_def)
  have "set (server_fds s1) = insert (connfd c) (set (server_fds (srv s)))"
    unfolding server_fds_def s1(3)
    using set_concat_update [OF s1(2), of "\<lambda>w. map connfd (heap w)" "push_connection c ?w" "connfd c"] h(1) by simp
  then have "fd \<in> insert (connfd c) (set (server_fds (srv s)))" using s1(5) by blast
  then have "connfd c = fd" using fd by simp
  then show ?thesis using s' s1(2-4) h d(3)
    by (intro exI [of _ k] exI [of _ "length (heap ?w)"]) (simp add: waits_def)
qed

section \<open>Properties\<close>

text \<open>C6: Every client is served. In any run of the whole server in which every worker gets its turn again and again, whatever the
  main thread and the other workers do meanwhile, a connection that is accepted is registered in the end: it is in the
  pool of one of the workers under its id, with the descriptor that accept gave.\<close>

theorem every_connection_registered:
  assumes "sys_path hf iphash run acts" "\<forall>i < length (pcs (run 0)). gets_turns i acts" "acts n = Connect e fd peer"
  shows "\<exists>m > n. \<exists>i a. i < length (pcs (run 0)) \<and>
    pool_map (threadPool (srv (run m)) ! i) (last_id (srv (run n)) + 1) = Some (Some a) \<and>
    connfd (heap (threadPool (srv (run m)) ! i) ! a) = fd"
proof -
  have len: "length (pcs (run m)) = length (pcs (run 0))" for m
  proof (induction m)
    case (Suc m)
    note p = sys_pathD [OF assms(1), of m] and d = sys_invD [OF sys_pathD(4) [OF assms(1)]]
    have "0 < length (pcs (run m))" using d(2,3) [of m] by simp
    from sys_step_worker [OF p(4) p(1) p(2) this] Suc show ?case by simp
  qed simp
  note p = sys_pathD [OF assms(1), of n, unfolded assms(3)]
  obtain i a where w: "i < length (pcs (run (Suc n)))" "waits a (pcs (run (Suc n)) ! i) (the_worker i (run (Suc n)))"
    "a < length (heap (the_worker i (run (Suc n))))" "conn_id (heap (the_worker i (run (Suc n))) ! a) = last_id (srv (run n)) + 1"
    "connfd (heap (the_worker i (run (Suc n))) ! a) = fd"
    using connect_waits [OF p(4) p(1) p(2)] by blast
  have il: "i < length (pcs (run 0))" using len w(1) by metis
  then have "gets_turns i acts" using assms(2) by blast
  from waiting_gets_registered [OF assms(1) this w(1,2) w(4) [symmetric]] obtain m where
    m: "Suc n < m" "registered i a (last_id (srv (run n)) + 1) (run m)" by blast
  have "connfd (heap (the_worker i (run m)) ! a) = fd"
    using path_workers [OF assms(1) w(1), of "m - Suc n"] m(1) w(3,5) by (simp add: keeps_conns_def)
  then show ?thesis using m il unfolding registered_def by (metis Suc_lessD)
qed

text \<open>A run: a client connects, and the two workers take turns.\<close>

definition quiet_next :: "config \<Rightarrow> worker_pc \<times> worker \<Rightarrow> worker_pc \<times> worker" where
  "quiet_next conf x = (case worker_step id main_callbacks conf False quiet x of Inr (Some y) \<Rightarrow> y | _ \<Rightarrow> x)"

definition idle_states :: "worker \<Rightarrow> (worker_pc \<times> worker) set" where
  "idle_states w = {(Polling, w), (Handling [], w), (Registering [], w), (Managing, w), (Limiting, w)}"

definition demo_states :: "(worker_pc \<times> worker) set" where
  "demo_states = (let w = push_connection (demo_connection demo_buffer demo_buffer) (setMaxConnection 50 Worker_new)
     in {(Polling, w), (Handling [], w), (Registering [Some 0], w\<lparr>incomingConnection := []\<rparr>)} \<union>
        idle_states (demo_worker demo_buffer demo_buffer))"

lemma idle_moves:
  assumes "w = setMaxConnection 50 Worker_new \<or> w = demo_worker rb wb" "x \<in> idle_states w"
  shows "\<exists>y \<in> idle_states w. worker_step id main_callbacks fixed_config False quiet x = Inr (Some y)"
proof -
  have "incomingConnection w = []" "w\<lparr>incomingConnection := []\<rparr> = w"
    using assms(1) by (auto simp: setMaxConnection_def Worker_new_def demo_worker_def)
  moreover have "worker_step id main_callbacks fixed_config False quiet (Managing, setMaxConnection 50 Worker_new) =
      Inr (Some (Limiting, setMaxConnection 50 Worker_new))"
    "worker_step id main_callbacks fixed_config False quiet (Limiting, setMaxConnection 50 Worker_new) =
      Inr (Some (Polling, setMaxConnection 50 Worker_new))" by code_simp+
  moreover have "worker_step id main_callbacks fixed_config False quiet (Managing, demo_worker rb wb) = Inr (Some (Limiting, demo_worker rb wb))"
    "worker_step id main_callbacks fixed_config False quiet (Limiting, demo_worker rb wb) = Inr (Some (Polling, demo_worker rb wb))"
    by code_simp+
  ultimately show ?thesis using assms by (auto simp: idle_states_def quiet_def)
qed

lemma demo_moves:
  assumes "x \<in> demo_states"
  shows "\<exists>y \<in> demo_states. worker_step id main_callbacks fixed_config False quiet x = Inr (Some y)"
proof -
  let ?w = "push_connection (demo_connection demo_buffer demo_buffer) (setMaxConnection 50 Worker_new)"
  have q: "incomingConnection ?w = [Some 0]"
    by (simp add: push_connection_def enqueue_connection_def setMaxConnection_def Worker_new_def)
  have r: "worker_step id main_callbacks fixed_config False quiet (Registering [Some 0], (push_connection (demo_connection rb wb)
      (setMaxConnection 50 Worker_new))\<lparr>incomingConnection := []\<rparr>) = Inr (Some (Registering [], demo_worker rb wb))" for rb wb
    by code_simp
  from assms consider (idle) "x \<in> idle_states (demo_worker demo_buffer demo_buffer)" | "x = (Polling, ?w)" | "x = (Handling [], ?w)" |
    "x = (Registering [Some 0], ?w\<lparr>incomingConnection := []\<rparr>)" unfolding demo_states_def Let_def by blast
  then show ?thesis
  proof cases
    case idle
    then show ?thesis using idle_moves [OF disjI2 [OF refl] idle] unfolding demo_states_def Let_def by blast
  qed (use q r in \<open>simp_all add: demo_states_def idle_states_def quiet_def Let_def\<close>)
qed

lemma quiet_next_moves:
  assumes "\<forall>x \<in> A. \<exists>y \<in> A. worker_step id main_callbacks conf False quiet x = Inr (Some y)" "x0 \<in> A"
  shows "(quiet_next conf ^^ k) x0 \<in> A \<and>
    worker_step id main_callbacks conf False quiet ((quiet_next conf ^^ k) x0) = Inr (Some ((quiet_next conf ^^ Suc k) x0))"
proof -
  have step: "quiet_next conf x \<in> A \<and> worker_step id main_callbacks conf False quiet x = Inr (Some (quiet_next conf x))" if "x \<in> A" for x
    using assms(1) that by (fastforce simp: quiet_next_def)
  have "(quiet_next conf ^^ k) x0 \<in> A" by (induction k) (use assms(2) step in simp_all)
  with step show ?thesis by simp
qed

definition demo_system :: "string \<Rightarrow> worker_pc \<times> worker \<Rightarrow> worker_pc \<times> worker \<Rightarrow> 64 word \<Rightarrow> system" where
  "demo_system ts x y n = \<lparr>srv = \<lparr>cfg = fixed_config, threadPool = [snd x, snd y], exceedMaxMemory = False, timeString = ts,
     rr_index = 0, last_id = n, logger = fixed_logger\<rparr>, pcs = [fst x, fst y]\<rparr>"

definition demo_acts :: "nat \<Rightarrow> action" where
  "demo_acts n = (if n = 0 then sample_connect else Step (n mod 2) quiet)"

definition demo_run :: "string \<Rightarrow> nat \<Rightarrow> system" where
  "demo_run ts n = (let w = setMaxConnection 50 Worker_new in
     if n = 0 then demo_system ts (Polling, w) (Polling, w) 0
     else demo_system ts ((quiet_next fixed_config ^^ ((n - 1) div 2)) (Polling, w))
       ((quiet_next fixed_config ^^ (n div 2)) (Polling, push_connection (demo_connection demo_buffer demo_buffer) w)) 1)"

lemma demo_system_step:
  "worker_step id main_callbacks fixed_config False quiet x = Inr (Some x') \<Longrightarrow>
     sys_step id iphash main_callbacks (Step 0 quiet) (demo_system ts x y n) = Inr (Some (demo_system ts x' y n))"
  "worker_step id main_callbacks fixed_config False quiet y = Inr (Some y') \<Longrightarrow>
     sys_step id iphash main_callbacks (Step 1 quiet) (demo_system ts x y n) = Inr (Some (demo_system ts x y' n))"
  by (simp_all add: demo_system_def split: prod.split)

lemma demo_path: "\<exists>ts. sys_path id (\<lambda>_. 1) (demo_run ts) demo_acts"
proof -
  let ?w = "setMaxConnection 50 Worker_new"
  let ?x = "\<lambda>k. (quiet_next fixed_config ^^ k) (Polling, ?w)"
  let ?y = "\<lambda>k. (quiet_next fixed_config ^^ k) (Polling, push_connection (demo_connection demo_buffer demo_buffer) ?w)"
  obtain ts where s0: "sys_start (Some (join_with NEWLINE fixed_config_lines)) sample_time 2 = Inr (demo_run ts 0)"
    using sys_start_fixed unfolding demo_run_def demo_system_def Let_def by auto
  have s01: "demo_run ts 0 = \<lparr>srv = \<lparr>cfg = fixed_config, threadPool = [?w, ?w],
        exceedMaxMemory = False, timeString = ts, rr_index = 0, last_id = 0, logger = fixed_logger\<rparr>, pcs = [Polling, Polling]\<rparr>"
    "demo_run ts 1 = \<lparr>srv = \<lparr>cfg = fixed_config, threadPool = [?w, push_connection (demo_connection demo_buffer demo_buffer) ?w],
        exceedMaxMemory = False, timeString = ts, rr_index = 0, last_id = 1, logger = fixed_logger\<rparr>, pcs = [Polling, Polling]\<rparr>"
    by (simp_all add: demo_run_def demo_system_def Let_def)
  have r0: "sys_reachable id (\<lambda>_. 1) main_callbacks (demo_run ts 0)"
    using fixed_sys_config by (intro sys_reachable.start [OF s0]) (simp_all add: demo_run_def demo_system_def Let_def)
  have os0: "os_allows sample_connect (demo_run ts 0)"
    unfolding s01
    by (simp add: sample_connect_def env_ok_def INT_time_def INT_MAX_def server_fds_def setMaxConnection_def Worker_new_def)
  have st0: "sys_step id (\<lambda>_. 1) main_callbacks sample_connect (demo_run ts 0) = Inr (Some (demo_run ts 1))"
    unfolding s01
    by (simp add: sample_connect_def newConnection_def load_balance_def loadBalanceIPHash_def size_mod_def fixed_config_def
        shipped_config_def TcpConnection_new_def demo_buffer_new demo_connection_def getIP_def InetSockAddr_def rd_def)
  have x: "worker_step id main_callbacks fixed_config False quiet (?x k) = Inr (Some (?x (Suc k)))" for k
  proof -
    have "(Polling, ?w) \<in> idle_states ?w" by (simp add: idle_states_def)
    from quiet_next_moves [OF ballI [OF idle_moves [OF disjI1 [OF refl]]] this] show ?thesis by blast
  qed
  have y: "worker_step id main_callbacks fixed_config False quiet (?y k) = Inr (Some (?y (Suc k)))" for k
  proof -
    have "(Polling, push_connection (demo_connection demo_buffer demo_buffer) ?w) \<in> demo_states"
      by (simp add: demo_states_def Let_def)
    from quiet_next_moves [OF ballI [OF demo_moves] this] show ?thesis by blast
  qed
  have st: "sys_step id (\<lambda>_. 1) main_callbacks (demo_acts n) (demo_run ts n) = Inr (Some (demo_run ts (Suc n)))" if "0 < n" for n
  proof (cases "even n")
    case True
    then obtain j where j: "n = 2 * j" by (rule evenE)
    with that obtain k where "n = 2 * Suc k" by (cases j) auto
    then have "demo_run ts n = demo_system ts (?x k) (?y (Suc k)) 1" "demo_run ts (Suc n) = demo_system ts (?x (Suc k)) (?y (Suc k)) 1"
      "demo_acts n = Step 0 quiet" by (simp_all add: demo_run_def demo_acts_def Let_def del: funpow.simps)
    then show ?thesis using demo_system_step(1) [OF x] by simp
  next
    case False
    then obtain k where "n = 2 * k + 1" by (rule oddE)
    then have "demo_run ts n = demo_system ts (?x k) (?y k) 1" "demo_run ts (Suc n) = demo_system ts (?x k) (?y (Suc k)) 1"
      "demo_acts n = Step 1 quiet" by (simp_all add: demo_run_def demo_acts_def Let_def del: funpow.simps)
    then show ?thesis using demo_system_step(2) [OF y] by simp
  qed
  have "os_allows (demo_acts n) (demo_run ts n)" if "0 < n" for n
    using that by (simp add: demo_acts_def quiet_def reported_def INT_time_def INT_MAX_def)
  then have "sys_path id (\<lambda>_. 1) (demo_run ts) demo_acts"
    using r0 os0 st0 st unfolding sys_path_def by (metis One_nat_def bot_nat_0.not_eq_extremum demo_acts_def)
  then show ?thesis by blast
qed

lemma every_connection_registered_witness:
  "\<exists>ts m i a. sys_path id (\<lambda>_. 1) (demo_run ts) demo_acts \<and> 0 < m \<and>
     pool_map (threadPool (srv (demo_run ts m)) ! i) 1 = Some (Some a) \<and> connfd (heap (threadPool (srv (demo_run ts m)) ! i) ! a) = 8"
proof -
  obtain ts where ts: "sys_path id (\<lambda>_. 1) (demo_run ts) demo_acts" using demo_path by blast
  have "length (pcs (demo_run ts 0)) = 2" "last_id (srv (demo_run ts 0)) = 0"
    by (simp_all add: demo_run_def demo_system_def Let_def)
  moreover have "gets_turns i demo_acts" if "i < 2" for i
    unfolding gets_turns_def
  proof
    fix n show "\<exists>m \<ge> n. \<exists>e. demo_acts m = Step i e"
      using that by (intro exI [of _ "2 * Suc n + i"]) (simp add: demo_acts_def)
  qed
  ultimately show ?thesis
    using every_connection_registered [OF ts, of 0 "\<lparr>ae_rand = 3, ae_flags = 2, ae_setfl = 0, ae_time = 100\<rparr>" 8 "InetSockAddr 2 5 80"] ts
    by (fastforce simp: demo_acts_def sample_connect_def)
qed

end
