(* ===== verification/Queue_Threads.thy ===== *)
theory Queue_Threads
  imports Worker_Frames Threads
begin

text \<open>
  The queue of a worker with its mutex: \<open>Worker::registerNewConnection(conn)\<close>, which the main thread calls from
  \<open>TcpServer::newConnection\<close>, and \<open>Worker::registerNewConnection()\<close>, which the worker calls in every round
  (\<open>src/worker.cpp\<close>), statement by statement, with the lock of \<open>src/mutex.h\<close>. Any number of threads may push. \<open>Whole_Server\<close>
  takes each push and the swap for one step; here it is shown that every step of the threads is one of those, or none.
  \<open>q_in\<close> and \<open>q_out\<close> record what has been pushed and what the worker has taken; the program does not have them.
\<close>

section \<open>State\<close>

text \<open>A pushing thread is outside, holds the lock and has not pushed, or has pushed. The worker is outside, holds the lock, or
  has swapped the queues.\<close>

datatype push_pc = P_Outside | P_Locked connection | P_Pushed

datatype take_pc = T_Outside | T_Locked | T_Swapped

record queue_threads =
  q_worker :: worker
  q_pc :: worker_pc
  q_mutex :: mutex_lock
  q_push :: "push_pc list"
  q_take :: take_pc
  q_in :: "conn_ptr list"
  q_out :: "conn_ptr list"

definition take_tid :: nat where "take_tid = 0"
definition push_tid :: "nat \<Rightarrow> nat" where "push_tid i = i + 1"

definition queue_init :: "int \<Rightarrow> nat \<Rightarrow> queue_threads" where
  "queue_init mx n = \<lparr>q_worker = setMaxConnection mx Worker_new, q_pc = Polling, q_mutex = MutexLock_new,
     q_push = replicate n P_Outside, q_take = T_Outside, q_in = [], q_out = []\<rparr>"

section \<open>Steps\<close>

text \<open>\<open>registerNewConnection(conn)\<close> of thread \<open>i\<close>. A step has no result when the thread waits for the lock.\<close>

definition push_step :: "nat \<Rightarrow> connection \<Rightarrow> queue_threads \<Rightarrow> queue_threads option res" where
  "push_step i conn s =
     (if \<not> i < length (q_push s) then Inr None
      else case q_push s ! i of
       P_Outside \<Rightarrow> (case MutexLockGuard_new (push_tid i) (q_mutex s) of
           None \<Rightarrow> Inr None
         | Some m \<Rightarrow> Inr (Some (s\<lparr>q_mutex := m, q_push := (q_push s)[i := P_Locked conn]\<rparr>)))
     | P_Locked c \<Rightarrow> Inr (Some (s\<lparr>q_worker := push_connection c (q_worker s),
           q_in := q_in s @ [Some (length (heap (q_worker s)))], q_push := (q_push s)[i := P_Pushed]\<rparr>))
     | P_Pushed \<Rightarrow> bind_res (MutexLockGuard_delete (push_tid i) (q_mutex s)) (\<lambda>m.
           Inr (Some (s\<lparr>q_mutex := m, q_push := (q_push s)[i := P_Outside]\<rparr>))))"

text \<open>The worker. When it has no event left it enters \<open>registerNewConnection()\<close>: it takes the lock, swaps the queue with the
  empty \<open>temp\<close> and releases the lock; everything else are the steps of \<open>Whole_Server\<close>.\<close>

definition take_step :: "(64 word \<Rightarrow> 64 word) \<Rightarrow> callbacks \<Rightarrow> config \<Rightarrow> bool \<Rightarrow> worker_env \<Rightarrow> queue_threads \<Rightarrow>
    queue_threads option res" where
  "take_step hf cbs conf exceed e s = (case q_take s of
       T_Outside \<Rightarrow>
         (if q_pc s = Handling []
          then case MutexLockGuard_new take_tid (q_mutex s) of
              None \<Rightarrow> Inr None
            | Some m \<Rightarrow> Inr (Some (s\<lparr>q_mutex := m, q_take := T_Locked\<rparr>))
          else bind_env (worker_step hf cbs conf exceed e (q_pc s, q_worker s)) (\<lambda>(pc, w).
                 Inr (Some (s\<lparr>q_pc := pc, q_worker := w\<rparr>))))
     | T_Locked \<Rightarrow> (let temp = incomingConnection (q_worker s) in
         Inr (Some (s\<lparr>q_pc := Registering temp, q_worker := (q_worker s)\<lparr>incomingConnection := []\<rparr>,
           q_out := q_out s @ temp, q_take := T_Swapped\<rparr>)))
     | T_Swapped \<Rightarrow> bind_res (MutexLockGuard_delete take_tid (q_mutex s)) (\<lambda>m.
         Inr (Some (s\<lparr>q_mutex := m, q_take := T_Outside\<rparr>))))"

datatype queue_action = Pushes nat connection | Takes bool worker_env

fun queue_step :: "(64 word \<Rightarrow> 64 word) \<Rightarrow> callbacks \<Rightarrow> config \<Rightarrow> queue_action \<Rightarrow> queue_threads \<Rightarrow> queue_threads option res" where
  "queue_step hf cbs conf (Pushes i c) s = push_step i c s"
| "queue_step hf cbs conf (Takes exceed e) s = take_step hf cbs conf exceed e s"

inductive queue_reachable :: "(64 word \<Rightarrow> 64 word) \<Rightarrow> callbacks \<Rightarrow> config \<Rightarrow> int \<Rightarrow> nat \<Rightarrow> queue_threads \<Rightarrow> bool"
  for hf cbs conf mx n where
  init: "queue_reachable hf cbs conf mx n (queue_init mx n)"
| step: "queue_reachable hf cbs conf mx n s \<Longrightarrow> queue_step hf cbs conf act s = Inr (Some s') \<Longrightarrow>
    queue_reachable hf cbs conf mx n s'"

section \<open>The invariant\<close>

text \<open>Which threads are in a critical section.\<close>

definition inside :: "take_pc \<Rightarrow> push_pc list \<Rightarrow> nat \<Rightarrow> bool" where
  "inside tk ps t \<longleftrightarrow> (t = take_tid \<and> tk \<noteq> T_Outside) \<or> (\<exists>i < length ps. t = push_tid i \<and> ps ! i \<noteq> P_Outside)"

definition queue_inv :: "queue_threads \<Rightarrow> bool" where
  "queue_inv s \<longleftrightarrow> guards mutex_owner (q_mutex s) (inside (q_take s) (q_push s)) \<and>
     (q_take s = T_Locked \<longrightarrow> q_pc s = Handling []) \<and> q_out s @ incomingConnection (q_worker s) = q_in s"

lemma push_tid_simps [simp]: "push_tid i = push_tid j \<longleftrightarrow> i = j" "push_tid i \<noteq> take_tid" "take_tid \<noteq> push_tid i"
  by (simp_all add: push_tid_def take_tid_def)

lemma inside_moves:
  "i < length ps \<Longrightarrow> inside tk (ps[i := p]) = (inside tk ps)(push_tid i := p \<noteq> P_Outside)"
  "inside tk' ps = (inside tk ps)(take_tid := tk' \<noteq> T_Outside)"
  by (auto simp: inside_def nth_list_update fun_eq_iff)

lemma inside_tids [simp]: "inside tk ps take_tid \<longleftrightarrow> tk \<noteq> T_Outside"
  "i < length ps \<Longrightarrow> inside tk ps (push_tid i) \<longleftrightarrow> ps ! i \<noteq> P_Outside"
  by (auto simp: inside_def)

lemma push_step_inv:
  assumes inv: "queue_inv s"
  shows "push_step i c s = Inr None \<or> (\<exists>s'. push_step i c s = Inr (Some s') \<and> queue_inv s' \<and> q_pc s' = q_pc s \<and>
    (q_worker s' = q_worker s \<or> (\<exists>d. q_worker s' = push_connection d (q_worker s) \<and> mutex_owner (q_mutex s) = Some (push_tid i))))"
proof (cases "i < length (q_push s)")
  case True
  have g: "guards mutex_owner (q_mutex s) (inside (q_take s) (q_push s))" using inv by (simp add: queue_inv_def)
  show ?thesis
  proof (cases "q_push s ! i")
    case P_Outside
    then show ?thesis using True inv guard.guards_acquire [OF g, of "push_tid i"]
      by (auto simp: push_step_def queue_inv_def inside_moves(1) split: option.split)
  next
    case (P_Locked d)
    have "inside (q_take s) (q_push s) (push_tid i)" using True P_Locked by simp
    then have "mutex_owner (q_mutex s) = Some (push_tid i)" "(inside (q_take s) (q_push s))(push_tid i := True) = inside (q_take s) (q_push s)"
      using g by (simp_all add: guards_def fun_upd_idem)
    then show ?thesis using True inv P_Locked
      by (auto simp: push_step_def queue_inv_def inside_moves(1) push_connection_def enqueue_connection_def)
  next
    case P_Pushed
    then have "inside (q_take s) (q_push s) (push_tid i)" using True by simp
    from guard.guards_release [OF g this] obtain m where "MutexLockGuard_delete (push_tid i) (q_mutex s) = Inr m"
      "guards mutex_owner m ((inside (q_take s) (q_push s))(push_tid i := False))" by blast
    then show ?thesis using True inv P_Pushed by (simp add: push_step_def queue_inv_def inside_moves(1))
  qed
qed (simp add: push_step_def)

lemma take_step_inv:
  assumes inv: "queue_inv s"
  shows "(\<exists>err. take_step hf cbs conf exceed e s = Inl err \<and> worker_step hf cbs conf exceed e (q_pc s, q_worker s) = Inl err) \<or>
    take_step hf cbs conf exceed e s = Inr None \<or>
    (\<exists>s'. take_step hf cbs conf exceed e s = Inr (Some s') \<and> queue_inv s' \<and>
      (q_pc s' = q_pc s \<and> q_worker s' = q_worker s \<or>
       worker_step hf cbs conf exceed e (q_pc s, q_worker s) = Inr (Some (q_pc s', q_worker s')) \<and>
         (q_pc s = Handling [] \<longrightarrow> mutex_owner (q_mutex s) = Some take_tid)))"
proof -
  let ?in = "inside (q_take s) (q_push s)"
  have g: "guards mutex_owner (q_mutex s) ?in" and q: "q_out s @ incomingConnection (q_worker s) = q_in s"
    using inv by (simp_all add: queue_inv_def)
  show ?thesis
  proof (cases "q_take s")
    case T_Outside
    show ?thesis
    proof (cases "q_pc s = Handling []")
      case True
      show ?thesis
      proof (cases "MutexLockGuard_new take_tid (q_mutex s)")
        case (Some m)
        have "inside T_Locked (q_push s) = ?in(take_tid := True)" using inside_moves(2) [of T_Locked "q_push s"] by simp
        then have "guards mutex_owner m (inside T_Locked (q_push s))" using guard.guards_acquire [OF g Some] by simp
        then show ?thesis using T_Outside True Some q by (simp add: take_step_def queue_inv_def)
      qed (use T_Outside True in \<open>simp add: take_step_def\<close>)
    next
      case False
      show ?thesis
      proof (cases "worker_step hf cbs conf exceed e (q_pc s, q_worker s)")
        case (Inr r)
        show ?thesis
        proof (cases r)
          case (Some pw)
          obtain pc w where pw: "pw = (pc, w)" by (rule prod.exhaust)
          have "incomingConnection w = incomingConnection (q_worker s)"
            using worker_step_frame [OF _ False] Inr Some pw by blast
          then show ?thesis using T_Outside False Inr Some pw g q by (simp add: take_step_def queue_inv_def)
        qed (use T_Outside False Inr in \<open>simp add: take_step_def\<close>)
      qed (use T_Outside False in \<open>simp add: take_step_def\<close>)
    qed
  next
    case T_Locked
    have "inside T_Swapped (q_push s) = ?in(take_tid := True)" using inside_moves(2) [of T_Swapped "q_push s"] by simp
    moreover have "?in take_tid" using T_Locked by simp
    then have "mutex_owner (q_mutex s) = Some take_tid" "?in(take_tid := True) = ?in"
      using g by (simp_all add: guards_def fun_upd_idem)
    moreover have "q_pc s = Handling []" using inv T_Locked by (simp add: queue_inv_def)
    ultimately show ?thesis using T_Locked g q by (simp add: take_step_def queue_inv_def Let_def)
  next
    case T_Swapped
    then have "?in take_tid" by simp
    from guard.guards_release [OF g this] obtain m where "MutexLockGuard_delete take_tid (q_mutex s) = Inr m"
      "guards mutex_owner m (?in(take_tid := False))" by blast
    moreover have "inside T_Outside (q_push s) = ?in(take_tid := False)" using inside_moves(2) [of T_Outside "q_push s"] by simp
    ultimately show ?thesis using T_Swapped q by (simp add: take_step_def queue_inv_def)
  qed
qed

lemma queue_inv_reachable: "queue_reachable hf cbs conf mx n s \<Longrightarrow> queue_inv s"
proof (induction rule: queue_reachable.induct)
  case init
  have "mutex_owner MutexLock_new = None" by (simp add: MutexLock_new_def)
  then show ?case by (auto simp: queue_inv_def queue_init_def guards_def inside_def setMaxConnection_def Worker_new_def)
next
  case (step s act s')
  show ?case
  proof (cases act)
    case (Pushes i c)
    then show ?thesis using step.hyps(2) push_step_inv [OF step.IH, of i c] by auto
  next
    case (Takes exceed e)
    then show ?thesis using step.hyps(2) take_step_inv [OF step.IH, of hf cbs conf exceed e] by auto
  qed
qed

text \<open>The thread that holds the lock can move, so nobody waits for ever.\<close>

lemma holder_moves:
  assumes "queue_inv s" "mutex_owner (q_mutex s) \<noteq> None"
  shows "\<exists>act s'. queue_step hf cbs conf act s = Inr (Some s')"
proof -
  from assms(2) obtain t where t: "mutex_owner (q_mutex s) = Some t" by blast
  then have "inside (q_take s) (q_push s) t" using assms(1) unfolding queue_inv_def guards_def by blast
  then show ?thesis unfolding inside_def
  proof (elim disjE exE conjE)
    assume "t = take_tid" "q_take s \<noteq> T_Outside"
    then have "\<exists>s'. take_step hf cbs conf exceed e s = Inr (Some s')" for exceed e
      using t by (cases "q_take s") (simp_all add: take_step_def Let_def MutexLockGuard_delete_def mutex_unlock_def)
    then show ?thesis by (metis queue_step.simps(2))
  next
    fix i assume "i < length (q_push s)" "t = push_tid i" "q_push s ! i \<noteq> P_Outside"
    then have "\<exists>s'. push_step i c s = Inr (Some s')" for c
      using t by (cases "q_push s ! i") (simp_all add: push_step_def MutexLockGuard_delete_def mutex_unlock_def)
    then show ?thesis by (metis queue_step.simps(1))
  qed
qed

text \<open>A run: a connection is pushed and taken, another is pushed while the lock is still held by the worker, in vain, and then
  again.\<close>

fun hand_run :: "(64 word \<Rightarrow> 64 word) \<Rightarrow> callbacks \<Rightarrow> config \<Rightarrow> queue_action list \<Rightarrow> queue_threads \<Rightarrow> queue_threads option res" where
  "hand_run hf cbs conf [] s = Inr (Some s)"
| "hand_run hf cbs conf (a # as) s = (case queue_step hf cbs conf a s of
       Inl err \<Rightarrow> Inl err | Inr None \<Rightarrow> hand_run hf cbs conf as s | Inr (Some s1) \<Rightarrow> hand_run hf cbs conf as s1)"

lemma hand_run_reachable:
  "queue_reachable hf cbs conf mx n s \<Longrightarrow> hand_run hf cbs conf as s = Inr (Some s') \<Longrightarrow> queue_reachable hf cbs conf mx n s'"
proof (induction as arbitrary: s)
  case (Cons a as)
  then show ?case by (auto split: sum.splits option.splits intro: queue_reachable.step)
qed simp

definition demo_hand_over :: "queue_action list" where
  "demo_hand_over = (let c = sample_connection; t = Takes False quiet; p = Pushes 0 c; q = Pushes 1 c
     in [p, p, q, p, t, t, q, t, t, q, q])"

lemma demo_hand_over_run:
  "\<exists>s. queue_reachable id main_callbacks shipped_config 50 2 s \<and> q_out s = [Some 0] \<and> q_in s = [Some 0, Some 1] \<and>
     q_pc s = Registering [Some 0] \<and> mutex_owner (q_mutex s) = Some (push_tid 1)"
proof -
  have "(case hand_run id main_callbacks shipped_config demo_hand_over (queue_init 50 2) of
      Inr (Some s) \<Rightarrow> q_out s = [Some 0] \<and> q_in s = [Some 0, Some 1] \<and> q_pc s = Registering [Some 0] \<and>
        mutex_owner (q_mutex s) = Some (push_tid 1) | _ \<Rightarrow> False)" by code_simp
  then obtain s where s: "hand_run id main_callbacks shipped_config demo_hand_over (queue_init 50 2) = Inr (Some s)"
    "q_out s = [Some 0]" "q_in s = [Some 0, Some 1]" "q_pc s = Registering [Some 0]" "mutex_owner (q_mutex s) = Some (push_tid 1)"
    by (auto split: sum.splits option.splits)
  from hand_run_reachable [OF queue_reachable.init s(1)] s(2-5) show ?thesis by blast
qed

section \<open>Properties\<close>

text \<open>C21: The hand-over of connections from the main thread to a worker. However the threads interleave between their
  statements, at most one of them is inside the lock, and the worker takes the connections in the order in which they were
  pushed, each once: what it has taken, followed by what is in the queue, is what has been pushed.\<close>

theorem queue_hand_over:
  assumes "queue_reachable hf cbs conf mx n s"
  shows "q_out s @ incomingConnection (q_worker s) = q_in s \<and>
    (\<forall>t u. inside (q_take s) (q_push s) t \<and> inside (q_take s) (q_push s) u \<longrightarrow> t = u)"
proof -
  note inv = queue_inv_reachable [OF assms, unfolded queue_inv_def]
  from guards_exclusive [OF conjunct1 [OF inv]] inv show ?thesis by blast
qed

lemma queue_hand_over_witness:
  "\<exists>s :: queue_threads. q_in s = [Some 0, Some 1] \<and> q_out s = [Some 0] \<and> incomingConnection (q_worker s) = [Some 1] \<and>
     (\<forall>t u. inside (q_take s) (q_push s) t \<and> inside (q_take s) (q_push s) u \<longrightarrow> t = u)"
proof -
  obtain s where s: "queue_reachable id main_callbacks shipped_config 50 2 s" "q_in s = [Some 0, Some 1]" "q_out s = [Some 0]"
    using demo_hand_over_run by blast
  from queue_hand_over [OF s(1)] s(2,3) show ?thesis by (intro exI [of _ s]) simp
qed

text \<open>C11: The threads refine the steps of Whole_Server. A step of any of them is one step of the worker there, or one push of a
  connection, or leaves the worker and its place in the loop alone; the queue is swapped and pushed to only with the
  mutex held; no unlock fails, so an error is an error of the worker's own step; and when
  a thread is inside the lock, some thread can move.\<close>

theorem queue_threads_refine:
  assumes "queue_reachable hf cbs conf mx n s"
  shows "(\<forall>err. queue_step hf cbs conf act s = Inl err \<longrightarrow>
       (\<exists>exceed e. act = Takes exceed e \<and> worker_step hf cbs conf exceed e (q_pc s, q_worker s) = Inl err)) \<and>
    (\<forall>s'. queue_step hf cbs conf act s = Inr (Some s') \<longrightarrow>
       q_pc s' = q_pc s \<and> q_worker s' = q_worker s \<or>
       (\<exists>i c. act = Pushes i c \<and> mutex_owner (q_mutex s) = Some (push_tid i) \<and> q_pc s' = q_pc s \<and>
          (\<exists>d. q_worker s' = push_connection d (q_worker s))) \<or>
       (\<exists>exceed e. act = Takes exceed e \<and> worker_step hf cbs conf exceed e (q_pc s, q_worker s) = Inr (Some (q_pc s', q_worker s')) \<and>
          (q_pc s = Handling [] \<longrightarrow> mutex_owner (q_mutex s) = Some take_tid))) \<and>
    (mutex_owner (q_mutex s) \<noteq> None \<longrightarrow> (\<exists>act s'. queue_step hf cbs conf act s = Inr (Some s')))"
proof (intro conjI)
  note inv = queue_inv_reachable [OF assms]
  show "\<forall>err. queue_step hf cbs conf act s = Inl err \<longrightarrow>
       (\<exists>exceed e. act = Takes exceed e \<and> worker_step hf cbs conf exceed e (q_pc s, q_worker s) = Inl err)"
  proof (cases act)
    case (Pushes i c)
    then show ?thesis using push_step_inv [OF inv, of i c] by auto
  next
    case (Takes exceed e)
    then show ?thesis using take_step_inv [OF inv, of hf cbs conf exceed e] by auto
  qed
  show "\<forall>s'. queue_step hf cbs conf act s = Inr (Some s') \<longrightarrow>
       q_pc s' = q_pc s \<and> q_worker s' = q_worker s \<or>
       (\<exists>i c. act = Pushes i c \<and> mutex_owner (q_mutex s) = Some (push_tid i) \<and> q_pc s' = q_pc s \<and>
          (\<exists>d. q_worker s' = push_connection d (q_worker s))) \<or>
       (\<exists>exceed e. act = Takes exceed e \<and> worker_step hf cbs conf exceed e (q_pc s, q_worker s) = Inr (Some (q_pc s', q_worker s')) \<and>
          (q_pc s = Handling [] \<longrightarrow> mutex_owner (q_mutex s) = Some take_tid))"
  proof (cases act)
    case (Pushes i c)
    then show ?thesis using push_step_inv [OF inv, of i c] by auto
  next
    case (Takes exceed e)
    then show ?thesis using take_step_inv [OF inv, of hf cbs conf exceed e] by auto
  qed
  show "mutex_owner (q_mutex s) \<noteq> None \<longrightarrow> (\<exists>act s'. queue_step hf cbs conf act s = Inr (Some s'))"
    using holder_moves [OF inv] by blast
qed

lemma queue_threads_refine_witness:
  "\<exists>s. q_in s = [Some 0, Some 1] \<and> (\<exists>act s'. queue_step id main_callbacks shipped_config act s = Inr (Some s'))"
proof -
  obtain s where s: "queue_reachable id main_callbacks shipped_config 50 2 s" "q_in s = [Some 0, Some 1]"
    "mutex_owner (q_mutex s) \<noteq> None" using demo_hand_over_run by force
  from queue_threads_refine [OF s(1), of "Takes False quiet"] s(2,3) show ?thesis by blast
qed

end
