(* ===== verification/Table_Memory.thy ===== *)
theory Table_Memory
  imports Table_Map
begin

text \<open>
  The memory of a hash table of \<open>src/hash.h\<close>: its constructor and destructor, and what \<open>delete\<close> of an entry and
  \<open>dictht::clear\<close> free. \<open>dict_clear\<close> of \<open>Hash_Table\<close> gives the state after clearing; here the loops and the recursive
  destructor of \<open>dictEntry\<close> run, and the result says which entries have been freed, in which order. Deleting an entry that has been
  deleted is an error.
\<close>

section \<open>Constructor and destructor\<close>

text \<open>\<open>delete\<close> of a pointer to an entry. The destructor of \<open>dictEntry\<close> first deletes \<open>next\<close>.\<close>

fun delete_entry :: "('k, 'v) dictEntry \<Rightarrow> ('k \<times> 'v) list res" where
  "delete_entry Nullptr = Inr []"
| "delete_entry Dangling = Inl Use_After_Free"
| "delete_entry (Entry k v nxt) = bind_res (delete_entry nxt) (\<lambda>freed. Inr (freed @ [(k, v)]))"

text \<open>The loop of \<open>dictht::clear\<close>: \<open>i\<close> is an \<open>int\<close>, compared with \<open>size\<close> as an \<open>unsigned long\<close>.\<close>

function clear_loop :: "('k, 'v) dictht \<Rightarrow> int \<Rightarrow> ('k \<times> 'v) list res" where
  "clear_loop h i =
     (if (word_of_int i :: 64 word) < ht_size h
      then bind_res (ht_bucket h i) (\<lambda>e.
           bind_res (delete_entry e) (\<lambda>freed.
           case c_int (i + 1) of Inl err \<Rightarrow> Inl err
           | Inr j \<Rightarrow> bind_res (clear_loop h j) (\<lambda>more. Inr (freed @ more))))
      else Inr [])"
  by pat_completeness auto
termination
  by (relation "measure (\<lambda>(h, i). nat (INT_MAX + 1 - i))") (auto simp: c_int_def split: if_splits)

declare clear_loop.simps [simp del]

definition dictht_free :: "('k, 'v) dictht \<Rightarrow> (('k, 'v) dictht \<times> ('k \<times> 'v) list) res" where
  "dictht_free h = (case ht_table h of
       None \<Rightarrow> Inr (dictht_clear h, [])
     | Some _ \<Rightarrow> bind_res (clear_loop h 0) (\<lambda>freed. Inr (dictht_clear h, freed)))"

definition dict_free :: "('k, 'v) dict \<Rightarrow> (('k, 'v) dict \<times> ('k \<times> 'v) list) res" where
  "dict_free d =
     bind_res (dictht_free (ht0 d)) (\<lambda>(h0, freed0).
     bind_res (dictht_free (ht1 d)) (\<lambda>(h1, freed1).
       Inr (d\<lparr>ht0 := h0, ht1 := h1, rehashidx := -1, iterators := 0\<rparr>, freed0 @ freed1)))"

definition HashTable_new :: "('k, 'v) dict" where "HashTable_new = dict_new"

text \<open>\<open>delete _d\<close>: what it frees.\<close>

definition HashTable_delete :: "('k, 'v) dict \<Rightarrow> ('k \<times> 'v) list res" where
  "HashTable_delete d = bind_res (dict_free d) (\<lambda>(_, freed). Inr freed)"

section \<open>What is freed\<close>

lemma delete_entry_chain: "delete_entry c = (if chain_ok c then Inr (rev (chain_list c)) else Inl Use_After_Free)"
  by (induction c) simp_all

lemma clear_loop_buckets:
  assumes t: "ht_table h = Some t" "length t = unat (ht_size h)" and small: "unat (ht_size h) \<le> 2 ^ 30"
  shows "i \<le> length t \<Longrightarrow> clear_loop h (int i) =
    (if \<forall>c \<in> set (drop i t). chain_ok c then Inr (concat (map (\<lambda>c. rev (chain_list c)) (drop i t))) else Inl Use_After_Free)"
proof (induction "length t - i" arbitrary: i)
  case 0
  then have "i = length t" by simp
  then have "(word_of_int (int i) :: 64 word) = ht_size h" using t(2) by simp
  then show ?case using \<open>i = length t\<close> by (subst clear_loop.simps) simp
next
  case (Suc n)
  then have i: "i < length t" by simp
  have "unat (word_of_nat i :: 64 word) = i" using i t(2) small by (intro unat_of_nat64) simp
  then have lt: "(word_of_int (int i) :: 64 word) < ht_size h" using i t(2) by (simp add: word_less_nat_alt)
  have j: "c_int (int i + 1) = Inr (int (Suc i))" using i t(2) small by (intro c_int_nonneg [THEN trans]) (simp_all add: INT_MAX_def)
  have IH: "clear_loop h (int (Suc i)) = (if \<forall>c \<in> set (drop (Suc i) t). chain_ok c
      then Inr (concat (map (\<lambda>c. rev (chain_list c)) (drop (Suc i) t))) else Inl Use_After_Free)"
    using Suc by (intro Suc.hyps(1)) simp_all
  have d: "drop i t = t ! i # drop (Suc i) t" using i by (rule Cons_nth_drop_Suc [symmetric])
  show ?case using lt j IH i t(1) unfolding d
    by (subst clear_loop.simps) (simp add: ht_bucket_def rd_def delete_entry_chain)
qed

lemma concat_rev_mset: "mset (concat (map (\<lambda>c. rev (f c)) t)) = mset (concat (map f t))"
  by (induction t) simp_all

lemma dictht_free_wf:
  assumes wf: "ht_wf hf h" and small: "unat (ht_size h) \<le> 2 ^ 30"
  shows "\<exists>freed. dictht_free h = Inr (dictht_clear h, freed) \<and> mset freed = mset (ht_entries h)"
proof (cases "ht_table h")
  case None
  then show ?thesis by (simp add: dictht_free_def ht_entries_def)
next
  case (Some t)
  note w = ht_wf_SomeD [OF wf Some]
  have "\<forall>c \<in> set t. chain_ok c" using w(3) by (auto simp: in_set_conv_nth bucket_ok_def)
  then have "clear_loop h 0 = Inr (concat (map (\<lambda>c. rev (chain_list c)) t))"
    using clear_loop_buckets [OF Some w(1) small, of 0] by simp
  then show ?thesis using Some by (simp add: dictht_free_def ht_entries_def concat_rev_mset)
qed

lemma dict_free_spec:
  assumes inv: "dict_inv hf d" and small: "unat (ht_size (ht0 d)) \<le> 2 ^ 30" "unat (ht_size (ht1 d)) \<le> 2 ^ 30"
  shows "\<exists>freed. dict_free d = Inr (dict_clear d, freed) \<and> mset freed = mset (dict_entries d)"
proof -
  have wf: "ht_wf hf (ht0 d)" "ht_wf hf (ht1 d)" using inv by (simp_all add: dict_inv_def)
  from dictht_free_wf [OF wf(1) small(1)] dictht_free_wf [OF wf(2) small(2)] show ?thesis
    by (auto simp: dict_free_def dict_clear_def dict_entries_def)
qed

section \<open>Properties\<close>

text \<open>C22: The destructor of a table frees every entry exactly once: on a well-formed table, also in the middle of rehashing, it
  does not fail, and what it frees are the entries of the table, each once; \<open>clear\<close> does the same and leaves an empty table.
  (The tables have at most 2 ^ 30 buckets: the loop counts them in an \<open>int\<close>.)\<close>

theorem destructor_frees_each_once:
  assumes "dict_inv hf d" "unat (ht_size (ht0 d)) \<le> 2 ^ 30" "unat (ht_size (ht1 d)) \<le> 2 ^ 30"
  shows "\<exists>freed. HashTable_delete d = Inr freed \<and> dict_free d = Inr (HashTable_clear d, freed) \<and>
    distinct (map fst freed) \<and> map_of freed = dict_map d \<and> length freed = card (dom (dict_map d)) \<and>
    dict_inv hf (HashTable_clear d) \<and> dict_map (HashTable_clear d) = Map.empty"
proof -
  obtain freed where f: "dict_free d = Inr (dict_clear d, freed)" "mset freed = mset (dict_entries d)"
    using dict_free_spec [OF assms] by blast
  have dist: "distinct (map fst (dict_entries d))" using assms(1) by (simp add: dict_inv_def)
  from map_of_mset [OF dist f(2) [symmetric]] have m: "distinct (map fst freed)" "map_of freed = dict_map d" by (simp_all add: dict_map_def)
  have "length freed = card (dom (map_of freed))"
    using distinct_card [OF m(1)] by (simp add: dom_map_of_conv_image_fst)
  then show ?thesis using f(1) m dict_clear_inv(3) [of hf d] dict_clear_inv(4) [of d]
    by (simp add: HashTable_delete_def HashTable_clear_def)
qed

lemma destructor_frees_each_once_witness:
  "\<exists>freed. HashTable_delete colliding_table = Inr freed \<and> distinct (map fst freed) \<and> length freed = 2"
  using destructor_frees_each_once [OF colliding_table_inv(1)] colliding_table_inv(2)
  by (auto simp: colliding_table_def)

text \<open>After \<open>replace\<close> of a key with others behind it in the chain, the destructor frees those a second time.\<close>

lemma destructor_after_replace:
  "\<exists>d. dict_replace id 0 4 41 colliding_table = Inr (0, d) \<and> HashTable_delete d = Inl Use_After_Free"
proof -
  have "(case dict_replace id 0 4 41 colliding_table of Inl _ \<Rightarrow> False
      | Inr (r, d) \<Rightarrow> r = 0 \<and> HashTable_delete d = Inl Use_After_Free)"
    by code_simp
  then show ?thesis by (auto split: sum.splits prod.splits if_splits)
qed

end
