(* ===== verification/Lifetimes.thy ===== *)
theory Lifetimes
  imports Program Table_Memory
begin

text \<open>
  The ends of objects: the destructors of \<open>Buffer\<close> (\<open>src/buffer.h\<close>), \<open>TcpConnection\<close> (\<open>src/tcpConnection.cpp\<close>), \<open>Condition\<close>
  (\<open>src/condition.h\<close>), and the implicit destructor of \<open>AsyncLogging\<close> (\<open>src/asyncLogging.h\<close>), which destroys the members in the
  reverse order of their declaration. That of \<open>HashTable\<close> is in \<open>Table_Memory\<close>, those of \<open>MutexLock\<close> and \<open>Thread\<close> are in \<open>Threads\<close>.
\<close>

section \<open>Destructors\<close>

definition Buffer_delete :: "buffer \<Rightarrow> buffer" where
  "Buffer_delete b = b\<lparr>bufData := [], bufBegin := 0, bufEnd := 0, bufCount := 0, currentSize := 0, maxSize := 0,
     growFactor := F32 0 0\<rparr>"

text \<open>The body is empty; the buffers are members. The descriptor is not closed.\<close>

definition TcpConnection_delete :: "connection \<Rightarrow> connection" where
  "TcpConnection_delete c = c\<lparr>readBuffer := Buffer_delete (readBuffer c), writeBuffer := Buffer_delete (writeBuffer c)\<rparr>"

text \<open>Destroying a condition that a thread waits on is undefined.\<close>

definition Condition_delete :: "condition \<Rightarrow> condition res" where
  "Condition_delete c = (if waiters c = [] then Inr c else Inl Bad_Handle)"

text \<open>\<open>_cond\<close>, \<open>_mutex\<close>, \<open>_thread\<close>; the other members need nothing.\<close>

definition AsyncLogging_delete :: "log_threads \<Rightarrow> os_threads res" where
  "AsyncLogging_delete s =
     bind_res (Condition_delete (lcond s)) (\<lambda>_.
     bind_res (MutexLock_delete (lmutex s)) (\<lambda>_.
       Thread_delete (lthread s) (los s)))"

section \<open>Properties\<close>

lemma connection_dies_with_data: "outbox (TcpConnection_delete c) = []" "inbox (TcpConnection_delete c) = []"
  "connfd (TcpConnection_delete c) = connfd c"
  by (simp_all add: TcpConnection_delete_def Buffer_delete_def outbox_def inbox_def contents_def)

lemma unborn_thread_id: "threads_reachable conf n s \<Longrightarrow> opc s \<in> {O_New, O_Start, O_Stopped} \<Longrightarrow>
    live_threads (los s) = [] \<and> ended_threads (los s) = []"
  using threads_inv [of conf n s] by (auto simp: owner_inv_def)

text \<open>The logger has no clean end. In every reachable state its destructor is undefined behaviour when the logger has not
  been started or has been stopped, since it detaches a thread that does not exist; it goes through only while the log thread
  is there or has not been joined, and then the thread, if it has not ended, goes on with an object that is gone.\<close>

lemma logger_has_no_clean_end:
  assumes "threads_reachable conf n s"
  shows "(opc s \<in> {O_New, O_Start, O_Stopped} \<longrightarrow> AsyncLogging_delete s = Inl Bad_Handle) \<and>
    (\<forall>os. AsyncLogging_delete s = Inr os \<longrightarrow> lpc s = L_Done \<or> log_tid \<in> set (live_threads os))"
proof (intro conjI impI allI)
  assume "opc s \<in> {O_New, O_Start, O_Stopped}"
  then have "Thread_delete (lthread s) (los s) = Inl Bad_Handle" using unborn_thread_id [OF assms] by (simp add: Thread_delete_def)
  then show "AsyncLogging_delete s = Inl Bad_Handle"
    by (auto simp: AsyncLogging_delete_def Condition_delete_def MutexLock_delete_def Let_def)
next
  fix os assume d: "AsyncLogging_delete s = Inr os"
  then have "Thread_delete (lthread s) (los s) = Inr os" by (auto simp: AsyncLogging_delete_def bind_res_eq_Inr)
  then have os: "live_threads os = live_threads (los s)" "thread_id (lthread s) \<in> set (ended_threads (los s)) \<union> set (live_threads (los s))"
    by (auto simp: Thread_delete_def split: if_splits)
  have inv: "owner_inv s" using threads_inv [OF assms] by simp
  then have "lpc s \<noteq> L_None" using os(2) by (auto simp: owner_inv_def)
  then show "lpc s = L_Done \<or> log_tid \<in> set (live_threads os)" using inv os(1) by (auto simp: owner_inv_def)
qed

lemma logger_has_no_clean_end_witness: "AsyncLogging_delete (threads_init sample_log_conf 2) = Inl Bad_Handle"
  using logger_has_no_clean_end [OF threads_reachable.init [of sample_log_conf 2]] by (simp add: threads_init_def)

end
