(* ===== verification/Server_Log.thy ===== *)
theory Server_Log
  imports Program Log_Files
begin

text \<open>
  What the server puts into its log: the lines of \<open>TcpConnection::log\<close> (\<open>src/tcpConnection.cpp\<close>, \<open>src/tcpServer.cpp\<close>) in the log files
  of \<open>Log_Files\<close>. They are never empty, so they do not end the log thread; but they carry what the client has sent, line ends
  included.
\<close>

section \<open>Facts\<close>

lemma log_line_not_Nil [simp]: "TcpConnection_log th time c level msg \<noteq> []"
  by (simp add: log_shows_peer)

lemma c_str_append: "NUL \<notin> set x \<Longrightarrow> c_str (x @ y) = x @ c_str y"
  by (induction x) (auto simp: c_str_def)

lemma texts_split_line: "l \<noteq> [] \<Longrightarrow> a \<noteq> [] \<Longrightarrow> last a \<noteq> NEWLINE \<Longrightarrow> texts [a @ NEWLINE # l] = texts [a, l]"
  by (simp add: texts_def line_text_def)

lemma log_line_no_NUL: "NUL \<notin> set (TcpConnection_log th time c level msg)"
  using show_no_NUL c_str_free by (simp add: TcpConnection_log_def server_log_line_def)

lemma log_line_appends:
  "NUL \<notin> set x \<Longrightarrow> TcpConnection_log th time c level (x @ y) = TcpConnection_log th time c level x @ c_str y"
  by (simp add: log_shows_peer c_str_append c_str_no_NUL)

lemma log_line_last: "NUL \<notin> set x \<Longrightarrow> last (TcpConnection_log th time c level x) = (if x = [] then CHR '' '' else last x)"
  by (simp add: log_shows_peer c_str_no_NUL)

section \<open>Properties\<close>

text \<open>The lines of the server do not hurt the log. When all lines pushed are lines of \<open>TcpConnection::log\<close>, whatever the
  messages are, the step of the log thread on its file fails only when there is something to write and the file could not
  be opened.\<close>

lemma server_log_survives:
  assumes "disk_reachable conf d (s, lf)"
    "\<forall>l \<in> set (pushed s). \<exists>th time c level msg. l = TcpConnection_log th time c level msg"
  shows "(\<exists>e. file_step conf can_open ks s lf = Inl e) \<longleftrightarrow> log_file lf = None \<and>
    (log_pc s = Writing \<and> nextBuffer s \<noteq> [] \<or> log_pc s = Finishing \<and> currentBuffer s \<noteq> [])"
proof -
  have "[] \<notin> set (pushed s)" using assms(2) log_line_not_Nil by metis
  then have "[] \<notin> set (nextBuffer s)" "[] \<notin> set (currentBuffer s)"
    using waiting_lines_pushed [OF disk_reachable_log [OF assms(1)]] by auto
  then show ?thesis using file_step_fails [of conf can_open ks s lf] by auto
qed

definition sample_line :: string where
  "sample_line = TcpConnection_log (Thread_new ''Worker'') ''now'' sample_connection LOG_DEBUG ''hi''"

lemma sample_line_logged: "\<exists>th time c level msg. sample_line = TcpConnection_log th time c level msg"
  unfolding sample_line_def by blast

lemma server_log_survives_witness:
  "\<exists>s lf. disk_reachable sample_conf old_disk (s, lf) \<and> pushed s = [sample_line] \<and> log_pc s = Writing \<and>
     (\<exists>lf'. file_step sample_conf True [1] s lf = Inr lf')"
proof -
  let ?s = "append_push 0 (append_check sample_line (log_start sample_conf))"
  let ?lf = "\<lparr>log_file = None, log_disk = old_disk\<rparr>"
  have r: "disk_reachable sample_conf old_disk (?s, ?lf)"
    by (intro disk_reachable.step [OF _ disk_step.push] disk_reachable.step [OF _ disk_step.check] disk_reachable.init)
  let ?t = "thread_steps 3 sample_conf ''now'' ?s"
  have t: "pushed ?t = [sample_line]" "log_pc ?t = Writing"
    by (simp_all add: numeral_3_eq_3 thread_step_def append_push_def append_check_def log_start_def push_line_def open_next_def)
  have "\<exists>lf. disk_steps 3 sample_conf ''now'' ?s ?lf = Inr lf \<and> log_file lf \<noteq> None"
    by (simp add: numeral_3_eq_3 file_step_def thread_step_def append_push_def append_check_def log_start_def push_line_def
        open_next_def LogFile_new_def fopen_append_def)
  then obtain lf where lf: "disk_steps 3 sample_conf ''now'' ?s ?lf = Inr lf" "log_file lf \<noteq> None" by blast
  have d: "disk_reachable sample_conf old_disk (?t, lf)" by (rule disk_steps_reachable [OF r lf(1)])
  have "\<not> (\<exists>e. file_step sample_conf True [1] ?t lf = Inl e)"
    using server_log_survives [OF d, of True "[1]"] t(1) sample_line_logged lf(2) by simp
  then show ?thesis using d t by (cases "file_step sample_conf True [1] ?t lf") auto
qed

text \<open>C40: A client can forge lines of the log. The echo server logs what it receives; a client that sends some text, a line end
  and a line in the format of the log, with the time, address, thread and level it likes, makes the file hold the same
  as if the server had logged two messages, the second one under the name of another client.\<close>

theorem client_forges_log_line:
  assumes "conn_ok c" "length (outbox c) + length (inbox c) \<le> 2 ^ 30"
    "inbox c = x @ NEWLINE # TcpConnection_log th' time' c' level' msg'" "NUL \<notin> set x" "x = [] \<or> last x \<noteq> NEWLINE"
  shows "\<exists>c1 data. main_onMessage c = Inr (c1, [(LOG_DEBUG, data)]) \<and>
    texts [TcpConnection_log th time c LOG_DEBUG data] =
      texts [TcpConnection_log th time c LOG_DEBUG x, TcpConnection_log th' time' c' level' msg']"
proof -
  let ?l = "TcpConnection_log th' time' c' level' msg'"
  have d: "c_str (inbox c) = inbox c" using assms(3,4) log_line_no_NUL by (intro c_str_no_NUL) simp
  have "TcpConnection_log th time c LOG_DEBUG (inbox c) = TcpConnection_log th time c LOG_DEBUG x @ NEWLINE # ?l"
    using assms(3,4) log_line_appends [of x th time c LOG_DEBUG "NEWLINE # ?l"] log_line_no_NUL [of th' time' c' level' msg']
    by (simp add: c_str_no_NUL)
  moreover have "last (TcpConnection_log th time c LOG_DEBUG x) \<noteq> NEWLINE" using log_line_last [OF assms(4)] assms(5) by auto
  ultimately have "texts [TcpConnection_log th time c LOG_DEBUG (inbox c)] = texts [TcpConnection_log th time c LOG_DEBUG x, ?l]"
    using texts_split_line by simp
  then show ?thesis using main_onMessage_spec [OF assms(1,2)] d by auto
qed

lemma length_show_nat: "length (show_nat n) \<le> Suc n"
proof (induction n rule: show_nat.induct)
  case (1 n)
  then show ?case by (cases "n < 10") (auto simp: show_nat.simps [of n])
qed

lemma length_show_byte: "length (show_nat (unat (w :: 8 word))) \<le> 256"
proof -
  have "unat w < 2 ^ LENGTH(8)" by (rule unsigned_less)
  then show ?thesis using length_show_nat [of "unat w"] by simp
qed

lemma length_show_port: "length (show_nat (unat (w :: 16 word))) \<le> 65536"
proof -
  have "unat w < 2 ^ LENGTH(16)" by (rule unsigned_less)
  then show ?thesis using length_show_nat [of "unat w"] by simp
qed

lemma length_ip: "length (getIpAsString a) \<le> 1027"
  using length_show_byte [of "ucast (drop_bit 0 (s_addr a))"] length_show_byte [of "ucast (drop_bit 8 (s_addr a))"]
    length_show_byte [of "ucast (drop_bit 16 (s_addr a))"] length_show_byte [of "ucast (drop_bit 24 (s_addr a))"]
  by (simp add: getIpAsString_def dotted_def word_bytes_def)

lemma sample_line_length: "length sample_line \<le> 2 ^ 20"
  using length_ip [of "peerAddr sample_connection"] length_show_port [of "getPort (peerAddr sample_connection)"]
    length_show_nat [of 0]
  by (simp add: sample_line_def log_shows_peer Thread_new_def LOG_DEBUG_def c_str_def)

definition forging :: connection where
  "forging = (let msg = CHR ''x'' # NEWLINE # sample_line in sample_connection\<lparr>readBuffer := (readBuffer sample_connection)
     \<lparr>bufData := msg, bufCount := int (length msg), currentSize := int (length msg), maxSize := int (length msg)\<rparr>\<rparr>)"

lemma contents_full:
  assumes "bufBegin b = 0" "bufCount b = int (length (bufData b))" "currentSize b = int (length (bufData b))"
  shows "contents b = bufData b"
proof -
  have "contents b = map (\<lambda>i. bufData b ! i) [0..<length (bufData b)]" using assms by (auto simp: contents_def intro!: map_cong)
  then show ?thesis by (simp add: map_nth)
qed

lemma client_forges_log_line_witness:
  "\<exists>c1 data. main_onMessage forging = Inr (c1, [(LOG_DEBUG, data)]) \<and>
     texts [TcpConnection_log (Thread_new ''Worker'') ''now'' forging LOG_DEBUG data] =
       texts [TcpConnection_log (Thread_new ''Worker'') ''now'' forging LOG_DEBUG ''x'', sample_line]"
proof -
  have l: "length sample_line \<le> 2 ^ 20" by (rule sample_line_length)
  have ok: "conn_ok forging" using l sample_connection_facts(1)
    by (simp add: forging_def Let_def conn_ok_def buf_ok_def buf_inv_def sample_connection_def INT_MAX_def)
  have i: "inbox forging = ''x'' @ NEWLINE # sample_line"
    by (simp add: forging_def Let_def inbox_def contents_full sample_connection_def)
  have o: "outbox forging = []" using sample_connection_facts by (simp add: forging_def Let_def outbox_def)
  have len: "length (outbox forging) + length (inbox forging) \<le> 2 ^ 30" using l unfolding i o by simp
  show ?thesis unfolding sample_line_def by (rule client_forges_log_line [OF ok len i [unfolded sample_line_def]]) simp_all
qed

end
