(* ===== verification/Fair_Log.thy ===== *)
theory Fair_Log
  imports Log_Files
begin

text \<open>
  Liveness of the log of \<open>src/asyncLogging.cpp\<close>: infinite runs of \<open>Log_Files\<close>, in which the log thread gets its turn again and again
  between the steps of the appending threads. A line that has been pushed has a rank, the number of steps the log thread is away
  from writing it; every step of the thread lessens it, and no other step changes it.
\<close>

section \<open>Lines that wait\<close>

definition lines_inv :: "log_state \<Rightarrow> bool" where
  "lines_inv s \<longleftrightarrow> log_pc s \<noteq> Crashed \<and> (log_pc s \<in> {Finishing, Done} \<longrightarrow> \<not> running s) \<and>
     (log_pc s \<noteq> Writing \<longrightarrow> nextBuffer s = []) \<and>
     (log_pc s \<noteq> Done \<longrightarrow> (\<exists>out. pushed s = out @ nextBuffer s @ currentBuffer s))"

text \<open>How many lines have been written.\<close>

definition lines_out :: "log_state \<Rightarrow> nat" where
  "lines_out s = length (pushed s) - (length (nextBuffer s) + length (currentBuffer s))"

lemma lines_invD:
  assumes "lines_inv s" "running s"
  shows "log_pc s \<notin> {Crashed, Finishing, Done}" "log_pc s \<noteq> Writing \<Longrightarrow> nextBuffer s = []"
    "length (pushed s) = lines_out s + length (nextBuffer s) + length (currentBuffer s)"
    "pushed s = take (lines_out s) (pushed s) @ nextBuffer s @ currentBuffer s"
proof -
  show "log_pc s \<notin> {Crashed, Finishing, Done}" "log_pc s \<noteq> Writing \<Longrightarrow> nextBuffer s = []"
    using assms by (auto simp: lines_inv_def)
  obtain out where "pushed s = out @ nextBuffer s @ currentBuffer s" using assms by (auto simp: lines_inv_def)
  then show "length (pushed s) = lines_out s + length (nextBuffer s) + length (currentBuffer s)"
    "pushed s = take (lines_out s) (pushed s) @ nextBuffer s @ currentBuffer s"
    by (simp_all add: lines_out_def)
qed

text \<open>The steps of the log thread between it and the writing of line \<open>p\<close>: a line in \<open>_nextBuffer\<close> is written by the next one.\<close>

definition line_rank :: "nat \<Rightarrow> log_state \<Rightarrow> nat" where
  "line_rank p s = (if p < lines_out s + length (nextBuffer s) then 0
     else case log_pc s of Swapping \<Rightarrow> 1 | Testing \<Rightarrow> 2 | Opening \<Rightarrow> 3 | Starting \<Rightarrow> 3 | Resetting \<Rightarrow> 4 | Rolling \<Rightarrow> 5 | _ \<Rightarrow> 6)"

text \<open>The steps of the log thread among all steps.\<close>

definition thread_acts :: "log_conf \<Rightarrow> log_state \<times> log_out \<Rightarrow> log_state \<times> log_out \<Rightarrow> bool" where
  "thread_acts conf sl sl' \<longleftrightarrow> (\<exists>today can_open ks. fst sl' = thread_step conf today (fst sl) \<and>
     file_step conf can_open ks (fst sl) (snd sl) = Inr (snd sl'))"

definition other_acts :: "log_state \<Rightarrow> log_state \<Rightarrow> bool" where
  "other_acts s s' \<longleftrightarrow> log_pc s' = log_pc s \<and> nextBuffer s' = nextBuffer s \<and>
     (\<exists>ls. currentBuffer s' = currentBuffer s @ ls \<and> pushed s' = pushed s @ ls) \<and> (running s' \<longrightarrow> running s)"

lemma other_acts_simps: "other_acts s (append_check l s)" "other_acts s (append_push i s)" "other_acts s (log_stop s)"
  by (auto simp: other_acts_def append_check_def append_push_def push_line_def log_stop_def)

lemma disk_step_kinds: "disk_step conf sl sl' \<Longrightarrow> thread_acts conf sl sl' \<or> other_acts (fst sl) (fst sl')"
  by (cases rule: disk_step.cases) (auto simp: other_acts_simps, simp add: thread_acts_def, blast)

lemma writeLines_file:
  assumes "write_lines ks ls lf = Inr lf1"
  shows "\<exists>t. writeLines ls = Inr t"
proof (cases "ls = []")
  case False
  then have "[] \<notin> set ls" using write_lines_Inl [of ks ls lf] assms by auto
  then show ?thesis by (induction ls) (auto simp: writeLine_def)
qed simp

lemma thread_acts_lines:
  assumes "thread_acts conf sl sl'" "lines_inv (fst sl)"
  shows "lines_inv (fst sl')"
proof -
  obtain s lf s' lf' where sl: "sl = (s, lf)" "sl' = (s', lf')" by (metis prod.collapse)
  obtain today can_open ks where st: "s' = thread_step conf today s" "file_step conf can_open ks s lf = Inr lf'"
    using assms(1) sl by (auto simp: thread_acts_def)
  have w: "\<exists>t. writeLines (nextBuffer s) = Inr t" if "log_pc s = Writing"
    using st(2) that writeLines_file by (auto simp: file_step_def bind_res_eq_Inr)
  have f: "\<exists>t. writeLines (currentBuffer s) = Inr t" if "log_pc s = Finishing"
    using st(2) that writeLines_file by (cases "currentBuffer s = []") (auto simp: file_step_def bind_res_eq_Inr)
  show ?thesis
  proof (cases "log_pc s")
    case Writing
    then show ?thesis using w assms(2) sl st(1) by (auto simp: lines_inv_def thread_step_def add_text_def)
  next
    case Finishing
    then show ?thesis using f assms(2) sl st(1) by (auto simp: lines_inv_def thread_step_def add_text_def split: if_splits)
  qed (use assms(2) sl st(1) roll_cases [of conf today s] in \<open>auto simp: lines_inv_def thread_step_def open_next_def\<close>)
qed

lemma other_acts_lines: "other_acts s s' \<Longrightarrow> lines_inv s \<Longrightarrow> lines_inv s'"
  by (auto simp: other_acts_def lines_inv_def)

lemma lines_inv_reachable: "disk_reachable conf d sl \<Longrightarrow> lines_inv (fst sl)"
proof (induction rule: disk_reachable.induct)
  case (step sl sl')
  then show ?case using disk_step_kinds thread_acts_lines other_acts_lines by blast
qed (simp add: lines_inv_def log_start_def)

text \<open>No step takes back a line that is out, or the lines pushed.\<close>

lemma other_acts_waits:
  assumes "other_acts s s'" "lines_inv s" "running s'" "lines_out s \<le> p" "p < length (pushed s)"
  shows "lines_out s' = lines_out s \<and> p < length (pushed s') \<and> line_rank p s' = line_rank p s"
proof -
  obtain ls where s': "log_pc s' = log_pc s" "nextBuffer s' = nextBuffer s" "currentBuffer s' = currentBuffer s @ ls"
    "pushed s' = pushed s @ ls" "running s" using assms(1,3) by (auto simp: other_acts_def)
  have "lines_out s' = lines_out s" using s' by (simp add: lines_out_def)
  then show ?thesis using s' assms(5) by (simp add: line_rank_def)
qed

lemma thread_acts_waits:
  assumes "thread_acts conf sl sl'" "lines_inv (fst sl)" "running (fst sl)" "lines_out (fst sl) \<le> p" "p < length (pushed (fst sl))"
  shows "p < lines_out (fst sl') \<or>
    lines_out (fst sl') \<le> p \<and> p < length (pushed (fst sl')) \<and> line_rank p (fst sl') < line_rank p (fst sl)"
proof -
  obtain s lf s' lf' where sl: "sl = (s, lf)" "sl' = (s', lf')" by (metis prod.collapse)
  obtain today can_open ks where st: "s' = thread_step conf today s" "file_step conf can_open ks s lf = Inr lf'"
    using assms(1) sl by (auto simp: thread_acts_def)
  note inv = lines_invD [OF assms(2,3), unfolded sl fst_conv]
  have p: "lines_out s \<le> p" "p < length (pushed s)" using assms(4,5) sl by simp_all
  show ?thesis unfolding sl fst_conv
  proof (cases "log_pc s")
    case Writing
    then obtain lf1 where "write_lines ks (nextBuffer s) lf = Inr lf1" using st(2) by (auto simp: file_step_def bind_res_eq_Inr)
    then obtain t where t: "writeLines (nextBuffer s) = Inr t" using writeLines_file by blast
    then have s': "nextBuffer s' = []" "currentBuffer s' = currentBuffer s" "pushed s' = pushed s" "log_pc s' = Rolling"
      using Writing st(1) by (auto simp: thread_step_def add_text_def)
    then have "lines_out s' = lines_out s + length (nextBuffer s)" using inv(3) by (simp add: lines_out_def)
    then show "p < lines_out s' \<or> lines_out s' \<le> p \<and> p < length (pushed s') \<and> line_rank p s' < line_rank p s"
      using s' p Writing by (auto simp: line_rank_def)
  next
    case Swapping
    then have s': "nextBuffer s' = currentBuffer s" "currentBuffer s' = []" "pushed s' = pushed s"
      "log_pc s' = (if currentBuffer s = [] then Testing else Writing)"
      using st(1) inv(2) by (auto simp: thread_step_def)
    then show "p < lines_out s' \<or> lines_out s' \<le> p \<and> p < length (pushed s') \<and> line_rank p s' < line_rank p s"
      using inv(2,3) p Swapping by (auto simp: line_rank_def lines_out_def)
  qed (use inv p st(1) assms(3) sl roll_cases [of conf today s] in
      \<open>auto simp: thread_step_def open_next_def line_rank_def lines_out_def\<close>)
qed

section \<open>Infinite runs\<close>

definition log_path :: "log_conf \<Rightarrow> disk \<Rightarrow> (nat \<Rightarrow> log_state \<times> log_out) \<Rightarrow> bool" where
  "log_path conf d run \<longleftrightarrow> disk_reachable conf d (run 0) \<and> (\<forall>n. disk_step conf (run n) (run (Suc n)))"

definition thread_gets_turns :: "log_conf \<Rightarrow> (nat \<Rightarrow> log_state \<times> log_out) \<Rightarrow> bool" where
  "thread_gets_turns conf run \<longleftrightarrow> (\<forall>n. \<exists>m \<ge> n. thread_acts conf (run m) (run (Suc m)))"

lemma log_path_reachable: "log_path conf d run \<Longrightarrow> disk_reachable conf d (run n)"
  by (induction n) (auto simp: log_path_def intro: disk_reachable.step)

lemma line_gets_out:
  assumes path: "log_path conf d run" and fair: "thread_gets_turns conf run" and on: "\<And>k. running (fst (run k))"
    and p: "p < length (pushed (fst (run n)))"
  shows "\<exists>m \<ge> n. p < lines_out (fst (run m))"
proof (cases "p < lines_out (fst (run n))")
  case False
  let ?W = "\<lambda>m. lines_out (fst (run m)) \<le> p \<and> p < length (pushed (fst (run m)))"
  note inv = lines_inv_reachable [OF log_path_reachable [OF path]]
  have st: "disk_step conf (run m) (run (Suc m))" for m using path by (simp add: log_path_def)
  have "\<exists>m > n. p < lines_out (fst (run m))"
  proof (rule fair_progress [where r = less_than and T = "\<lambda>m. thread_acts conf (run m) (run (Suc m))" and W = ?W
        and rank = "\<lambda>m. line_rank p (fst (run m))"])
    show "\<exists>m \<ge> n. thread_acts conf (run m) (run (Suc m))" for n using fair by (simp add: thread_gets_turns_def)
  next
    fix m assume W: "?W m" and "\<not> thread_acts conf (run m) (run (Suc m))"
    then have "other_acts (fst (run m)) (fst (run (Suc m)))" using disk_step_kinds [OF st] by blast
    from other_acts_waits [OF this inv on] W
    show "p < lines_out (fst (run (Suc m))) \<or> ?W (Suc m) \<and> line_rank p (fst (run (Suc m))) = line_rank p (fst (run m))" by auto
  next
    fix m assume W: "?W m" and "thread_acts conf (run m) (run (Suc m))"
    from thread_acts_waits [OF this(2) inv on] W
    show "p < lines_out (fst (run (Suc m))) \<or>
        ?W (Suc m) \<and> (line_rank p (fst (run (Suc m))), line_rank p (fst (run m))) \<in> less_than"
      by auto
  qed (use False p in auto)
  then show ?thesis by (metis less_imp_le)
qed auto

lemma step_keeps_lines:
  assumes "disk_step conf sl sl'"
  shows "(\<exists>ls. pushed (fst sl') = pushed (fst sl) @ ls) \<and> lines_out (fst sl) \<le> lines_out (fst sl')"
  using disk_step_kinds [OF assms]
proof
  assume "thread_acts conf sl sl'"
  then obtain today where s': "fst sl' = thread_step conf today (fst sl)" by (auto simp: thread_acts_def)
  have "pushed (fst sl') = pushed (fst sl)"
    unfolding s' by (auto simp: thread_step_def open_next_def add_text_def split: log_pc.splits sum.splits)
  moreover have "length (nextBuffer (fst sl')) + length (currentBuffer (fst sl')) \<le>
      length (nextBuffer (fst sl)) + length (currentBuffer (fst sl))"
    unfolding s' by (auto simp: thread_step_def open_next_def add_text_def split: log_pc.splits sum.splits)
  ultimately show ?thesis by (simp add: lines_out_def)
qed (auto simp: other_acts_def lines_out_def)

lemma path_keeps_lines:
  assumes "log_path conf d run" "n \<le> m"
  shows "(\<exists>ls. pushed (fst (run m)) = pushed (fst (run n)) @ ls) \<and> lines_out (fst (run n)) \<le> lines_out (fst (run m))"
  using assms(2)
proof (induction m rule: dec_induct)
  case (step m)
  have "disk_step conf (run m) (run (Suc m))" using assms(1) by (simp add: log_path_def)
  from step_keeps_lines [OF this] step.IH show ?case by auto
qed simp

section \<open>Properties\<close>

text \<open>C10: Every line gets to the disk. In any run of the log in which it is not stopped and the log thread gets its turn again
  and again, whatever the other threads do meanwhile, there is a moment from which on the log files hold all lines that
  had been pushed at a given moment: each file holds what was in it before the start and a part of the log, and the parts, one
  after the other, begin with these lines.\<close>

theorem every_line_reaches_disk:
  assumes "log_path conf d run" "thread_gets_turns conf run" "\<forall>k. running (fst (run k))"
  shows "\<exists>m. \<forall>k \<ge> m. \<exists>ts. length ts = suffix (fst (run k)) \<and>
    (\<forall>i < length ts. content (log_disk (snd (run k))) (logfilename conf @ ''_'' @ show_nat i) =
       content d (logfilename conf @ ''_'' @ show_nat i) @ ts ! i) \<and>
    (\<exists>rest. concat ts = texts (pushed (fst (run n))) @ rest)"
proof -
  let ?N = "length (pushed (fst (run n)))"
  note path = assms(1) and on = assms(3) [rule_format]
  obtain m where m: "n \<le> m" "?N \<le> lines_out (fst (run m))"
  proof (cases "?N = 0")
    case False
    then obtain m where "n \<le> m" "?N - 1 < lines_out (fst (run m))"
      using line_gets_out [OF path assms(2) on, of "?N - 1" n] by auto
    then show ?thesis using that by simp
  qed (use that [of n] in simp)
  have "\<exists>ts. length ts = suffix (fst (run k)) \<and>
    (\<forall>i < length ts. content (log_disk (snd (run k))) (logfilename conf @ ''_'' @ show_nat i) =
       content d (logfilename conf @ ''_'' @ show_nat i) @ ts ! i) \<and>
    (\<exists>rest. concat ts = texts (pushed (fst (run n))) @ rest)" if k: "m \<le> k" for k
  proof -
    obtain s lf where run: "run k = (s, lf)" by (rule prod.exhaust)
    have reach: "disk_reachable conf d (s, lf)" using log_path_reachable [OF path, of k] run by simp
    have inv: "lines_inv s" "running s" using lines_inv_reachable [OF reach] on [of k] run by simp_all
    note l = lines_invD [OF inv]
    have N: "?N \<le> lines_out s" using path_keeps_lines [OF path k] m(2) run by simp
    obtain ls where ls: "pushed s = pushed (fst (run n)) @ ls" using path_keeps_lines [OF path, of n k] m(1) k run by auto
    obtain ts where ts: "length ts = suffix s" "\<forall>i < suffix s. content (log_disk lf) (logfilename conf @ ''_'' @ show_nat i) =
        content d (logfilename conf @ ''_'' @ show_nat i) @ ts ! i" "concat ts @ texts (nextBuffer s @ currentBuffer s) = texts (pushed s)"
      using log_on_disk_parts [OF reach] l(1) by auto
    have "texts (pushed s) = texts (take (lines_out s) (pushed s)) @ texts (nextBuffer s @ currentBuffer s)"
      using l(4) texts_append(1) by metis
    then have "concat ts = texts (take (lines_out s) (pushed s))" using ts(3) by simp
    moreover have "take (lines_out s) (pushed s) = pushed (fst (run n)) @ take (lines_out s - ?N) ls" using ls N by simp
    ultimately have "(\<exists>rest. concat ts = texts (pushed (fst (run n))) @ rest)" by simp
    then show ?thesis using ts(1,2) run by (intro exI [of _ ts]) simp
  qed
  then show ?thesis by blast
qed

text \<open>A run in which only the log thread makes steps, after two lines have been pushed.\<close>

fun demo_log_run :: "nat \<Rightarrow> log_state \<times> log_out" where
  "demo_log_run 0 = (append_push 0 (append_push 0 (append_check ''b'' (append_check ''a'' (log_start sample_conf)))),
     \<lparr>log_file = None, log_disk = old_disk\<rparr>)"
| "demo_log_run (Suc k) = (case demo_log_run k of (s, lf) \<Rightarrow>
     (thread_step sample_conf ''2024/01/01'' s, case file_step sample_conf True [] s lf of Inl _ \<Rightarrow> lf | Inr lf' \<Rightarrow> lf'))"

definition demo_log_inv :: "log_state \<Rightarrow> log_out \<Rightarrow> bool" where
  "demo_log_inv s lf \<longleftrightarrow> running s \<and> log_pc s \<notin> {Finishing, Done, Crashed} \<and> [] \<notin> set (nextBuffer s @ currentBuffer s) \<and>
     (log_pc s \<noteq> Starting \<longrightarrow> log_file lf \<noteq> None)"

lemma write_lines_keeps_file: "write_lines ks ls lf = Inr lf1 \<Longrightarrow> log_file lf \<noteq> None \<Longrightarrow> log_file lf1 \<noteq> None"
proof (induction ks ls lf rule: write_lines.induct)
  case (2 ks l ls lf)
  then obtain lf2 where "LogFile_writeLine (case ks of [] \<Rightarrow> 0 | k # _ \<Rightarrow> k) l lf = Inr lf2" "write_lines (tl ks) ls lf2 = Inr lf1"
    by (auto simp: bind_res_eq_Inr)
  moreover from this(1) have "log_file lf2 \<noteq> None"
    by (auto simp: LogFile_writeLine_def LogFile_write_def bind_res_eq_Inr split: if_splits)
  ultimately show ?case using 2(1) by blast
qed simp

lemma flush_keeps_file: "log_file lf \<noteq> None \<Longrightarrow> log_file (LogFile_flush lf) \<noteq> None"
  by (auto simp: LogFile_flush_def fflush_def Let_def split: prod.splits)

lemma opened_file: "log_file (LogFile_new True n d) \<noteq> None" "log_file (LogFile_assign True n lf) \<noteq> None"
  by (auto simp: LogFile_new_def LogFile_assign_def fopen_append_def Let_def)

lemma demo_log_inv_step:
  assumes "demo_log_inv s lf"
  shows "\<exists>lf'. file_step sample_conf True [] s lf = Inr lf' \<and> demo_log_inv (thread_step sample_conf day s) lf'"
proof -
  have "\<not> (\<exists>e. file_step sample_conf True [] s lf = Inl e)" using assms by (auto simp: file_step_fails demo_log_inv_def)
  then obtain lf' where lf': "file_step sample_conf True [] s lf = Inr lf'" by (cases "file_step sample_conf True [] s lf") auto
  have "demo_log_inv (thread_step sample_conf day s) lf'"
  proof (cases "log_pc s")
    case Writing
    then obtain lf1 where lf1: "write_lines [] (nextBuffer s) lf = Inr lf1" "lf' = LogFile_flush lf1"
      using lf' by (auto simp: file_step_def bind_res_eq_Inr)
    then have "log_file lf' \<noteq> None"
      using write_lines_keeps_file [OF lf1(1)] flush_keeps_file Writing assms by (auto simp: demo_log_inv_def)
    moreover obtain t where "writeLines (nextBuffer s) = Inr t" using writeLines_file [OF lf1(1)] by blast
    ultimately show ?thesis using Writing assms by (auto simp: demo_log_inv_def thread_step_def add_text_def)
  qed (use assms lf' opened_file roll_cases [of sample_conf day s] in
      \<open>auto simp: demo_log_inv_def file_step_def thread_step_def open_next_def\<close>)
  then show ?thesis using lf' by blast
qed

lemma demo_log_run_inv: "demo_log_inv (fst (demo_log_run k)) (snd (demo_log_run k))"
proof (induction k)
  case (Suc k)
  from demo_log_inv_step [OF this, of "''2024/01/01''"] show ?case by (auto split: prod.splits)
qed (simp add: demo_log_inv_def append_push_def append_check_def push_line_def log_start_def)

lemma demo_log_run_acts: "thread_acts sample_conf (demo_log_run k) (demo_log_run (Suc k))"
proof -
  obtain s lf where run: "demo_log_run k = (s, lf)" by (rule prod.exhaust)
  then obtain lf' where lf': "file_step sample_conf True [] s lf = Inr lf'"
    using demo_log_inv_step [OF demo_log_run_inv, of k "''2024/01/01''"] by auto
  then have "demo_log_run (Suc k) = (thread_step sample_conf ''2024/01/01'' s, lf')" using run by simp
  then show ?thesis using lf' run unfolding thread_acts_def by (metis fst_conv snd_conv)
qed

lemma demo_log_path: "log_path sample_conf old_disk demo_log_run"
proof -
  have "disk_step sample_conf (demo_log_run k) (demo_log_run (Suc k))" for k
    using demo_log_inv_step [OF demo_log_run_inv, of k "''2024/01/01''"]
    by (cases "demo_log_run k") (auto intro: disk_step.thread)
  moreover have "disk_reachable sample_conf old_disk (demo_log_run 0)" unfolding demo_log_run.simps
    by (intro disk_reachable.step [OF _ disk_step.push] disk_reachable.step [OF _ disk_step.check] disk_reachable.init)
  ultimately show ?thesis by (simp add: log_path_def del: demo_log_run.simps)
qed

lemma every_line_reaches_disk_witness:
  "\<exists>m. \<forall>k \<ge> m. \<exists>ts rest. length ts = suffix (fst (demo_log_run k)) \<and> concat ts = texts [''a'', ''b''] @ rest"
proof -
  have "thread_gets_turns sample_conf demo_log_run"
    using demo_log_run_acts unfolding thread_gets_turns_def by blast
  moreover have "\<forall>k. running (fst (demo_log_run k))" using demo_log_run_inv by (simp add: demo_log_inv_def)
  moreover have "pushed (fst (demo_log_run 0)) = [''a'', ''b'']"
    by (simp add: append_push_def append_check_def push_line_def log_start_def)
  ultimately show ?thesis using every_line_reaches_disk [OF demo_log_path, of 0] by metis
qed

end
