(* ===== verification/Echo_Delivery.thy ===== *)
theory Echo_Delivery
  imports Echo_Stream
begin

text \<open>
  Liveness of one connection of the echo server (\<open>src/main.cpp\<close>, \<open>src/tcpConnection.cpp\<close>) over infinite runs of \<open>Echo_Stream\<close>. The
  socket is registered edge-triggered (\<open>EPOLLET\<close>): \<open>edge_promises\<close> is what the manual of epoll promises then. The server relies on more,
  \<open>reads_then_writes\<close>: it never tries to write what it has just read, but waits for a writable event. With this everything the client
  sends comes back when its window fits the read buffer. Without it the echo can stay in the write buffer for ever, and when the window does not
  fit, the rest of a burst can stay unread for ever.
\<close>

section \<open>Runs\<close>

definition echo_path :: "nat \<Rightarrow> connection \<Rightarrow> (nat \<Rightarrow> echo_state) \<Rightarrow> (nat \<Rightarrow> echo_event) \<Rightarrow> bool" where
  "echo_path n c run evs \<longleftrightarrow> run 0 = echo_start c \<and>
     (\<forall>m. keeps_window n (evs m) (run m) \<and> echo_step (evs m) (run m) = Inr (run (Suc m)))"

definition is_readable :: "echo_event \<Rightarrow> bool" where
  "is_readable e \<longleftrightarrow> (\<exists>now. e = Readable now)"

definition takes_bytes :: "echo_event \<Rightarrow> bool" where
  "takes_bytes e \<longleftrightarrow> (\<exists>now k ks. e = Writable now (k # ks) \<and> 0 < k)"

text \<open>Edge-triggered reports: after data has come in the socket is reported readable; and after a write that could not send everything, because the
  socket was full (\<open>EAGAIN\<close>), it is reported writable when it takes something again.\<close>

definition edge_promises :: "(nat \<Rightarrow> echo_state) \<Rightarrow> (nat \<Rightarrow> echo_event) \<Rightarrow> bool" where
  "edge_promises run evs \<longleftrightarrow>
     (\<forall>m s. evs m = Client_Sends s \<and> s \<noteq> [] \<longrightarrow> (\<exists>j > m. is_readable (evs j))) \<and>
     (\<forall>m now ks. evs m = Writable now ks \<and> outbox (conn (run (Suc m))) \<noteq> [] \<longrightarrow> (\<exists>j > m. takes_bytes (evs j)))"

text \<open>What the server relies on beside this: a report that there is data is followed by a report that the socket is writable. Linux polls the
  descriptor when it reports an event, so that both are reported at once when both are true, and when the socket was full its becoming writable is
  an edge of its own. Whether the socket takes anything then is left open.\<close>

definition reads_then_writes :: "(nat \<Rightarrow> echo_event) \<Rightarrow> bool" where
  "reads_then_writes evs \<longleftrightarrow> (\<forall>m. is_readable (evs m) \<longrightarrow> (\<exists>j > m. \<exists>now ks. evs j = Writable now ks))"

text \<open>More than that: as long as there is something to send the socket takes something in the end.\<close>

definition edge_fair :: "(nat \<Rightarrow> echo_state) \<Rightarrow> (nat \<Rightarrow> echo_event) \<Rightarrow> bool" where
  "edge_fair run evs \<longleftrightarrow>
     (\<forall>m s. evs m = Client_Sends s \<and> s \<noteq> [] \<longrightarrow> (\<exists>j > m. is_readable (evs j))) \<and>
     (\<forall>m. outbox (conn (run m)) \<noteq> [] \<longrightarrow> (\<exists>j \<ge> m. takes_bytes (evs j)))"














section \<open>One burst\<close>

text \<open>The run that given events have, and the events after one burst of data: it is reported once, the answer is taken, and then
  nothing happens any more.\<close>

fun follow :: "connection \<Rightarrow> (nat \<Rightarrow> echo_event) \<Rightarrow> nat \<Rightarrow> echo_state" where
  "follow c evs 0 = echo_start c"
| "follow c evs (Suc m) = (case echo_step (evs m) (follow c evs m) of Inr st \<Rightarrow> st | Inl _ \<Rightarrow> follow c evs m)"

definition burst :: "string \<Rightarrow> nat \<Rightarrow> echo_event" where
  "burst s m = (if m = 0 then Client_Sends s else if m = 1 then Readable 0 else if m = 2 then Writable 0 [length s] else Client_Sends [])"

lemma follow_step:
  assumes "fresh_echo c"
  shows "echo_inv (maxSize (readBuffer c)) (maxSize (writeBuffer c)) (follow c evs m)"
    "echo_step (evs m) (follow c evs m) = Inr (follow c evs (Suc m))"
proof -
  show inv: "echo_inv (maxSize (readBuffer c)) (maxSize (writeBuffer c)) (follow c evs m)" for m
  proof (induction m)
    case (Suc m)
    from echo_step_inv [OF this, of "evs m"] show ?case by auto
  qed (simp add: echo_inv_start [OF assms])
  show "echo_step (evs m) (follow c evs m) = Inr (follow c evs (Suc m))" using echo_step_inv [OF inv, of "evs m" m] by auto
qed

lemma burst_run:
  assumes "fresh_echo c" "s \<noteq> []" "length s \<le> nat (maxSize (writeBuffer c))" "NUL \<notin> set s"
  defines "run \<equiv> follow c (burst s)" and "r \<equiv> nat (maxSize (readBuffer c))"
  shows "echo_path (length s) c run (burst s)" "edge_fair run (burst s)"
    "3 \<le> j \<Longrightarrow> client_sent (run j) = s \<and> client_got (run j) = take r s"
    "j < 3 \<Longrightarrow> client_got (run j) = []" "edge_promises run (burst s)"
proof -
  let ?wm = "maxSize (writeBuffer c)" and ?rm = "maxSize (readBuffer c)"
  note f = follow_step [OF assms(1), of "burst s", folded run_def]
  have o: "outbox c = []" using assms(1) by (simp add: fresh_echo_def)
  have r0: "run 0 = echo_start c" by (simp add: run_def)
  have r1: "run 1 = (echo_start c)\<lparr>wire := [s], client_sent := s\<rparr>"
    using f(2) [of 0] r0 assms(2) by (simp add: burst_def echo_start_def)
  have "conn_ok c" using assms(1) by (simp add: fresh_echo_def)
  from rooms(2) [OF this] o have room: "out_room c = nat ?wm" by simp
  have w1: "wire (run 1) \<noteq> []" "concat (wire (run 1)) = s" using r1 by simp_all
  have s2: "echo_step (Readable 0) (run 1) = Inr (run 2)" using f(2) [of 1] by (simp add: burst_def numeral_2_eq_2)
  have "c_str (take r s) = take r s" by (rule c_str_no_NUL) (use assms(4) in_set_takeD in fast)
  moreover have "take (nat ?wm) (take r s) = take r s" by (rule take_all) (use assms(3) in simp)
  ultimately have r2: "outbox (conn (run 2)) = take r s" "concat (wire (run 2)) = drop r s" "client_got (run 2) = []" "client_sent (run 2) = s"
    using readable_step [OF f(1) w1(1), of 0] s2 w1(2) r1 o room by (auto simp: r_def echo_start_def simp del: take_take)
  have s3: "echo_step (Writable 0 [length s]) (run 2) = Inr (run 3)" using f(2) [of 2] by (simp add: burst_def numeral_3_eq_3 numeral_2_eq_2)
  have "length (outbox (conn (run 2))) \<le> length s" using r2(1) by simp
  from send_loop_all [OF this, of "[]"] have sl: "send_loop [length s] (outbox (conn (run 2))) 0 = length (outbox (conn (run 2)))" .
  obtain st where st: "echo_step (Writable 0 [length s]) (run 2) = Inr st" "wire st = wire (run 2)"
    "client_got st @ under_way st = client_got (run 2) @ under_way (run 2)" "client_sent st = client_sent (run 2)"
    "outbox (conn st) = drop (send_loop [length s] (outbox (conn (run 2))) 0) (outbox (conn (run 2)))"
    using writable_step [OF f(1) [of 2], of 0 "[length s]"] by blast
  have "st = run 3" using st(1) s3 by simp
  then have "client_sent (run 3) = s" "outbox (conn (run 3)) = []" "client_got (run 3) @ drop r s = take r s @ drop r s"
    using st(2-5) sl r2 by (simp_all add: under_way_def)
  then have r3: "client_got (run 3) = take r s" "client_sent (run 3) = s" "outbox (conn (run 3)) = []"
    by (simp_all only: append_same_eq)
  have later: "run j = run 3" if "3 \<le> j" for j
    using that
  proof (induction j rule: dec_induct)
    case (step j)
    have "burst s j = Client_Sends []" using step.hyps by (simp add: burst_def)
    then show ?case using f(2) [of j] step.IH by simp
  qed simp
  show "3 \<le> j \<Longrightarrow> client_sent (run j) = s \<and> client_got (run j) = take r s" using later [of j] r3 by simp
  show "j < 3 \<Longrightarrow> client_got (run j) = []" using r0 r1 r2(3) by (auto simp: less_Suc_eq numeral_3_eq_3 numeral_2_eq_2 echo_start_def)
  have "keeps_window (length s) (burst s m) (run m)" for m
    using r0 assms(4) later [of m] r3 by (auto simp: burst_def keeps_window_def echo_start_def)
  then show "echo_path (length s) c run (burst s)" using f(2) r0 by (simp add: echo_path_def)
  have "\<exists>j > m. is_readable (burst s j)" if "burst s m = Client_Sends x" "x \<noteq> []" for m x
  proof -
    have "m = 0" using that by (auto simp: burst_def split: if_splits)
    then show ?thesis by (intro exI [of _ 1]) (simp add: burst_def is_readable_def)
  qed
  moreover have "\<exists>j \<ge> m. takes_bytes (burst s j)" if "outbox (conn (run m)) \<noteq> []" for m
  proof -
    have "m < 3" using later [of m] r3(3) that by (cases "m < 3") auto
    then show ?thesis using assms(2) by (intro exI [of _ 2]) (simp add: burst_def takes_bytes_def)
  qed
  ultimately show fair: "edge_fair run (burst s)" unfolding edge_fair_def by blast
  have "\<exists>j > m. is_readable (burst s j)" if "burst s m = Client_Sends x" "x \<noteq> []" for m x
    using fair that unfolding edge_fair_def by blast
  moreover have "outbox (conn (run (Suc m))) = []" if "burst s m = Writable now ks" for m now ks
    using that r3(3) by (auto simp: burst_def numeral_3_eq_3 numeral_2_eq_2 split: if_splits)
  ultimately show "edge_promises run (burst s)" by (auto simp: edge_promises_def)
qed

lemma burst_writes: "reads_then_writes (burst s)"
proof -
  have "\<exists>j > m. \<exists>now ks. burst s j = Writable now ks" if "is_readable (burst s m)" for m
  proof -
    have "m = 1" using that by (auto simp: burst_def is_readable_def split: if_splits)
    then show ?thesis by (intro exI [of _ 2]) (simp add: burst_def)
  qed
  then show ?thesis by (simp add: reads_then_writes_def)
qed

text \<open>Nothing but what the manual promises: the socket is reported writable when it is registered, then the client sends, the data is
  reported, and that is all.\<close>

definition quiet_socket :: "string \<Rightarrow> nat \<Rightarrow> echo_event" where
  "quiet_socket s m = (if m = 0 then Writable 0 [length s] else if m = 1 then Client_Sends s else if m = 2 then Readable 0 else Client_Sends [])"

lemma quiet_run:
  assumes "fresh_echo c" "s \<noteq> []" "length s \<le> nat (maxSize (writeBuffer c))" "length s \<le> nat (maxSize (readBuffer c))" "NUL \<notin> set s"
  defines "run \<equiv> follow c (quiet_socket s)"
  shows "echo_path (length s) c run (quiet_socket s)" "edge_promises run (quiet_socket s)"
    "client_got (run j) = []" "3 \<le> j \<Longrightarrow> client_sent (run j) = s \<and> outbox (conn (run j)) = s"
proof -
  let ?wm = "maxSize (writeBuffer c)" and ?rm = "maxSize (readBuffer c)" and ?e = "quiet_socket s"
  note f = follow_step [OF assms(1), of ?e, folded run_def]
  have o: "outbox c = []" using assms(1) by (simp add: fresh_echo_def)
  have r0: "run 0 = echo_start c" by (simp add: run_def)
  have s1: "echo_step (Writable 0 [length s]) (run 0) = Inr (run 1)" using f(2) [of 0] by (simp add: quiet_socket_def)
  have r1: "wire (run 1) = []" "client_got (run 1) = []" "client_sent (run 1) = []" "outbox (conn (run 1)) = []"
    using writable_step [OF f(1) [of 0], of 0 "[length s]"] s1 by (auto simp: r0 echo_start_def under_way_def o)
  have r2: "run 2 = (run 1)\<lparr>wire := [s], client_sent := s\<rparr>"
    using f(2) [of 1] assms(2) r1 by (simp add: quiet_socket_def numeral_2_eq_2)
  then have w2: "wire (run 2) \<noteq> []" "concat (wire (run 2)) = s" by simp_all
  have ok2: "conn_ok (conn (run 2))" and max2: "maxSize (writeBuffer (conn (run 2))) = ?wm"
    using f(1) [of 2] by (simp_all add: echo_inv_def)
  from rooms(2) [OF ok2] max2 r1(4) r2 have room: "out_room (conn (run 2)) = nat ?wm" by simp
  have s3: "echo_step (Readable 0) (run 2) = Inr (run 3)" using f(2) [of 2] by (simp add: quiet_socket_def numeral_3_eq_3 numeral_2_eq_2)
  have "c_str s = s" by (rule c_str_no_NUL [OF assms(5)])
  then have r3: "outbox (conn (run 3)) = s" "client_got (run 3) = []" "client_sent (run 3) = s"
    using readable_step [OF f(1) w2(1), of 0] s3 w2(2) r2 r1 room assms(3,4) by (auto simp del: take_take)
  have later: "run j = run 3" if "3 \<le> j" for j
    using that
  proof (induction j rule: dec_induct)
    case (step j)
    have "?e j = Client_Sends []" using step.hyps by (simp add: quiet_socket_def)
    then show ?case using f(2) [of j] step.IH by simp
  qed simp
  show "3 \<le> j \<Longrightarrow> client_sent (run j) = s \<and> outbox (conn (run j)) = s" using later [of j] r3 by simp
  show "client_got (run j) = []"
  proof (cases "j < 3")
    case True
    then have "j = 0 \<or> j = 1 \<or> j = 2" by auto
    then show ?thesis using r0 r1(2) r2 by (auto simp: echo_start_def)
  qed (use later [of j] r3(2) in simp)
  have "keeps_window (length s) (?e m) (run m)" for m
    using r1(2,3) assms(5) later [of m] r3 by (auto simp: quiet_socket_def keeps_window_def)
  then show "echo_path (length s) c run ?e" using f(2) r0 by (simp add: echo_path_def)
  have "\<exists>j > m. is_readable (?e j)" if "?e m = Client_Sends x" "x \<noteq> []" for m x
  proof -
    have "m = 1" using that by (auto simp: quiet_socket_def split: if_splits)
    then show ?thesis by (intro exI [of _ 2]) (simp add: quiet_socket_def is_readable_def)
  qed
  moreover have "outbox (conn (run (Suc m))) = []" if "?e m = Writable now ks" for m now ks
    using that r1(4) by (auto simp: quiet_socket_def split: if_splits)
  ultimately show "edge_promises run ?e" by (auto simp: edge_promises_def)
qed

section \<open>Properties\<close>



text \<open>C34: The server relies on more than an edge-triggered socket promises. It puts its answer into the write buffer and waits for a
  writable event, but the one event that the manual promises for a socket that never was full comes when the socket is registered, before there
  is anything to send. There is a run that keeps the promises in which the client's data is read, and its echo stays in the write buffer for ever.\<close>

theorem write_edge_stall:
  assumes "fresh_echo c" "s \<noteq> []" "length s \<le> nat (maxSize (readBuffer c))" "length s \<le> nat (maxSize (writeBuffer c))" "NUL \<notin> set s"
  shows "\<exists>run evs. echo_path (length s) c run evs \<and> edge_promises run evs \<and> evs 0 = Writable 0 [length s] \<and>
    (\<forall>j. client_got (run j) = []) \<and> (\<forall>j \<ge> 3. client_sent (run j) = s \<and> outbox (conn (run j)) = s)"
proof -
  note q = quiet_run [OF assms(1,2,4,3,5)]
  show ?thesis using q by (intro exI [of _ "follow c (quiet_socket s)"] exI [of _ "quiet_socket s"]) (simp add: quiet_socket_def)
qed

lemma write_edge_stall_witness:
  "\<exists>run evs. edge_promises run evs \<and> client_sent (run 3) = ''hello'' \<and> (\<forall>j. client_got (run j) = [])"
  using write_edge_stall [OF sample_fresh, of "''hello''"] by (fastforce simp: sample_connection_facts)

text \<open>C33: The window has to fit the read buffer. A burst that does not is reported once; the connection reads what its read buffer
  holds and leaves the rest in the socket. That is all that an edge-triggered socket promises: there is a run that keeps every
  promise in which the client, although it stays within the write buffer, waits for the rest of its echo for ever.\<close>

theorem edge_triggered_stall:
  assumes "fresh_echo c" "nat (maxSize (readBuffer c)) < length s" "length s \<le> nat (maxSize (writeBuffer c))" "NUL \<notin> set s"
  shows "\<exists>run evs. echo_path (length s) c run evs \<and> edge_promises run evs \<and> reads_then_writes evs \<and> edge_fair run evs \<and>
    (\<forall>j \<ge> 3. client_sent (run j) = s) \<and>
    (\<forall>j. length (client_got (run j)) \<le> nat (maxSize (readBuffer c)) \<and> client_got (run j) \<noteq> s)"
proof -
  let ?r = "nat (maxSize (readBuffer c))"
  have ne: "s \<noteq> []" using assms(2) by auto
  note b = burst_run [OF assms(1) ne assms(3,4)]
  have "length (client_got (follow c (burst s) j)) \<le> ?r" for j using b(3,4) [of j] by (cases "j < 3") auto
  then have "length (client_got (follow c (burst s) j)) \<le> ?r \<and> client_got (follow c (burst s) j) \<noteq> s" for j
    using assms(2) by (metis not_le)
  then show ?thesis using b(1,2,3,5) burst_writes by blast
qed

definition narrow_connection :: connection where
  "narrow_connection = sample_connection\<lparr>readBuffer := (readBuffer sample_connection)\<lparr>maxSize := 4\<rparr>\<rparr>"

lemma edge_triggered_stall_witness:
  "\<exists>run evs. edge_fair run evs \<and> client_sent (run 3) = ''hello'' \<and> (\<forall>j. client_got (run j) \<noteq> ''hello'')"
proof -
  have "fresh_echo narrow_connection" "maxSize (readBuffer narrow_connection) = 4" "maxSize (writeBuffer narrow_connection) = 16"
    using sample_fresh
    by (simp_all add: fresh_echo_def narrow_connection_def sample_connection_def conn_ok_def buf_ok_def buf_inv_def inbox_def outbox_def
        contents_def INT_MAX_def)
  then show ?thesis using edge_triggered_stall [of narrow_connection "''hello''"] by fastforce
qed

end
