(* ===== verification/Eviction_Limits.thy ===== *)
theory Eviction_Limits
  imports Worker
begin

text \<open>
  What the evictions of \<open>src/worker.cpp\<close> do about the limits of the configuration: how many connections \<open>Worker::eviction\<close> takes out
  of the pool, and what that means for the number of connections over the rounds of \<open>Worker::workFunction\<close>.
\<close>

section \<open>Who is evicted\<close>

text \<open>How long the connections of the pool have been idle.\<close>

definition idle_times :: "worker \<Rightarrow> int \<Rightarrow> int set" where
  "idle_times w now = {now - lastActiveTime (heap w ! a) | k a. pool_map w k = Some (Some a)}"

lemma evict_loop_best:
  "worker_ok hf G w \<Longrightarrow> INT_time now \<Longrightarrow> pool_map w \<noteq> Map.empty \<Longrightarrow>
   evict_loop hf k now mid mt rs w = Inr None \<or>
   (\<exists>mid' mt' rs' w'. evict_loop hf k now mid mt rs w = Inr (Some (Some (mid', mt'), rs', w')) \<and>
     (mid' = mid \<and> mt' = mt \<or> mt < mt' \<and> mt' \<in> idle_times w now \<and> mid' \<in> dom (pool_map w)) \<and>
     (0 < k \<and> (\<forall>t \<in> idle_times w now. mt < t) \<longrightarrow> mt < mt'))"
proof (induction k arbitrary: mid mt rs w)
  case (Suc k)
  note d = worker_invD [OF Suc.prems(1)]
  have ne: "\<not> dict_empty (connectionPool w)" using dict_empty_iff [OF d(1)] Suc.prems(3) by simp
  from random_conn_ok [OF Suc.prems(1,3), of rs] show ?case
  proof (elim disjE exE conjE)
    assume "random_conn hf rs w = Inr None"
    then show ?thesis using ne by simp
  next
    fix a rs1 w1 assume r: "random_conn hf rs w = Inr (Some (Some a, rs1, w1))" and w1: "worker_ok hf G w1"
      "pool_map w1 = pool_map w" "heap w1 = heap w" "incomingConnection w1 = incomingConnection w"
      and a: "a < length (heap w)" "pool_map w (conn_id (heap w ! a)) = Some (Some a)" "\<not> conn_closed (heap w ! a)"
    let ?t = "now - lastActiveTime (heap w ! a)" and ?i = "conn_id (heap w ! a)"
    have t: "c_int ?t = Inr ?t" using Suc.prems(2) d(5) [OF a(1)]
      by (simp add: c_int_def INT_time_def INT_MIN_def INT_MAX_def)
    have same: "idle_times w1 now = idle_times w now" using w1 by (simp add: idle_times_def)
    have it: "?t \<in> idle_times w now" using a(2) unfolding idle_times_def by blast
    define x y where "x = (if ?t > mt then ?i else mid)" and "y = (if ?t > mt then ?t else mt)"
    have loop: "evict_loop hf (Suc k) now mid mt rs w = evict_loop hf k now x y rs1 w1"
      using ne r a w1(3) t by (simp add: x_def y_def)
    have xy: "x = mid \<and> y = mt \<or> mt < y \<and> y \<in> idle_times w now \<and> x \<in> dom (pool_map w)"
      "(\<forall>t \<in> idle_times w now. mt < t) \<longrightarrow> mt < y" "mt \<le> y" using it a(2) by (auto simp: x_def y_def)
    from Suc.IH [OF w1(1) Suc.prems(2), of x y rs1] Suc.prems(3) w1(2) have "evict_loop hf k now x y rs1 w1 = Inr None \<or>
      (\<exists>mid' mt' rs' w'. evict_loop hf k now x y rs1 w1 = Inr (Some (Some (mid', mt'), rs', w')) \<and>
        (mid' = x \<and> mt' = y \<or> y < mt' \<and> mt' \<in> idle_times w now \<and> mid' \<in> dom (pool_map w)))"
      unfolding same by auto
    then show ?thesis unfolding loop
    proof (elim disjE exE conjE)
      fix mid' mt' rs' w' assume e: "evict_loop hf k now x y rs1 w1 = Inr (Some (Some (mid', mt'), rs', w'))"
        and m: "y < mt'" "mt' \<in> idle_times w now" "mid' \<in> dom (pool_map w)"
      then show "evict_loop hf k now x y rs1 w1 = Inr None \<or>
        (\<exists>mid' mt' rs' w'. evict_loop hf k now x y rs1 w1 = Inr (Some (Some (mid', mt'), rs', w')) \<and>
          (mid' = mid \<and> mt' = mt \<or> mt < mt' \<and> mt' \<in> idle_times w now \<and> mid' \<in> dom (pool_map w)) \<and>
          (0 < Suc k \<and> (\<forall>t \<in> idle_times w now. mt < t) \<longrightarrow> mt < mt'))"
        using xy(3) by auto
    qed (use xy in auto)
  qed
qed auto

text \<open>The removal of the one that has been found.\<close>

lemma forced_eviction:
  assumes ok: "worker_ok hf G w" and now: "INT_time now" and room: "card (dom (pool_map w)) < 2 ^ 29" and n: "0 < n"
    and ne: "pool_map w \<noteq> Map.empty" and id: "NO_ID \<notin> dom (pool_map w)"
  shows "evictRandomN hf cfg n True now rs w = Inr None \<or>
    (\<exists>rs' w'. evictRandomN hf cfg n True now rs w = Inr (Some (rs', w')) \<and> worker_ok hf G w' \<and>
       ((\<forall>t \<in> idle_times w now. 0 < t) \<longrightarrow> (\<exists>k \<in> dom (pool_map w). pool_map w' = (pool_map w)(k := None))) \<and>
       ((\<forall>t \<in> idle_times w now. t \<le> 0) \<longrightarrow> pool_map w' = pool_map w))"
proof -
  note best = evict_loop_best [OF ok now ne, of "nat n" NO_ID 0 rs]
  have "candidate w now NO_ID 0" by (simp add: candidate_def)
  note keep = evict_loop_ok [OF ok now this, of "nat n" rs]
  show ?thesis
  proof (cases "evict_loop hf (nat n) now NO_ID 0 rs w = Inr None")
    case True
    then show ?thesis using n by (simp add: evictRandomN_def)
  next
    case False
    with best obtain mid mt rs1 w1 where e: "evict_loop hf (nat n) now NO_ID 0 rs w = Inr (Some (Some (mid, mt), rs1, w1))"
      and m: "mid = NO_ID \<and> mt = 0 \<or> 0 < mt \<and> mt \<in> idle_times w now \<and> mid \<in> dom (pool_map w)"
        "0 < nat n \<and> (\<forall>t \<in> idle_times w now. 0 < t) \<longrightarrow> 0 < mt" by blast
    from keep e have w1: "worker_ok hf G w1" "pool_map w1 = pool_map w" "heap w1 = heap w" and c: "candidate w now mid mt" by auto
    show ?thesis
    proof (cases "mid = NO_ID")
      case True
      then have "evictRandomN hf cfg n True now rs w = Inr (Some (rs1, w1))" using n e by (simp add: evictRandomN_def)
      moreover have "\<not> (\<forall>t \<in> idle_times w now. 0 < t)" using True m n id by auto
      ultimately show ?thesis using w1 by auto
    next
      case mid: False
      then have mt: "0 < mt" "mt \<in> idle_times w now" "mid \<in> dom (pool_map w)" using m(1) by auto
      obtain a where a: "pool_map w mid = Some (Some a)" "a < length (heap w)" "conn_id (heap w ! a) = mid"
        using c mid by (auto simp: candidate_def)
      obtain dd where dd: "dict_at hf None mid (connectionPool w1) = Inr (Some a, dd)"
        "worker_ok hf G (w1\<lparr>connectionPool := dd\<rparr>)" "dict_map dd = pool_map w1"
        using pool_at [OF w1(1), of mid "Some a"] room a(1) w1(2) by metis
      obtain w2 where w2: "removeConnection hf (Some a) (w1\<lparr>connectionPool := dd\<rparr>) = Inr w2" "worker_ok hf G w2"
        "pool_map w2 = (pool_map w)(mid := None)"
        using removeConnection_spec [OF dd(2), of a] a(2,3) w1 dd(3) by auto
      have "evictRandomN hf cfg n True now rs w = Inr (Some (rs1, w2))" using n e mid dd(1) w2(1) by (simp add: evictRandomN_def)
      moreover have "\<not> (\<forall>t \<in> idle_times w now. t \<le> 0)" using mt(1,2) by force
      ultimately show ?thesis using w2 mt(3) by blast
    qed
  qed
qed

lemma random_eviction:
  assumes ok: "worker_ok hf G w" and ne: "pool_map w \<noteq> Map.empty" and rule: "max_tcp_eviction_rule cfg = Some MAX_TCP_EVICTION_RANDOM"
  shows "eviction hf cfg now rs w = Inr None \<or> (\<exists>rs' w'. eviction hf cfg now rs w = Inr (Some (rs', w')) \<and> worker_ok hf G w' \<and>
    incomingConnection w' = incomingConnection w \<and> (\<exists>k \<in> dom (pool_map w). pool_map w' = (pool_map w)(k := None)))"
  using random_conn_ok [OF ok ne, of rs]
proof (elim disjE exE conjE)
  have nn: "MAX_TCP_EVICTION_RANDOM \<noteq> MAX_TCP_EVICTION_NONE" by (simp add: MAX_TCP_EVICTION_RANDOM_def MAX_TCP_EVICTION_NONE_def)
  {
    assume "random_conn hf rs w = Inr None"
    then show ?thesis using rule nn by (simp add: eviction_def)
  next
    fix a rs1 w1 assume r: "random_conn hf rs w = Inr (Some (Some a, rs1, w1))" and w1: "worker_ok hf G w1"
      "pool_map w1 = pool_map w" "heap w1 = heap w" "incomingConnection w1 = incomingConnection w"
      and a: "a < length (heap w)" "pool_map w (conn_id (heap w ! a)) = Some (Some a)"
    obtain w2 where w2: "removeConnection hf (Some a) w1 = Inr w2" "worker_ok hf G w2"
      "pool_map w2 = (pool_map w)(conn_id (heap w ! a) := None)" "incomingConnection w2 = incomingConnection w"
      using removeConnection_spec [OF w1(1), of a] a w1 by auto
    have "eviction hf cfg now rs w = Inr (Some (rs1, w2))" using rule nn r w2(1) by (simp add: eviction_def)
    then show ?thesis using w2 a(2) by blast
  }
qed

text \<open>What one eviction does, for both rules.\<close>

lemma eviction_removes:
  assumes "worker_ok hf G w" "INT_time now" "pool_map w \<noteq> Map.empty" "NO_ID \<notin> dom (pool_map w)" "card (dom (pool_map w)) < 2 ^ 29"
    "max_tcp_eviction_rule cfg = Some rule" "eviction_pool_size cfg = Some sz" "0 < sz"
  shows "eviction hf cfg now rs w = Inr None \<or>
    (\<exists>rs' w'. eviction hf cfg now rs w = Inr (Some (rs', w')) \<and> worker_ok hf G w' \<and>
       (rule = MAX_TCP_EVICTION_RANDOM \<or> rule = MAX_TCP_EVICTION_INACTIVE \<and> (\<forall>t \<in> idle_times w now. 0 < t) \<longrightarrow>
          (\<exists>k \<in> dom (pool_map w). pool_map w' = (pool_map w)(k := None))) \<and>
       (rule = MAX_TCP_EVICTION_INACTIVE \<and> (\<forall>t \<in> idle_times w now. t \<le> 0) \<longrightarrow> pool_map w' = pool_map w))"
proof -
  note rules = MAX_TCP_EVICTION_RANDOM_def MAX_TCP_EVICTION_NONE_def MAX_TCP_EVICTION_INACTIVE_def
  consider (rnd) "rule = MAX_TCP_EVICTION_RANDOM" | (ina) "rule = MAX_TCP_EVICTION_INACTIVE"
    | (oth) "rule \<noteq> MAX_TCP_EVICTION_RANDOM" "rule \<noteq> MAX_TCP_EVICTION_INACTIVE" by blast
  then show ?thesis
  proof cases
    case rnd
    then show ?thesis using random_eviction [OF assms(1,3), of cfg now rs] assms(6) by (auto simp: rules)
  next
    case ina
    have "finite (dom (pool_map w))" "dom (pool_map w) \<noteq> {}" using assms(3) by (simp_all add: pool_map_def dict_finite)
    then have "0 < card (dom (pool_map w))" by (simp add: card_gt_0_iff)
    moreover have "dict_size (connectionPool w) = int (card (dom (pool_map w)))"
      using pool.size_law [OF worker_invD(1) [OF assms(1)]] by (simp add: pool_map_def)
    ultimately have "0 < min (dict_size (connectionPool w)) sz" using assms(8) by simp
    moreover have "eviction hf cfg now rs w = evictRandomN hf cfg (min (dict_size (connectionPool w)) sz) True now rs w"
      using ina assms(6,7) by (simp add: eviction_def rules)
    ultimately show ?thesis using forced_eviction [OF assms(1,2,5) _ assms(3,4), of _ cfg rs] ina by (auto simp: rules)
  next
    case oth
    then have "eviction hf cfg now rs w = Inr (Some (rs, w))" using assms(6) by (simp add: eviction_def)
    then show ?thesis using oth assms(1) by simp
  qed
qed

section \<open>A round without events\<close>

lemma card_removed: "k \<in> dom (pool_map w) \<Longrightarrow> pool_map w' = (pool_map w)(k := None) \<Longrightarrow>
    card (dom (pool_map w')) = card (dom (pool_map w)) - 1"
  by (simp add: pool_map_def dict_finite)

context event_contract begin

lemma registration_exact:
  assumes ok: "worker_ok hf G w" and room: "pool_room w"
  shows "\<exists>w'. registerNewConnection hf cbs w = Inr w' \<and> worker_ok hf G w' \<and> incomingConnection w' = [] \<and>
    card (dom (pool_map w')) = card (dom (pool_map w)) + length (incomingConnection w)"
proof -
  obtain w' where w': "registerNewConnection hf cbs w = Inr w'" "worker_ok hf G w'" "incomingConnection w' = []"
    "dom (pool_map w) \<subseteq> dom (pool_map w')" "card (dom (pool_map w')) \<le> card (dom (pool_map w)) + length (incomingConnection w)"
    "\<forall>a. Some a \<in> set (incomingConnection w) \<longrightarrow> pool_map w' (conn_id (heap w ! a)) = Some (Some a)"
    using registerNewConnection_ok [OF ok room] by blast
  from worker_invD(3) [OF ok] obtain as where as: "incomingConnection w = map Some as" by (auto simp: queue_ok_def)
  note q = queue_okD [OF worker_invD(3) [OF ok] as]
  let ?I = "(\<lambda>a. conn_id (heap w ! a)) ` set as"
  have fin: "finite (dom (pool_map v))" for v by (simp add: pool_map_def dict_finite)
  have "card ?I = length as" using q(2) distinct_card [of "map (\<lambda>a. conn_id (heap w ! a)) as"] by simp
  moreover have "dom (pool_map w) \<inter> ?I = {}" using q(1) by auto
  ultimately have "card (dom (pool_map w) \<union> ?I) = card (dom (pool_map w)) + length as"
    using card_Un_disjoint [OF fin, of ?I w] by simp
  moreover have "dom (pool_map w) \<union> ?I \<subseteq> dom (pool_map w')" using w'(4,6) as by auto
  ultimately have "card (dom (pool_map w)) + length as \<le> card (dom (pool_map w'))" using card_mono [OF fin] by metis
  then show ?thesis using w'(1-3,5) as by simp
qed

lemma round_balance_ok:
  assumes ok: "worker_ok hf G w" "pool_room w" and cfg: "inactive_tcp_eviction_rule cfg = Some INACTIVE_TCP_EVICTION_NONE"
    "max_tcp_eviction_rule cfg = Some MAX_TCP_EVICTION_RANDOM" "max_tcp_per_worker cfg = Some m" "0 \<le> m"
  shows "work_round hf cbs cfg [] t1 t2 False rs w = Inr None \<or>
    (\<exists>w'. work_round hf cbs cfg [] t1 t2 False rs w = Inr (Some w') \<and> worker_ok hf G w' \<and> incomingConnection w' = [] \<and>
      card (dom (pool_map w')) = (let n = card (dom (pool_map w)) + length (incomingConnection w) in if m < int n then n - 1 else n))"
proof -
  obtain w1 where w1: "registerNewConnection hf cbs w = Inr w1" "worker_ok hf G w1" "incomingConnection w1 = []"
    "card (dom (pool_map w1)) = card (dom (pool_map w)) + length (incomingConnection w)" using registration_exact [OF ok] by blast
  have size: "dict_size (connectionPool w1) = int (card (dom (pool_map w1)))"
    using pool.size_law [OF worker_invD(1) [OF w1(2)]] by (simp add: pool_map_def)
  have round: "work_round hf cbs cfg [] t1 t2 False rs w =
      (if m < int (card (dom (pool_map w1))) then bind_env (eviction hf cfg t2 rs w1) (\<lambda>(_, w4). Inr (Some w4)) else Inr (Some w1))"
    using w1(1) cfg by (simp add: work_round_def manageInactiveConnection_def size)
  show ?thesis
  proof (cases "m < int (card (dom (pool_map w1)))")
    case True
    then have "pool_map w1 \<noteq> Map.empty" using cfg(4) by auto
    from random_eviction [OF w1(2) this cfg(2), of t2 rs] show ?thesis
    proof (elim disjE exE conjE bexE)
      fix rs' w' k assume e: "eviction hf cfg t2 rs w1 = Inr (Some (rs', w'))" "worker_ok hf G w'"
        "incomingConnection w' = incomingConnection w1" "k \<in> dom (pool_map w1)" "pool_map w' = (pool_map w1)(k := None)"
      from card_removed [OF e(4,5)] show ?thesis using True round e(1-3) w1(3,4) by (simp add: Let_def)
    qed (use True round in simp)
  qed (use round w1 in \<open>simp add: Let_def\<close>)
qed

text \<open>Which evictions take out a connection whenever there is one: random ones, and the other ones at a time when no connection is active.\<close>

lemma quiet_round_ok:
  assumes ok: "worker_ok hf G w" and room: "card (dom (pool_map w)) < 2 ^ 29" and q: "incomingConnection w = []"
    and cfg: "inactive_tcp_eviction_rule cfg = Some INACTIVE_TCP_EVICTION_NONE" "max_tcp_eviction_rule cfg = Some rule"
      "rule \<in> {MAX_TCP_EVICTION_RANDOM, MAX_TCP_EVICTION_INACTIVE}" "max_tcp_per_worker cfg = Some m" "0 \<le> m"
      "eviction_pool_size cfg = Some sz" "0 < sz"
    and t: "INT_time t" "rule = MAX_TCP_EVICTION_INACTIVE \<longrightarrow> (\<forall>c \<in> set (heap w). lastActiveTime c < t)" and id: "NO_ID \<notin> dom (pool_map w)"
  shows "work_round hf cbs cfg [] t t False rs w = Inr None \<or>
    (\<exists>w'. work_round hf cbs cfg [] t t False rs w = Inr (Some w') \<and> worker_ok hf G w' \<and> incomingConnection w' = [] \<and>
      heap w' = heap w \<and> dom (pool_map w') \<subseteq> dom (pool_map w) \<and>
      card (dom (pool_map w')) = (let n = card (dom (pool_map w)) in if m < int n then n - 1 else n))"
proof -
  have size: "dict_size (connectionPool w) = int (card (dom (pool_map w)))"
    using pool.size_law [OF worker_invD(1) [OF ok]] by (simp add: pool_map_def)
  have "w\<lparr>incomingConnection := []\<rparr> = w" using q by (cases w) simp
  then have "registerNewConnection hf cbs w = Inr w" using q by (simp add: registerNewConnection_def)
  then have round: "work_round hf cbs cfg [] t t False rs w =
      (if m < int (card (dom (pool_map w))) then bind_env (eviction hf cfg t rs w) (\<lambda>(_, w4). Inr (Some w4)) else Inr (Some w))"
    using cfg by (simp add: work_round_def manageInactiveConnection_def size)
  show ?thesis
  proof (cases "m < int (card (dom (pool_map w)))")
    case True
    then have ne: "pool_map w \<noteq> Map.empty" using cfg(5) by auto
    have "0 < u" if "u \<in> idle_times w t" "rule = MAX_TCP_EVICTION_INACTIVE" for u
    proof -
      from that(1) obtain k a where a: "u = t - lastActiveTime (heap w ! a)" "pool_map w k = Some (Some a)" by (auto simp: idle_times_def)
      with worker_invD(2) [OF ok] have "a < length (heap w)" by (auto elim: pool_okE)
      then show ?thesis using a(1) t(2) that(2) by simp
    qed
    then have all: "rule = MAX_TCP_EVICTION_RANDOM \<or> rule = MAX_TCP_EVICTION_INACTIVE \<and> (\<forall>u \<in> idle_times w t. 0 < u)" using cfg(3) by auto
    have "eviction_pool_size cfg \<noteq> None" using cfg(6) by simp
    note keep = eviction_ok [OF ok t(1) cfg(2) this room, of rs]
    from eviction_removes [OF ok t(1) ne id room cfg(2,6,7), of rs] show ?thesis
    proof (elim disjE exE conjE)
      fix rs' w' assume e: "eviction hf cfg t rs w = Inr (Some (rs', w'))" "worker_ok hf G w'"
        "rule = MAX_TCP_EVICTION_RANDOM \<or> rule = MAX_TCP_EVICTION_INACTIVE \<and> (\<forall>u \<in> idle_times w t. 0 < u) \<longrightarrow>
          (\<exists>k \<in> dom (pool_map w). pool_map w' = (pool_map w)(k := None))"
      then obtain k where k: "k \<in> dom (pool_map w)" "pool_map w' = (pool_map w)(k := None)" using all by blast
      have "heap w' = heap w" "incomingConnection w' = []" using keep ne e(1) q by auto
      moreover have "dom (pool_map w') \<subseteq> dom (pool_map w)" using k(2) by auto
      ultimately show ?thesis using True round e(1,2) card_removed [OF k] by (simp add: Let_def)
    qed (use True round in simp)
  qed (use round ok q in \<open>simp add: Let_def\<close>)
qed

end

text \<open>Rounds in which nothing happens: no event, no new connection, enough memory.\<close>

fun quiet_rounds :: "(64 word \<Rightarrow> 64 word) \<Rightarrow> callbacks \<Rightarrow> config \<Rightarrow> (int \<times> 64 word list) list \<Rightarrow> worker \<Rightarrow> worker option res" where
  "quiet_rounds hf cbs cfg [] w = Inr (Some w)"
| "quiet_rounds hf cbs cfg ((now, rs) # es) w =
     bind_env (work_round hf cbs cfg [] now now False rs w) (quiet_rounds hf cbs cfg es)"

section \<open>Properties\<close>

text \<open>C27: What eviction does. With the random rule it takes out exactly one connection. With the inactive rule it takes out exactly one
  when every connection of the pool has been idle for a second, but none when all have been active in the current second: the
  search starts from an idle time of 0 and looks for a longer one, also when it is forced.\<close>

theorem eviction_effect:
  assumes "worker_ok hf G w" "INT_time now" "pool_map w \<noteq> Map.empty" "NO_ID \<notin> dom (pool_map w)" "card (dom (pool_map w)) < 2 ^ 29"
    "max_tcp_eviction_rule cfg = Some rule" "eviction_pool_size cfg = Some sz" "0 < sz"
  shows "eviction hf cfg now rs w = Inr None \<or>
    (\<exists>rs' w'. eviction hf cfg now rs w = Inr (Some (rs', w')) \<and> worker_ok hf G w' \<and>
       (rule = MAX_TCP_EVICTION_RANDOM \<or> rule = MAX_TCP_EVICTION_INACTIVE \<and> (\<forall>t \<in> idle_times w now. 0 < t) \<longrightarrow>
          (\<exists>k \<in> dom (pool_map w). pool_map w' = (pool_map w)(k := None))) \<and>
       (rule = MAX_TCP_EVICTION_INACTIVE \<and> (\<forall>t \<in> idle_times w now. t \<le> 0) \<longrightarrow> pool_map w' = pool_map w))"
  by (rule eviction_removes [OF assms])

lemma eviction_effect_witness:
  "(\<exists>rs' w'. eviction id shipped_config 50 [1, 0] sample_worker = Inr (Some (rs', w')) \<and> pool_map w' = Map.empty) \<and>
   (\<exists>rs' w'. eviction id shipped_config 0 [1, 0] sample_worker = Inr (Some (rs', w')) \<and> pool_map w' = [1 \<mapsto> Some 0])"
proof -
  have "lastActiveTime (heap sample_worker ! 0) = 0" by (simp add: sample_worker_def sample_connection_def)
  then have it: "idle_times sample_worker now = {now}" for now
    unfolding idle_times_def sample_worker_facts(1) by (auto intro: exI [of _ 1] split: if_splits)
  have "eviction id shipped_config 50 [1, 0] sample_worker \<noteq> Inr None" "eviction id shipped_config 0 [1, 0] sample_worker \<noteq> Inr None"
    by code_simp+
  moreover have "NO_ID \<notin> dom (pool_map sample_worker)" "pool_map sample_worker \<noteq> Map.empty" "card (dom (pool_map sample_worker)) < 2 ^ 29"
    by (simp_all add: sample_worker_facts NO_ID_def)
  moreover have "INT_time 50" "INT_time 0" "max_tcp_eviction_rule shipped_config = Some MAX_TCP_EVICTION_INACTIVE"
    "eviction_pool_size shipped_config = Some 5"
    by (simp_all add: INT_time_def INT_MAX_def shipped_config_def MAX_TCP_EVICTION_INACTIVE_def)
  ultimately show ?thesis
    using eviction_effect [of id echo_ready sample_worker 50 shipped_config MAX_TCP_EVICTION_INACTIVE 5 "[1, 0]"]
      eviction_effect [of id echo_ready sample_worker 0 shipped_config MAX_TCP_EVICTION_INACTIVE 5 "[1, 0]"] sample_worker_facts(1,2)
    by (auto simp: it fun_eq_iff split: if_splits)
qed

text \<open>C28: The number of connections of a worker over one round. With any events and any rules, the pool has afterwards at most the
  connections it had and those of the queue, and at least as many of them as are left when one is taken away for each event and one for each of the two
  evictions that is switched on: however far a long queue takes it over the limit, the round does no more about it. When there is no event, idle
  connections are not evicted, the rule is random and memory is not exceeded, the number is exact: one less when it is over the limit.\<close>

theorem round_balance:
  assumes "worker_ok hf echo_ready w" "pool_room w" "round_events w evs" "round_config cfg exceed" "INT_time t1" "INT_time t2"
  shows "work_round hf main_callbacks cfg evs t1 t2 exceed rs w = Inr None \<or>
    (\<exists>w'. work_round hf main_callbacks cfg evs t1 t2 exceed rs w = Inr (Some w') \<and>
      (let n = card (dom (pool_map w)) + length (incomingConnection w); n' = card (dom (pool_map w')) in
        n' \<le> n \<and> n \<le> n' + length evs + evictions_on cfg \<and>
        (evs = [] \<and> inactive_tcp_eviction_rule cfg = Some INACTIVE_TCP_EVICTION_NONE \<and>
         max_tcp_eviction_rule cfg = Some MAX_TCP_EVICTION_RANDOM \<and> \<not> exceed \<longrightarrow>
           (\<exists>m. max_tcp_per_worker cfg = Some m \<and> n' = (if m < int n then n - 1 else n)))))"
proof (cases "work_round hf main_callbacks cfg evs t1 t2 exceed rs w = Inr None")
  case False
  let ?m = "pool_map w ++ queued w"
  obtain w' where w': "work_round hf main_callbacks cfg evs t1 t2 exceed rs w = Inr (Some w')"
    "all_but (evictions_on cfg) evs ?m (pool_map w')" using echo.work_round_ok [OF assms, of rs] False by blast
  have fin: "finite (dom (pool_map w))" by (simp add: pool_map_def dict_finite)
  note q = queued_dom [OF assms(1)]
  have "card (dom ?m) = card (dom (pool_map w)) + length (incomingConnection w)"
    using card_Un_disjoint [OF fin q(1,3)] q(2) by (simp add: Un_commute)
  then have "card (dom (pool_map w')) \<le> card (dom (pool_map w)) + length (incomingConnection w)"
    "card (dom (pool_map w)) + length (incomingConnection w) \<le> card (dom (pool_map w')) + length evs + evictions_on cfg"
    using all_but_card [OF w'(2)] fin q(1) by simp_all
  moreover obtain m where "max_tcp_per_worker cfg = Some m" "max_tcp_eviction_rule cfg = Some MAX_TCP_EVICTION_RANDOM \<and> \<not> exceed \<longrightarrow> 0 \<le> m"
    using assms(4) by (auto simp: round_config_def)
  ultimately show ?thesis
    using w'(1) echo.round_balance_ok [OF assms(1,2), of cfg m t1 t2 rs] by (auto simp: Let_def)
qed simp

lemma sample_worker_queue: "incomingConnection sample_worker = [Some 1]"
  by (simp add: sample_worker_def)

definition random_config :: "int \<Rightarrow> config" where
  "random_config m = shipped_config\<lparr>max_tcp_eviction_rule := Some MAX_TCP_EVICTION_RANDOM, max_tcp_per_worker := Some m\<rparr>"

lemma random_config_simps [simp]:
  "inactive_tcp_eviction_rule (random_config m) = Some INACTIVE_TCP_EVICTION_NONE"
  "max_tcp_eviction_rule (random_config m) = Some MAX_TCP_EVICTION_RANDOM" "max_tcp_per_worker (random_config m) = Some m"
  "eviction_pool_size (random_config m) = Some 5" "inactive_tcp_timeout (random_config m) = Some 10"
  by (simp_all add: random_config_def shipped_config_def INACTIVE_TCP_EVICTION_NONE_def)

lemma round_balance_witness:
  "\<exists>rs w'. work_round id main_callbacks (random_config 1) [] 9 9 False rs sample_worker = Inr (Some w') \<and>
     card (dom (pool_map w')) = 1"
proof -
  have h: "round_events sample_worker []" "round_config (random_config 1) False" "INT_time 9"
    by (simp_all add: round_events_def round_config_def INT_time_def INT_MAX_def)
  from echo.work_round_draws [OF sample_worker_facts(2,3) h(1,2,3,3)] obtain ss w'
    where "\<forall>rs. work_round id main_callbacks (random_config 1) [] 9 9 False (ss @ rs) sample_worker = Inr (Some w')" by blast
  then have "work_round id main_callbacks (random_config 1) [] 9 9 False ss sample_worker = Inr (Some w')" by (metis append_Nil2)
  with round_balance [OF sample_worker_facts(2,3) h(1,2,3,3), of ss] show ?thesis
    by (intro exI [of _ ss] exI [of _ w']) (simp add: sample_worker_facts Let_def sample_worker_queue)
qed

text \<open>C29: The limit is reached again. When nothing comes in any more, no client does anything and idle connections are not evicted, a
  worker with more connections than its limit loses one in every round, until it has as many as the limit, and then no more: with the
  random rule, whatever numbers are drawn, and with the inactive rule at times at which no connection has been active in the
  current second. The numbers for which the rounds end exist, and for all of them the result is the same.\<close>

theorem limit_restored:
  assumes "worker_ok hf echo_ready w" "card (dom (pool_map w)) < 2 ^ 29" "incomingConnection w = []" "NO_ID \<notin> dom (pool_map w)"
    "inactive_tcp_eviction_rule cfg = Some INACTIVE_TCP_EVICTION_NONE" "inactive_tcp_timeout cfg \<noteq> None"
    "max_tcp_eviction_rule cfg = Some rule" "rule \<in> {MAX_TCP_EVICTION_RANDOM, MAX_TCP_EVICTION_INACTIVE}"
    "max_tcp_per_worker cfg = Some m" "0 \<le> m" "eviction_pool_size cfg = Some sz" "0 < sz"
    "\<forall>t \<in> set ts. INT_time t \<and> (rule = MAX_TCP_EVICTION_INACTIVE \<longrightarrow> (\<forall>c \<in> set (heap w). lastActiveTime c < t))"
  shows "(\<exists>rss. length rss = length ts \<and> quiet_rounds hf main_callbacks cfg (zip ts rss) w \<noteq> Inr None) \<and>
    (\<forall>rss. length rss = length ts \<longrightarrow> quiet_rounds hf main_callbacks cfg (zip ts rss) w = Inr None \<or>
      (\<exists>w'. quiet_rounds hf main_callbacks cfg (zip ts rss) w = Inr (Some w') \<and> worker_ok hf echo_ready w' \<and>
        int (card (dom (pool_map w'))) =
          (if int (card (dom (pool_map w))) \<le> m then int (card (dom (pool_map w)))
           else max m (int (card (dom (pool_map w))) - int (length ts)))))"
  using assms(1-4,13)
proof (induction ts arbitrary: w)
  case (Cons t ts)
  let ?n = "card (dom (pool_map w))"
  have t: "INT_time t" "rule = MAX_TCP_EVICTION_INACTIVE \<longrightarrow> (\<forall>c \<in> set (heap w). lastActiveTime c < t)" using Cons.prems(5) by simp_all
  note one = echo.quiet_round_ok [OF Cons.prems(1,2,3) assms(5,7-12) t Cons.prems(4)]
  have next_w: "(\<exists>rss. length rss = length ts \<and> quiet_rounds hf main_callbacks cfg (zip ts rss) w1 \<noteq> Inr None) \<and>
    (\<forall>rss. length rss = length ts \<longrightarrow> quiet_rounds hf main_callbacks cfg (zip ts rss) w1 = Inr None \<or>
      (\<exists>w'. quiet_rounds hf main_callbacks cfg (zip ts rss) w1 = Inr (Some w') \<and> worker_ok hf echo_ready w' \<and>
        int (card (dom (pool_map w'))) = (if int ?n \<le> m then int ?n else max m (int ?n - int (length (t # ts))))))"
    if w1: "work_round hf main_callbacks cfg [] t t False rs w = Inr (Some w1)" for rs w1
  proof -
    have b: "worker_ok hf echo_ready w1" "incomingConnection w1 = []" "heap w1 = heap w" "dom (pool_map w1) \<subseteq> dom (pool_map w)"
      "card (dom (pool_map w1)) = (if m < int ?n then ?n - 1 else ?n)" using one [of rs] w1 by (auto simp: Let_def)
    have "card (dom (pool_map w1)) < 2 ^ 29" "NO_ID \<notin> dom (pool_map w1)" using b(4,5) Cons.prems(2,4) by (auto split: if_splits)
    moreover have "(if int (card (dom (pool_map w1))) \<le> m then int (card (dom (pool_map w1)))
        else max m (int (card (dom (pool_map w1))) - int (length ts))) = (if int ?n \<le> m then int ?n else max m (int ?n - int (length (t # ts))))"
      unfolding b(5) using assms(10) by auto
    ultimately show ?thesis using Cons.IH [OF b(1) _ b(2)] b(3) Cons.prems(5) by simp
  qed
  have "pool_room w" "round_events w []" "round_config cfg False"
    using Cons.prems(2,3) assms(5-12) by (simp_all add: pool_room_def round_events_def round_config_def)
  then obtain ss w1 where "\<forall>rs. work_round hf main_callbacks cfg [] t t False (ss @ rs) w = Inr (Some w1)"
    using echo.work_round_draws [OF Cons.prems(1) _ _ _ t(1) t(1)] by blast
  then have w1: "work_round hf main_callbacks cfg [] t t False ss w = Inr (Some w1)" by (metis append_Nil2)
  then obtain rss where "length rss = length ts" "quiet_rounds hf main_callbacks cfg (zip ts rss) w1 \<noteq> Inr None" using next_w by blast
  then have "length (ss # rss) = length (t # ts)" "quiet_rounds hf main_callbacks cfg (zip (t # ts) (ss # rss)) w \<noteq> Inr None" using w1 by simp_all
  moreover have "quiet_rounds hf main_callbacks cfg (zip (t # ts) rss) w = Inr None \<or>
      (\<exists>w'. quiet_rounds hf main_callbacks cfg (zip (t # ts) rss) w = Inr (Some w') \<and> worker_ok hf echo_ready w' \<and>
        int (card (dom (pool_map w'))) = (if int ?n \<le> m then int ?n else max m (int ?n - int (length (t # ts)))))"
    if len: "length rss = length (t # ts)" for rss
  proof -
    obtain rs rss' where rss: "rss = rs # rss'" "length rss' = length ts" using len by (cases rss) auto
    from one [of rs] show ?thesis
    proof (elim disjE exE conjE)
      fix w2 assume "work_round hf main_callbacks cfg [] t t False rs w = Inr (Some w2)"
      from next_w [OF this] this show ?thesis using rss by simp
    qed (use rss in simp)
  qed
  ultimately show ?case by blast
qed auto

lemma limit_restored_witness:
  "\<exists>rss w'. quiet_rounds id main_callbacks (random_config 0) (zip [9] rss) (sample_worker\<lparr>incomingConnection := []\<rparr>) = Inr (Some w') \<and>
     card (dom (pool_map w')) = 0"
proof -
  let ?w = "sample_worker\<lparr>incomingConnection := []\<rparr>"
  have ok: "worker_ok id echo_ready ?w" using sample_worker_facts(2)
    by (simp add: worker_inv_def pool_ok_def queue_ok_def watch_ok_def pool_map_def)
  have p: "pool_map ?w = [1 \<mapsto> Some 0]" using sample_worker_facts(1) by (simp add: pool_map_def)
  have ts: "\<forall>t \<in> set [9]. INT_time t \<and> (MAX_TCP_EVICTION_RANDOM = MAX_TCP_EVICTION_INACTIVE \<longrightarrow> (\<forall>c \<in> set (heap ?w). lastActiveTime c < t))"
    by (simp add: INT_time_def INT_MAX_def MAX_TCP_EVICTION_RANDOM_def MAX_TCP_EVICTION_INACTIVE_def)
  have "card (dom (pool_map ?w)) < 2 ^ 29" "NO_ID \<notin> dom (pool_map ?w)" unfolding p by (simp_all add: NO_ID_def)
  from limit_restored [OF ok this(1) _ this(2) random_config_simps(1) _ random_config_simps(2) _ random_config_simps(3) _
      random_config_simps(4) _ ts, of 0] obtain rss where rss: "length rss = 1" "quiet_rounds id main_callbacks (random_config 0) (zip [9] rss) ?w \<noteq> Inr None"
    "quiet_rounds id main_callbacks (random_config 0) (zip [9] rss) ?w = Inr None \<or>
      (\<exists>w'. quiet_rounds id main_callbacks (random_config 0) (zip [9] rss) ?w = Inr (Some w') \<and> card (dom (pool_map w')) = 0)"
    unfolding p by auto
  then show ?thesis by auto
qed

end
