(* ===== verification/Whole_Program.thy ===== *)
theory Whole_Program
  imports Server_Log Fair_Log Fair_Runs Echo_Server
begin

text \<open>
  The program as a whole: the server of \<open>Whole_Server\<close> and its logger of \<open>Log_Files\<close>, put together as \<open>TcpConnection::log\<close> and
  \<open>TcpServer::log\<close> (\<open>src/tcpConnection.cpp\<close>, \<open>src/tcpServer.cpp\<close>) do. A worker whose callback logs is in \<open>AsyncLogging::append\<close>
  until its lines have been pushed, and does nothing else before; the main thread, the other workers and the log thread go
  on meanwhile. The constructor of \<open>TcpServer\<close> starts the logger and nothing ever stops it, so \<open>append\<close> always passes its
  test of \<open>_running\<close>, and a push is one step. The handler of an event is one step too, its lines are pushed behind it: the
  part of the callback that follows the logging touches nothing but the worker's own connection.
\<close>

section \<open>State and steps\<close>

text \<open>\<open>lines_waiting\<close>: what each worker is about to append. \<open>lines_said\<close> and \<open>line_origin\<close> record all lines of each worker and from
  which worker the lines of the log came; the program does not have them.\<close>

record program_state =
  p_sys :: system
  p_log :: log_state
  p_disk :: log_out
  lines_waiting :: "string list list"
  lines_said :: "string list list"
  line_origin :: "nat list"

datatype program_action = Serve action | Append nat | Log_Thread bool "nat list" string

text \<open>The lines that a step of worker \<open>i\<close> from \<open>s\<close> to \<open>s'\<close> gives: those of the connection whose event it handles. \<open>ths i\<close> is the
  worker's thread.\<close>

definition step_lines :: "(nat \<Rightarrow> thread) \<Rightarrow> nat \<Rightarrow> system \<Rightarrow> system \<Rightarrow> string list" where
  "step_lines ths i s s' = (let w = threadPool (srv s) ! i; w' = threadPool (srv s') ! i in case pcs s ! i of
       Handling (ev # evs) \<Rightarrow> (case pool_map w (ev_id ev) of
           Some (Some a) \<Rightarrow> map (\<lambda>(level, msg). TcpConnection_log (ths i) (timeString (srv s)) (heap w ! a) level msg)
             (drop (length (logged w)) (logged w'))
         | _ \<Rightarrow> [])
     | _ \<Rightarrow> [])"

definition speak :: "nat \<Rightarrow> string list \<Rightarrow> program_state \<Rightarrow> program_state" where
  "speak i ls P = (if i < length (lines_waiting P)
     then P\<lparr>lines_waiting := (lines_waiting P)[i := ls], lines_said := (lines_said P)[i := lines_said P ! i @ ls]\<rparr> else P)"

text \<open>\<open>TcpServer::log\<close> hands the line to \<open>append\<close> of the logger, whose test of \<open>_running\<close> and push are not told apart here: the
  logger of the program is never stopped.\<close>

definition server_append :: "string \<Rightarrow> log_state \<Rightarrow> log_state" where
  [simp]: "server_append l s = append_push (length (pending s)) (append_check l s)"

text \<open>A step of the program: one of the main thread or of a worker (\<open>sys_step\<close>; a worker with a line to append does not go on before that),
  the append of a line, one of the log thread (\<open>thread_step\<close> on the buffers, \<open>file_step\<close> on the disk). It composes the steps of
  the parts and is the model of no single function.\<close>

fun program_step :: "(64 word \<Rightarrow> 64 word) \<Rightarrow> (32 word \<Rightarrow> 64 word) \<Rightarrow> (nat \<Rightarrow> thread) \<Rightarrow> log_conf \<Rightarrow> program_action \<Rightarrow>
    program_state \<Rightarrow> program_state option res" where
  "program_step hf iphash ths conf (Serve (Step i e)) P =
     (if i < length (lines_waiting P) \<and> lines_waiting P ! i \<noteq> [] then Inr None
      else bind_env (sys_step hf iphash main_callbacks (Step i e) (p_sys P)) (\<lambda>s'.
             Inr (Some (speak i (step_lines ths i (p_sys P) s') (P\<lparr>p_sys := s'\<rparr>)))))"
| "program_step hf iphash ths conf (Serve (Peer_Gone i)) P =
     (if i < length (lines_waiting P) \<and> lines_waiting P ! i \<noteq> [] then Inr None
      else bind_env (sys_step hf iphash main_callbacks (Peer_Gone i) (p_sys P)) (\<lambda>s'. Inr (Some (P\<lparr>p_sys := s'\<rparr>))))"
| "program_step hf iphash ths conf (Serve act) P =
     bind_env (sys_step hf iphash main_callbacks act (p_sys P)) (\<lambda>s'. Inr (Some (P\<lparr>p_sys := s'\<rparr>)))"
| "program_step hf iphash ths conf (Append i) P =
     (if i < length (lines_waiting P) then case lines_waiting P ! i of
          [] \<Rightarrow> Inr None
        | l # ls \<Rightarrow> Inr (Some (P\<lparr>p_log := server_append l (p_log P),
            lines_waiting := (lines_waiting P)[i := ls],
            line_origin := (if running (p_log P) then line_origin P @ [i] else line_origin P)\<rparr>))
      else Inr None)"
| "program_step hf iphash ths conf (Log_Thread can_open ks today) P =
     bind_res (file_step conf can_open ks (p_log P) (p_disk P)) (\<lambda>lf.
       Inr (Some (P\<lparr>p_log := thread_step conf today (p_log P), p_disk := lf\<rparr>)))"

fun program_allows :: "program_action \<Rightarrow> program_state \<Rightarrow> bool" where
  "program_allows (Serve act) P = os_allows act (p_sys P)"
| "program_allows _ P = True"

definition program_init :: "system \<Rightarrow> log_conf \<Rightarrow> disk \<Rightarrow> program_state" where
  "program_init s conf d = \<lparr>p_sys = s, p_log = log_start conf, p_disk = \<lparr>log_file = None, log_disk = d\<rparr>,
     lines_waiting = replicate (length (pcs s)) [], lines_said = replicate (length (pcs s)) [], line_origin = []\<rparr>"

inductive program_reachable :: "(64 word \<Rightarrow> 64 word) \<Rightarrow> (32 word \<Rightarrow> 64 word) \<Rightarrow> (nat \<Rightarrow> thread) \<Rightarrow> log_conf \<Rightarrow> disk \<Rightarrow>
    program_state \<Rightarrow> bool" for hf iphash ths conf d where
  start: "sys_start file now n = Inr s \<Longrightarrow> 0 < n \<Longrightarrow> sys_config (cfg (srv s)) \<Longrightarrow> logger (srv s) = conf \<Longrightarrow>
    program_reachable hf iphash ths conf d (program_init s conf d)"
| step: "program_reachable hf iphash ths conf d P \<Longrightarrow> program_allows act P \<Longrightarrow>
    program_step hf iphash ths conf act P = Inr (Some P') \<Longrightarrow> program_reachable hf iphash ths conf d P'"

section \<open>Lines of a worker\<close>

text \<open>Only the handling of an event logs.\<close>

lemma event_logs:
  "event_error hf ev p w = Inr w' \<Longrightarrow> logged w' = logged w"
  "event_in cbs ev p w = Inr w' \<Longrightarrow> \<exists>ls. logged w' = logged w @ ls"
  "event_out ev p w = Inr w' \<Longrightarrow> logged w' = logged w"
  "event_close hf p w = Inr w' \<Longrightarrow> logged w' = logged w"
proof -
  have r: "removeConnection hf p v = Inr w' \<Longrightarrow> logged w' = logged v" for v by (rule pool_onlyD(4) [OF remove_pool_only])
  have f: "logged (store_conn p c v) = logged v" "logged (epoll_del fd v) = logged v" for c v fd
    by (simp_all add: store_conn_def epoll_del_def split: option.split)
  show "event_error hf ev p w = Inr w' \<Longrightarrow> logged w' = logged w"
    by (auto simp: event_error_def bind_res_eq_Inr f dest: r split: if_splits)
  show "event_in cbs ev p w = Inr w' \<Longrightarrow> \<exists>ls. logged w' = logged w @ ls"
    by (auto simp: event_in_def bind_res_eq_Inr split: if_splits prod.splits)
  show "event_out ev p w = Inr w' \<Longrightarrow> logged w' = logged w"
    by (auto simp: event_out_def bind_res_eq_Inr f split: if_splits prod.splits)
  show "event_close hf p w = Inr w' \<Longrightarrow> logged w' = logged w"
    by (auto simp: event_close_def bind_res_eq_Inr dest: r split: if_splits)
qed

lemma handle_event_logs: "handle_event hf cbs ev w = Inr w' \<Longrightarrow> \<exists>ls. logged w' = logged w @ ls"
proof -
  assume "handle_event hf cbs ev w = Inr w'"
  then obtain p d w1 w2 w3 where "event_error hf ev p (w\<lparr>connectionPool := d\<rparr>) = Inr w1" "event_in cbs ev p w1 = Inr w2"
    "event_out ev p w2 = Inr w3" "event_close hf p w3 = Inr w'" by (auto simp: handle_event_def bind_res_eq_Inr split: prod.splits)
  from event_logs(1) [OF this(1)] event_logs(2) [OF this(2)] event_logs(3) [OF this(3)] event_logs(4) [OF this(4)] show ?thesis by auto
qed

lemma register_logs: "register_loop hf main_callbacks ps w = Inr w' \<Longrightarrow> logged w' = logged w"
proof (induction ps arbitrary: w)
  case (Cons p ps)
  from Cons.prems obtain c d where "register_loop hf main_callbacks ps
      ((epoll_add (connfd c) ((store_conn p c w)\<lparr>logged := logged w\<rparr>))\<lparr>connectionPool := d\<rparr>) = Inr w'"
    by (auto simp: bind_res_eq_Inr Let_def onConnection_def main_callbacks_def invoke_def main_onConnection_def split: prod.splits)
  from Cons.IH [OF this] show ?case by (simp add: epoll_add_def)
qed simp

lemma worker_step_logs:
  assumes "worker_step hf main_callbacks conf exceed e (pc, w) = Inr (Some (pc', w'))"
  shows "\<exists>ls. logged w' = logged w @ ls \<and> ((\<nexists>ev evs. pc = Handling (ev # evs)) \<longrightarrow> ls = [])"
proof (cases "(hf, main_callbacks, conf, exceed, e, pc, w)" rule: worker_step.cases)
  case (3 hf cbs conf exceed e ev evs w)
  then show ?thesis using assms handle_event_logs by (fastforce simp: bind_res_eq_Inr)
next
  case (5 hf cbs conf exceed e p ps w)
  then show ?thesis using assms register_logs by (auto simp: bind_res_eq_Inr simp del: register_loop.simps)
qed (use assms evictions_pool_only [THEN pool_onlyD(4)] in \<open>auto simp: bind_env_eq bind_res_eq_Inr split: if_splits\<close>)

section \<open>What a step of the server says\<close>

text \<open>A line fits an entry of \<open>logged\<close>: it is what \<open>TcpConnection::log\<close> makes of its level and message.\<close>

definition line_of :: "thread \<Rightarrow> string \<Rightarrow> string \<times> string \<Rightarrow> bool" where
  "line_of th l e \<longleftrightarrow> (\<exists>time c. l = TcpConnection_log th time c (fst e) (snd e))"

lemma step_lines_new:
  assumes inv: "sys_inv hf s" and i: "i < length (pcs s)"
    and w': "logged (the_worker i s') = logged (the_worker i s) @ new"
    and none: "(\<nexists>ev evs. pcs s ! i = Handling (ev # evs)) \<longrightarrow> new = []"
  shows "list_all2 (line_of (ths i)) (step_lines ths i s s') new"
proof (cases "\<exists>ev evs. pcs s ! i = Handling (ev # evs)")
  case True
  then obtain ev evs where pc: "pcs s ! i = Handling (ev # evs)" by blast
  note d = sys_invD [OF inv]
  have "round_events (the_worker i s) (ev # evs)" using d(5) [OF i] pc by (simp add: pc_ok_def)
  then obtain p where p: "pool_map (the_worker i s) (ev_id ev) = Some p" by (auto simp: round_events_def)
  with worker_invD(2) [OF worker_ok_taken [OF d(4) [OF i]]] obtain a where "p = Some a" by (rule pool_okE)
  then have "step_lines ths i s s' =
      map (\<lambda>(level, msg). TcpConnection_log (ths i) (timeString (srv s)) (heap (the_worker i s) ! a) level msg) new"
    using pc p w' by (simp add: step_lines_def)
  then show ?thesis by (auto simp: list_all2_map1 line_of_def intro!: list.rel_refl_strong) blast
next
  case False
  then have "step_lines ths i s s' = []" by (auto simp: step_lines_def Let_def split: worker_pc.split list.split)
  then show ?thesis using False none by simp
qed

text \<open>The other workers say nothing, and nobody when the main thread moves.\<close>

lemma sys_step_logs:
  assumes inv: "sys_inv hf s" and os: "os_allows act s" and st: "sys_step hf iphash main_callbacks act s = Inr (Some s')"
    and i: "i < length (pcs s)"
  shows "list_all2 (line_of (ths i)) (if \<exists>e. act = Step i e then step_lines ths i s s' else [])
    (drop (length (logged (the_worker i s))) (logged (the_worker i s'))) \<and>
    logged (the_worker i s') = logged (the_worker i s) @ drop (length (logged (the_worker i s))) (logged (the_worker i s'))"
proof (cases "\<exists>e. act = Step i e")
  case True
  then obtain e where "worker_step hf main_callbacks (cfg (srv s)) (exceedMaxMemory (srv s)) e (pcs s ! i, the_worker i s) =
      Inr (Some (pcs s' ! i, the_worker i s'))" using sys_step_worker [OF inv os st i] by auto
  from worker_step_logs [OF this] obtain new where "logged (the_worker i s') = logged (the_worker i s) @ new"
    "(\<nexists>ev evs. pcs s ! i = Handling (ev # evs)) \<longrightarrow> new = []" by blast
  from step_lines_new [OF inv i this] this(1) show ?thesis using True by simp
next
  case False
  then have "the_worker i s' = the_worker i s \<or> (\<exists>c. the_worker i s' = push_connection c (the_worker i s))"
    using sys_step_worker [OF inv os st i] by simp
  then have "logged (the_worker i s') = logged (the_worker i s)" by (auto simp: push_connection_def enqueue_connection_def)
  then show ?thesis using False by simp
qed

section \<open>The invariant of the program\<close>

text \<open>The lines of the log that worker \<open>i\<close> has pushed.\<close>

definition lines_from :: "nat \<Rightarrow> program_state \<Rightarrow> string list" where
  "lines_from i P = map snd (filter (\<lambda>(j, l). j = i) (zip (line_origin P) (pushed (p_log P))))"

definition program_inv :: "(64 word \<Rightarrow> 64 word) \<Rightarrow> (32 word \<Rightarrow> 64 word) \<Rightarrow> (nat \<Rightarrow> thread) \<Rightarrow> log_conf \<Rightarrow> disk \<Rightarrow>
    program_state \<Rightarrow> bool" where
  "program_inv hf iphash ths conf d P \<longleftrightarrow> sys_reachable hf iphash main_callbacks (p_sys P) \<and>
     disk_reachable conf d (p_log P, p_disk P) \<and> running (p_log P) \<and> pending (p_log P) = [] \<and>
     length (lines_waiting P) = length (pcs (p_sys P)) \<and> length (lines_said P) = length (pcs (p_sys P)) \<and>
     length (line_origin P) = length (pushed (p_log P)) \<and> [] \<notin> set (pushed (p_log P)) \<and>
     set (line_origin P) \<subseteq> {..<length (pcs (p_sys P))} \<and>
     (\<forall>i < length (pcs (p_sys P)). lines_from i P @ lines_waiting P ! i = lines_said P ! i \<and>
        list_all2 (line_of (ths i)) (lines_said P ! i) (logged (the_worker i (p_sys P))))"

lemma program_invD:
  assumes "program_inv hf iphash ths conf d P"
  shows "sys_reachable hf iphash main_callbacks (p_sys P)" "disk_reachable conf d (p_log P, p_disk P)" "running (p_log P)"
    "pending (p_log P) = []" "length (lines_waiting P) = length (pcs (p_sys P))" "length (lines_said P) = length (pcs (p_sys P))"
    "length (line_origin P) = length (pushed (p_log P))" "[] \<notin> set (pushed (p_log P))" "set (line_origin P) \<subseteq> {..<length (pcs (p_sys P))}"
    "i < length (pcs (p_sys P)) \<Longrightarrow> lines_from i P @ lines_waiting P ! i = lines_said P ! i"
    "i < length (pcs (p_sys P)) \<Longrightarrow> list_all2 (line_of (ths i)) (lines_said P ! i) (logged (the_worker i (p_sys P)))"
  using assms by (simp_all add: program_inv_def)

lemma line_of_not_Nil: "line_of th l e \<Longrightarrow> l \<noteq> []"
  by (auto simp: line_of_def)

lemma lines_not_Nil:
  assumes "list_all2 (line_of th) ls es" shows "[] \<notin> set ls"
  using assms line_of_not_Nil by (induction rule: list_all2_induct) auto

text \<open>A step of the server, behind which the worker that moved says what \<open>step_lines\<close> gives.\<close>

lemma program_inv_serve:
  assumes inv: "program_inv hf iphash ths conf d P" and os: "os_allows act (p_sys P)"
    and st: "sys_step hf iphash main_callbacks act (p_sys P) = Inr (Some s')"
    and free: "\<And>i e. act = Step i e \<Longrightarrow> i < length (lines_waiting P) \<Longrightarrow> lines_waiting P ! i = []"
  shows "program_inv hf iphash ths conf d
    (case act of Step i e \<Rightarrow> speak i (step_lines ths i (p_sys P) s') (P\<lparr>p_sys := s'\<rparr>) | _ \<Rightarrow> P\<lparr>p_sys := s'\<rparr>)" (is "program_inv _ _ _ _ _ ?P'")
proof -
  note v = program_invD [OF inv] and si = reachable_inv [OF program_invD(1) [OF inv]]
  note logs = sys_step_logs [OF si os st, where ths = ths]
  have len: "length (pcs s') = length (pcs (p_sys P))"
  proof -
    have "0 < length (pcs (p_sys P))" using sys_invD(2,3) [OF si] by auto
    then show ?thesis using sys_step_worker [OF si os st] by blast
  qed
  let ?n = "\<lambda>i. if \<exists>e. act = Step i e then step_lines ths i (p_sys P) s' else []"
  have P': "p_sys ?P' = s'" "p_log ?P' = p_log P" "p_disk ?P' = p_disk P" "line_origin ?P' = line_origin P"
    "length (lines_waiting ?P') = length (lines_waiting P)" "length (lines_said ?P') = length (lines_said P)"
    by (simp_all add: speak_def split: action.split)
  have at: "lines_waiting ?P' ! i = lines_waiting P ! i @ ?n i" "lines_said ?P' ! i = lines_said P ! i @ ?n i"
    if "i < length (pcs (p_sys P))" for i
    using that v(5,6) free by (auto simp: speak_def nth_list_update split: action.split)
  have "lines_from i ?P' @ lines_waiting ?P' ! i = lines_said ?P' ! i \<and>
      list_all2 (line_of (ths i)) (lines_said ?P' ! i) (logged (the_worker i s'))" if i: "i < length (pcs s')" for i
  proof -
    have i': "i < length (pcs (p_sys P))" using i len by simp
    have "list_all2 (line_of (ths i)) (lines_said P ! i @ ?n i) (logged (the_worker i s'))"
      using list_all2_appendI [OF v(11) [OF i']] logs [OF i'] by metis
    moreover have "lines_from i ?P' = lines_from i P" using P' by (simp add: lines_from_def)
    ultimately show ?thesis using v(10) [OF i'] unfolding at [OF i'] by (metis append.assoc)
  qed
  moreover have "sys_reachable hf iphash main_callbacks s'" using v(1) os st by (rule sys_reachable.step)
  ultimately show ?thesis using v(2-9) len by (simp add: program_inv_def P')
qed

lemma append_one:
  assumes "running s" "pending s = []"
  shows "append_push (length (pending s)) (append_check l s) = push_line l s"
  using assms by (cases s) (simp add: append_check_def append_push_def)

lemma program_inv_append:
  assumes inv: "program_inv hf iphash ths conf d P" and i: "i < length (lines_waiting P)" "lines_waiting P ! i = l # ls"
  shows "program_inv hf iphash ths conf d (P\<lparr>p_log := push_line l (p_log P), lines_waiting := (lines_waiting P)[i := ls],
    line_origin := line_origin P @ [i]\<rparr>)" (is "program_inv _ _ _ _ _ ?P'")
proof -
  note v = program_invD [OF inv]
  have at: "lines_from j ?P' @ lines_waiting ?P' ! j = lines_from j P @ lines_waiting P ! j" if "j < length (lines_waiting P)" for j
    using that i v(7) by (auto simp: lines_from_def push_line_def nth_list_update)
  have "l \<in> set (lines_said P ! i)" using v(10) [of i] i v(5) by (metis in_set_conv_decomp)
  then have "l \<noteq> []" using lines_not_Nil [OF v(11) [of i]] i(1) v(5) by auto
  moreover have "disk_reachable conf d (push_line l (p_log P), p_disk P)"
  proof -
    have "disk_reachable conf d (append_push (length (pending (p_log P))) (append_check l (p_log P)), p_disk P)"
      by (intro disk_reachable.step [OF _ disk_step.push] disk_reachable.step [OF _ disk_step.check] v(2))
    then show ?thesis unfolding append_one [OF v(3,4)] .
  qed
  moreover have "lines_from j ?P' @ lines_waiting ?P' ! j = lines_said P ! j" if "j < length (pcs (p_sys P))" for j
    using at [of j] v(5,10) that by simp
  ultimately show ?thesis using v(1,3-9,11) i(1) by (simp add: program_inv_def push_line_def)
qed

lemma program_inv_thread:
  assumes inv: "program_inv hf iphash ths conf d P" and st: "file_step conf can_open ks (p_log P) (p_disk P) = Inr lf"
  shows "program_inv hf iphash ths conf d (P\<lparr>p_log := thread_step conf today (p_log P), p_disk := lf\<rparr>)"
proof -
  note v = program_invD [OF inv]
  let ?s = "thread_step conf today (p_log P)"
  have "disk_reachable conf d (?s, lf)" using disk_reachable.step [OF v(2) disk_step.thread [OF st]] .
  moreover have "running ?s" "pending ?s = []"
    using v(3,4) by (auto simp: thread_step_def open_next_def add_text_def split: log_pc.splits sum.splits)
  ultimately show ?thesis using v(1,5-11) by (simp add: program_inv_def lines_from_def)
qed

lemma program_inv_start:
  assumes "sys_start file now n = Inr s" "0 < n" "sys_config (cfg (srv s))"
  shows "program_inv hf iphash ths conf d (program_init s conf d)"
proof -
  have r: "sys_reachable hf iphash main_callbacks s" by (rule sys_reachable.start [OF assms])
  obtain m where m: "threadPool (srv s) = replicate (nat n) (setMaxConnection m Worker_new)" using start_workers [OF assms(1)] by blast
  have "logged (the_worker i s) = []" if "i < length (pcs s)" for i
    using that m sys_invD(3) [OF reachable_inv [OF r]] by (simp add: setMaxConnection_def Worker_new_def)
  then show ?thesis using r disk_reachable.init [of conf d]
    by (simp add: program_inv_def program_init_def log_start_def lines_from_def)
qed

lemma program_step_inv:
  assumes inv: "program_inv hf iphash ths conf d P" and os: "program_allows act P"
    and st: "program_step hf iphash ths conf act P = Inr (Some P')"
  shows "program_inv hf iphash ths conf d P'"
proof (cases act)
  case (Serve a)
  have os': "os_allows a (p_sys P)" using os Serve by simp
  show ?thesis
  proof (cases a)
    case (Step i e)
    then obtain s' where s': "sys_step hf iphash main_callbacks a (p_sys P) = Inr (Some s')"
      "P' = speak i (step_lines ths i (p_sys P) s') (P\<lparr>p_sys := s'\<rparr>)"
      and free: "i < length (lines_waiting P) \<Longrightarrow> lines_waiting P ! i = []"
      using st Serve by (auto simp: bind_env_eq split: if_splits simp del: sys_step.simps)
    from program_inv_serve [OF inv os' s'(1)] show ?thesis using Step s'(2) free by auto
  next
    case (Connect e fd peer)
    then obtain s' where s': "sys_step hf iphash main_callbacks a (p_sys P) = Inr (Some s')" "P' = P\<lparr>p_sys := s'\<rparr>"
      using st Serve by (auto simp: bind_env_eq simp del: sys_step.simps)
    from program_inv_serve [OF inv os' s'(1)] show ?thesis using Connect s'(2) by simp
  next
    case (Accept_Error er)
    then have "P' = P" using st Serve by (auto simp: bind_env_eq split: if_splits)
    then show ?thesis using inv by simp
  next
    case (Peer_Gone i)
    then have "P' = P" using st Serve by (auto simp: bind_env_eq split: if_splits)
    then show ?thesis using inv by simp
  next
    case (Cron now vm r)
    then obtain s' where s': "sys_step hf iphash main_callbacks a (p_sys P) = Inr (Some s')" "P' = P\<lparr>p_sys := s'\<rparr>"
      using st Serve by (auto simp: bind_env_eq simp del: sys_step.simps)
    from program_inv_serve [OF inv os' s'(1)] show ?thesis using Cron s'(2) by simp
  qed
next
  case (Append i)
  then obtain l ls where i: "i < length (lines_waiting P)" "lines_waiting P ! i = l # ls"
    using st by (auto split: if_splits list.splits)
  have "P' = P\<lparr>p_log := push_line l (p_log P), lines_waiting := (lines_waiting P)[i := ls], line_origin := line_origin P @ [i]\<rparr>"
    using st Append i append_one [OF program_invD(3,4) [OF inv]] program_invD(3) [OF inv] by simp
  then show ?thesis using program_inv_append [OF inv i] by simp
next
  case (Log_Thread can_open ks today)
  then show ?thesis using st program_inv_thread [OF inv] by (auto simp: bind_res_eq_Inr)
qed

lemma program_inv_reachable: "program_reachable hf iphash ths conf d P \<Longrightarrow> program_inv hf iphash ths conf d P"
  by (induction rule: program_reachable.induct) (auto intro: program_inv_start program_step_inv)

section \<open>Every run of the server is one of the program\<close>

text \<open>Before the log thread has done anything, all lines are in its buffer.\<close>

definition not_begun :: "program_state \<Rightarrow> bool" where
  "not_begun P \<longleftrightarrow> log_pc (p_log P) = Starting \<and> log_file (p_disk P) = None \<and> currentBuffer (p_log P) = pushed (p_log P)"

lemma append_lines:
  assumes "program_reachable hf iphash ths conf d P" "not_begun P"
  shows "\<exists>P'. program_reachable hf iphash ths conf d P' \<and> not_begun P' \<and> p_sys P' = p_sys P \<and> (\<forall>ls \<in> set (lines_waiting P'). ls = [])"
  using assms
proof (induction "sum_list (map length (lines_waiting P))" arbitrary: P rule: less_induct)
  case less
  show ?case
  proof (cases "\<forall>ls \<in> set (lines_waiting P). ls = []")
    case False
    then obtain i where i: "i < length (lines_waiting P)" "lines_waiting P ! i \<noteq> []" by (auto simp: in_set_conv_nth)
    then obtain l ls where l: "lines_waiting P ! i = l # ls" by (cases "lines_waiting P ! i") auto
    note v = program_invD [OF program_inv_reachable [OF less.prems(1)]]
    let ?P = "P\<lparr>p_log := push_line l (p_log P), lines_waiting := (lines_waiting P)[i := ls], line_origin := line_origin P @ [i]\<rparr>"
    have "program_step hf iphash ths conf (Append i) P = Inr (Some ?P)"
      using i(1) l append_one [OF v(3,4)] v(3) by simp
    then have r: "program_reachable hf iphash ths conf d ?P" by (intro program_reachable.step [OF less.prems(1), of "Append i"]) simp_all
    moreover have "not_begun ?P" using less.prems(2) by (simp add: not_begun_def push_line_def)
    moreover have "map length ((lines_waiting P)[i := ls]) = (map length (lines_waiting P))[i := length ls]" by (simp add: map_update)
    then have "sum_list (map length (lines_waiting ?P)) < sum_list (map length (lines_waiting P))"
      using i(1) l elem_le_sum_list [of i "map length (lines_waiting P)"] by (simp add: sum_list_update)
    ultimately show ?thesis using less.hyps [of ?P] by simp
  qed (use less.prems in blast)
qed

lemma program_follows:
  assumes "sys_reachable hf iphash main_callbacks s"
  shows "\<exists>conf P. program_reachable hf iphash ths conf d P \<and> not_begun P \<and> p_sys P = s \<and> (\<forall>ls \<in> set (lines_waiting P). ls = [])"
  using assms
proof (induction rule: sys_reachable.induct)
  case (start fl now n s)
  let ?P = "program_init s (logger (srv s)) d"
  have "program_reachable hf iphash ths (logger (srv s)) d ?P" using start by (intro program_reachable.start) simp_all
  moreover have "not_begun ?P" "p_sys ?P = s" "\<forall>ls \<in> set (lines_waiting ?P). ls = []"
    by (simp_all add: program_init_def not_begun_def log_start_def)
  ultimately show ?case by blast
next
  case (step s act s')
  then obtain conf P where P: "program_reachable hf iphash ths conf d P" "not_begun P" "p_sys P = s"
    "\<forall>ls \<in> set (lines_waiting P). ls = []" by blast
  have "\<exists>P'. program_step hf iphash ths conf (Serve act) P = Inr (Some P') \<and> not_begun P' \<and> p_sys P' = s'"
    using step.hyps(3) P(2-4) by (cases act) (auto simp: not_begun_def speak_def simp del: sys_step.simps)
  then obtain P' where P': "program_step hf iphash ths conf (Serve act) P = Inr (Some P')" "not_begun P'" "p_sys P' = s'" by blast
  have "program_reachable hf iphash ths conf d P'" using step.hyps(2) P(3) by (intro program_reachable.step [OF P(1) _ P'(1)]) simp
  from append_lines [OF this P'(2)] P'(3) show ?case by blast
qed

text \<open>A state of the program in which a client has been served and its message is in the log's buffer.\<close>

lemma demo_program:
  "\<exists>conf P. program_reachable id (\<lambda>_. 1) (\<lambda>_. Worker_thread) conf old_disk P \<and> not_begun P \<and> 1 < length (pcs (p_sys P)) \<and>
     lines_waiting P ! 1 = [] \<and> logged (the_worker 1 (p_sys P)) \<noteq> []"
proof -
  obtain s where s: "sys_reachable id (\<lambda>_. 1) main_callbacks s" "1 < length (pcs s)" "pcs s ! 1 = Polling"
    "os_allows (Step 1 demo_exchange) s" "pool_map (threadPool (srv s) ! 1) (ev_id sample_event) = Some (Some 0)"
    "plain_exchange (heap (threadPool (srv s) ! 1) ! 0) sample_event"
    using demo_exchange_facts by blast
  have q: "os_allows (Step 1 quiet) s'" for s' by (simp add: quiet_def reported_def INT_time_def INT_MAX_def)
  obtain s1 s2 where st: "sys_step id (\<lambda>_. 1) main_callbacks (Step 1 demo_exchange) s = Inr (Some s1)"
    "sys_step id (\<lambda>_. 1) main_callbacks (Step 1 quiet) s1 = Inr (Some s2)" "logged (the_worker 1 s2) \<noteq> []"
    "length (threadPool (srv s2)) = length (threadPool (srv s))"
    using exchange_in_two_steps [OF s(1-4) demo_exchange_events(1) s(5,6), of quiet] by auto
  have r: "sys_reachable id (\<lambda>_. 1) main_callbacks s2"
    using sys_reachable.step [OF sys_reachable.step [OF s(1,4) st(1)] q st(2)] .
  have len: "1 < length (pcs s2)" using s(2) st(4) sys_invD(3) [OF reachable_inv [OF s(1)]] sys_invD(3) [OF reachable_inv [OF r]] by simp
  obtain conf P where P: "program_reachable id (\<lambda>_. 1) (\<lambda>_. Worker_thread) conf old_disk P" "not_begun P" "p_sys P = s2"
    "\<forall>ls \<in> set (lines_waiting P). ls = []"
    using program_follows [OF r, of "\<lambda>_. Worker_thread" old_disk] by blast
  have "lines_waiting P ! 1 = []"
    using P(3,4) len program_invD(5) [OF program_inv_reachable [OF P(1)]] by (metis nth_mem)
  then show ?thesis using P(1,2,3) len st(3) by (intro exI [of _ conf] exI [of _ P]) simp
qed

section \<open>What fails\<close>



section \<open>Properties\<close>




text \<open>C4: What the callbacks have logged is in the log files. In every state that the program can reach, each line of the log comes from
  one of the workers; the lines that came from a worker, with those it is still to append, are exactly the messages its callbacks have
  logged, in their order and in the format of \<open>TcpServer::log\<close>; and what the log files have got since the start, one after the
  other, is the text of all lines of the log but those that are still in the two buffers of the logger.\<close>

theorem program_logs_in_order:
  assumes "program_reachable hf iphash ths conf d P"
  shows "length (line_origin P) = length (pushed (p_log P)) \<and> set (line_origin P) \<subseteq> {..<length (pcs (p_sys P))} \<and>
    (\<forall>i < length (pcs (p_sys P)).
       list_all2 (line_of (ths i)) (lines_from i P @ lines_waiting P ! i) (logged (the_worker i (p_sys P)))) \<and>
    (\<exists>ts. length ts = log_data.suffix (p_log P) \<and>
       (\<forall>k < length ts. content (log_disk (p_disk P)) (logfilename conf @ ''_'' @ show_nat k) =
          content d (logfilename conf @ ''_'' @ show_nat k) @ ts ! k) \<and>
       concat ts @ texts (nextBuffer (p_log P) @ currentBuffer (p_log P)) = texts (pushed (p_log P)))"
proof -
  note v = program_invD [OF program_inv_reachable [OF assms]]
  have pc: "log_pc (p_log P) \<noteq> Done" using lines_invD(1) [of "p_log P"] lines_inv_reachable [OF v(2)] v(3) by auto
  have "\<exists>ts. length ts = log_data.suffix (p_log P) \<and>
     (\<forall>k < length ts. content (log_disk (p_disk P)) (logfilename conf @ ''_'' @ show_nat k) =
        content d (logfilename conf @ ''_'' @ show_nat k) @ ts ! k) \<and>
     concat ts @ texts (nextBuffer (p_log P) @ currentBuffer (p_log P)) = texts (pushed (p_log P))"
    using log_on_disk_parts [OF v(2)] pc by auto
  then show ?thesis using v(7,9,10,11) by simp
qed

lemma program_logs_in_order_witness:
  "\<exists>conf P. program_reachable id (\<lambda>_. 1) (\<lambda>_. Worker_thread) conf old_disk P \<and> lines_from 1 P \<noteq> [] \<and>
     list_all2 (line_of Worker_thread) (lines_from 1 P) (logged (the_worker 1 (p_sys P)))"
proof -
  obtain conf P where P: "program_reachable id (\<lambda>_. 1) (\<lambda>_. Worker_thread) conf old_disk P"
    "1 < length (pcs (p_sys P))" "lines_waiting P ! 1 = []" "logged (the_worker 1 (p_sys P)) \<noteq> []"
    using demo_program by blast
  have "list_all2 (line_of Worker_thread) (lines_from 1 P) (logged (the_worker 1 (p_sys P)))"
    using program_logs_in_order [OF P(1)] P(2,3) by force
  moreover from this have "lines_from 1 P \<noteq> []" using P(4) by auto
  ultimately show ?thesis using P(1) by blast
qed

end
