(* ===== verification/Spec2Isabelle.thy ===== *)
theory Spec2Isabelle
  imports Buffer Hash_Table Table_Map Utilities Config Sock_Addr Connection Worker Server Whole_Server Async_Log Threads
    Log_Threads Format Program Log_Files Echo_Stream Echo_Server Fair_Runs Worker_Frames Queue_Threads Table_Memory Lifetimes
    Server_Log Fair_Log Echo_Delivery Eviction_Limits Whole_Program
begin

text \<open>
  A verification development of yeyjTcpServer, a small C++ library for TCP servers (\<open>src/\<close>).

  \<^bold>\<open>The program.\<close> A \<open>TcpServer\<close> reads \<open>yeyj.config\<close>, starts worker threads, and runs an \<open>Acceptor\<close> that takes over
  connections from a listening socket. A load balancer picks a \<open>Worker\<close> for each; the connection is put into that
  worker's queue. A worker runs rounds: it handles the events epoll reports for its connections, moves the queued
  connections into its pool (a hash table that rehashes incrementally, like the one of Redis), evicts idle connections
  and, over a limit, forced ones. A \<open>TcpConnection\<close> has a ring buffer for each direction and calls the callbacks of the
  user; \<open>main.cpp\<close> is an echo server. Lines are logged through \<open>AsyncLogging\<close>, whose thread swaps two buffers and writes
  to rolling files.

  \<^bold>\<open>The theories.\<close>
  \<^item> \<open>Prelude\<close>: results that are a value or an error (\<open>cerr\<close>: undefined behaviour, a failed assertion, an exception, a call
    that does not return), checked \<open>int\<close> arithmetic, arrays with bounds, C strings, decimal numbers.
  \<^item> \<open>Buffer\<close>: \<open>buffer.h\<close>. The record \<open>buffer\<close> has the members of the class. \<open>buf_inv\<close>, \<open>buf_ok\<close> are the invariant,
    \<open>contents\<close> is the queue of bytes a buffer stands for. The locale \<open>byte_queue\<close> states what a client relies on.
  \<^item> \<open>Hash_Table\<close>: \<open>hash.h\<close>. A \<open>dict\<close> has two tables and the rehash index; chains are values of the datatype \<open>dictEntry\<close>,
    with a constructor for freed memory. \<open>dict_inv\<close> is the invariant, \<open>dict_map\<close> the map a table stands for.
  \<^item> \<open>Table_Map\<close>: the contracts of the table: \<open>bounded_simulation\<close> (scripts of calls refine scripts on a map),
    \<open>key_store\<close> and \<open>drawing_store\<close> (what the worker relies on), each interpreted on the table.
  \<^item> \<open>Table_Memory\<close>: constructor, destructor and \<open>clear\<close> of the table, with the order in which the entries are freed.
  \<^item> \<open>Utilities\<close>: \<open>utilities.cpp\<close>, and \<open>convertToKB\<close> and \<open>updateTime\<close> of \<open>tcpServer.cpp\<close>.
  \<^item> \<open>Config\<close>: \<open>TcpServer::loadConfig\<close>; a member that has not been set is \<open>None\<close>, and \<open>get_set\<close> of it is an error. \<open>config_text\<close>
    writes a configuration in the documented form, independently of the code that reads it.
  \<^item> \<open>Sock_Addr\<close>: \<open>inetSockAddr.h\<close>, the format of a log line, the deadline of \<open>Condition::waitForSeconds\<close>.
  \<^item> \<open>Connection\<close>: \<open>tcpConnection.h\<close>, \<open>tcpConnection.cpp\<close>, and the callbacks of \<open>main.cpp\<close>.
  \<^item> \<open>Echo_Stream\<close>: one connection of the echo server with its client and the network, as a stream of bytes each way.
    \<open>Echo_Delivery\<close>: its infinite runs on an edge-triggered socket.
  \<^item> \<open>Worker\<close>: \<open>worker.h\<close>, \<open>worker.cpp\<close>: the loop of a worker, a round at a time. \<open>worker_inv\<close> is the invariant of pool,
    queue, connections and epoll; \<open>sent\<close> records what the sockets took. The locale \<open>event_contract\<close> says what a worker needs of the user's callbacks; it
    is interpreted on those of \<open>main.cpp\<close>. \<open>Eviction_Limits\<close>: what the evictions do about the limits of the configuration.
  \<^item> \<open>Server\<close>: \<open>tcpServer.h\<close>, \<open>tcpServer.cpp\<close> and the accept loop of \<open>acceptor.cpp\<close>.
  \<^item> \<open>Whole_Server\<close>: the main thread and the workers, interleaved. \<open>sys_step\<close> is one step of a thread: a connection or an error that
    \<open>accept\<close> returns (\<open>Connect\<close>, \<open>Accept_Error\<close>), the periodic work (\<open>Cron\<close>), a step of a worker (\<open>Step\<close>), and the event of a
    worker that ends in \<open>SIGPIPE\<close> because its peer is gone (\<open>Peer_Gone\<close>). \<open>os_allows\<close> is what the operating system keeps to, \<open>step_fails\<close>
    says which steps fail, \<open>sys_reachable\<close> are the states of all runs, \<open>sys_inv\<close> is their invariant.
  \<^item> \<open>Worker_Frames\<close>: what a step of a worker leaves alone. \<open>Echo_Server\<close>: the streams of all connections of the running server.
    \<open>Fair_Runs\<close>: infinite runs in which every worker gets its turn.
  \<^item> \<open>Queue_Threads\<close>: the queue of a worker with its mutex, statement by statement, as a refinement of \<open>Whole_Server\<close>.
  \<^item> \<open>Async_Log\<close>: \<open>asyncLogging.h\<close>, \<open>asyncLogging.cpp\<close> as a step relation with reachable states, critical sections atomic.
  \<^item> \<open>Log_Files\<close>: \<open>LogFile\<close> over the streams of the C library and the disk, with an \<open>fopen\<close> that may fail. \<open>Fair_Log\<close>: infinite
    runs in which the log thread gets its turn.
  \<^item> \<open>Threads\<close>: \<open>mutex.h\<close>, \<open>condition.h\<close>, \<open>thread.h\<close>. The locale \<open>monitor\<close> is what a client needs of a lock.
  \<^item> \<open>Log_Threads\<close>: the log once more, statement by statement, with mutex, condition and threads, and its simulation by
    \<open>Async_Log\<close>.
  \<^item> \<open>Format\<close>: \<open>format\<close> and \<open>process_mem_usage\<close> of \<open>utilities.cpp\<close>, \<open>Buffer::print\<close>.
  \<^item> \<open>Program\<close>: the constructor of \<open>Acceptor\<close>, the setters of the callbacks, \<open>main\<close>, \<open>start\<close> and \<open>stop\<close> of the
    threads; the round of the acceptor as steps of \<open>Whole_Server\<close>.
  \<^item> \<open>Server_Log\<close>: the lines of the server in these files. \<open>Lifetimes\<close>: the destructors of buffers, connections,
    conditions and the logger.
  \<^item> \<open>Whole_Program\<close>: everything together. A \<open>program_state\<close> is the system of \<open>Whole_Server\<close> with the log and the disk of
    \<open>Log_Files\<close> and the lines that each worker is about to append; \<open>program_step\<close> is a step of the main thread, of a worker, of
    the append of a line (\<open>server_append\<close>) or of the log thread, \<open>program_fails\<close> says which of them fail, and \<open>program_inv\<close> is the
    invariant of all runs.

  \<^bold>\<open>What is shown.\<close> Refinements: scripts on a ring buffer refine scripts on a bounded queue, scripts on the hash table refine
  scripts on a finite map, the threads of the log refine the log with atomic critical sections, the threads at the queue of a worker refine the steps of
  the whole server, the log files on the disk are what the log has added to them. Invariants: of the buffer, of the table in the middle of rehashing, of a worker over a whole
  round, of the server over any number of connections, of the whole server
  in every state that its threads can reach, of the log in every reachable state. A step of the running
  server fails exactly when \<open>fcntl\<close> or \<open>accept\<close> fail in a way the assertions exclude, when a worker writes to a peer that is gone, or when
  random eviction finds an empty pool; a step of the whole program also when a log file could not be opened; and the log files hold what the
  callbacks of the workers have logged. Streams: what a client gets
  back is a subsequence of what it has sent itself, among any number of clients, and all of it when it keeps to a window. Liveness: every
  connection accepted is registered in every fair run, a client gets its data back, and all of it on an edge-triggered socket when its
  window fits both buffers and a report of data is followed by one that the socket is writable (without that there is a run in which it waits
  for ever), every line of the log reaches the disk, \<open>stop\<close> of the log returns unless an empty line was logged (for infinite runs by the rule
  \<open>fair_progress\<close> of \<open>Prelude\<close>). Limits: after a round the pool holds what it held and what was queued, except for connections with an
  event and at most one for each kind of eviction that is switched on, so that a long queue exceeds the limit of a worker; in quiet rounds the limit is reached
  again. Growth of a table: exactly when and to how many buckets. Round trips: message framing, configurations, the echo server, splitting and
  joining. Memory: the destructor of a table frees every entry once. Termination: rehashing, growth of buffers, a round of a worker; the loops of the
  models are total functions, except the two loops that may not end (\<open>grow_loop\<close>, \<open>nextPower_loop\<close>), which are partial functions whose
  undefined result is the error \<open>Nonterminating\<close>. Errors: the inputs on which the code fails, each proved to fail.

  \<^bold>\<open>Assumptions and bounds.\<close> \<open>int\<close> has 32 bits and overflow is an error, \<open>unsigned long\<close>, pointers and \<open>size_t\<close> have 64 bits,
  the host is little-endian, assertions are live. Properties of tables assume fewer than \<open>2 ^ 29\<close> entries and those of
  buffers a capacity of at most \<open>2 ^ 30\<close> bytes: below these no index of the code leaves its type. The answers of the outside
  world are arguments: the hash function, \<open>random()\<close> and \<open>rand()\<close> (a list of numbers; a result \<open>None\<close> says the list was too
  short for the loops that draw until they hit an entry), the clock, what sockets give and take, the events of epoll, the
  memory in use, the text of the configuration file. The infinite loops of the acceptor and the workers are modelled by
  their rounds in \<open>Worker\<close> and \<open>Server\<close>, and by runs of any length in \<open>Whole_Server\<close>. There the step of a worker is one event,
  one registration or one eviction, the queue is changed in single steps, fewer than \<open>2 ^ 28\<close> connections come in, and
  descriptors are not reused, since the program closes none. Liveness is shown under fairness: every thread gets its turn again and
  again (\<open>gets_turns\<close>, \<open>thread_gets_turns\<close>), and an edge-triggered socket reports what comes in and, after a write that met \<open>EAGAIN\<close>,
  reports when it takes something again (\<open>edge_promises\<close>, from the manual of epoll). That a report of data is followed by a report that the
  socket is writable (\<open>reads_then_writes\<close>) is not promised by the manual, but how Linux behaves; it is a hypothesis of its own. The whole server starts with a configuration in which every member it reads later is set, with any rules and limits (\<open>sys_config\<close>). In \<open>Whole_Program\<close> the logger is never stopped, as in the program, and a push is one step. The log thread needs at most 15 steps to end, counted in \<open>log_left\<close>.

  \<^bold>\<open>Not modelled.\<close> Console output, failing allocations, a failing \<open>pthread_create\<close>, system calls whose result the
  program ignores (\<open>setsockopt\<close>, \<open>epoll_ctl\<close>, and \<open>fwrite\<close> and \<open>fflush\<close> on a full disk), the number of a log file beyond \<open>2 ^ 31\<close>, the data races of members read without a lock (such reads are taken to be atomic;
  among them \<open>_timeString\<close>, \<open>_exceedMaxMemory\<close>, \<open>_running\<close>, \<open>_accumulateBytes\<close> and the pool size in \<open>getConnectionNum\<close>). The
  directives of \<open>vsnprintf\<close> are those the program uses. \<open>LogFile::operator=\<close> lacks its return statement; it is modelled by its
  effect. The destructors of \<open>TcpServer\<close> and \<open>Acceptor\<close> are empty, and never run.
\<close>

end
